(* ===== verification/Prelude.thy ===== *)
theory Prelude
  imports Main "HOL-Library.Word"
begin

text \<open>
  The vocabulary every component of the development shares: the machine
  integers of the C++ sources (\<open>uint8_t\<close> to \<open>uint64_t\<close> as words, \<open>size_t\<close> as a
  natural number with its wrap-around written out), the byte representation of
  an unsigned integer, and the generic facts on lists and words that the
  component proofs use.
\<close>

unbundle bit_operations_syntax

named_theorems byte_simps \<open>integers and their byte representations\<close>
named_theorems seq_simps \<open>comparison and distance of wrapping sequence numbers\<close>

type_synonym u8 = "8 word"
type_synonym u16 = "16 word"
type_synonym u32 = "32 word"
type_synonym u64 = "64 word"
type_synonym byte = u8
type_synonym bytes = "byte list"

section \<open>\<open>size_t\<close>\<close>

text \<open>
  \<open>size_t\<close> is 64 bits wide. Cursors and lengths are natural numbers; an addition
  or a doubling the code performs on \<open>size_t\<close> is taken modulo \<open>2 ^ 64\<close>.
\<close>

definition size_max :: nat where
  "size_max = 2 ^ 64 - 1"

definition sz_add :: "nat \<Rightarrow> nat \<Rightarrow> nat" where
  "sz_add a b = (a + b) mod 2 ^ 64"

definition sz_mul :: "nat \<Rightarrow> nat \<Rightarrow> nat" where
  "sz_mul a b = (a * b) mod 2 ^ 64"

definition sz_sub :: "nat \<Rightarrow> nat \<Rightarrow> nat" where
  "sz_sub a b = (a + 2 ^ 64 - b) mod 2 ^ 64"

lemma sz_add_small [simp]: "a + b < 2 ^ 64 \<Longrightarrow> sz_add a b = a + b"
  by (simp add: sz_add_def)

lemma sz_mul_small [simp]: "a * b < 2 ^ 64 \<Longrightarrow> sz_mul a b = a * b"
  by (simp add: sz_mul_def)

lemma sz_add_less: "sz_add a b < 2 ^ 64"
  by (simp add: sz_add_def)

lemma sz_sub_small: "b \<le> a \<Longrightarrow> a < 2 ^ 64 \<Longrightarrow> sz_sub a b = a - b"
proof -
  assume "b \<le> a" "a < 2 ^ 64"
  then have "a + 2 ^ 64 - b = (a - b) + 2 ^ 64" by simp
  then show ?thesis using \<open>a < 2 ^ 64\<close> by (simp only: sz_sub_def mod_add_self2) simp
qed

section \<open>Integers as bytes\<close>

text \<open>
  \<open>le_bytes k x\<close> is the little-endian representation of \<open>x\<close> in \<open>k\<close> bytes, and
  \<open>le_val\<close> the number a little-endian byte string denotes.
\<close>

primrec le_bytes :: "nat \<Rightarrow> nat \<Rightarrow> bytes" where
  "le_bytes 0 x = []"
| "le_bytes (Suc k) x = word_of_nat (x mod 256) # le_bytes k (x div 256)"

primrec le_val :: "bytes \<Rightarrow> nat" where
  "le_val [] = 0"
| "le_val (b # bs) = unat b + 256 * le_val bs"

lemma length_le_bytes [simp, byte_simps]: "length (le_bytes k x) = k"
  by (induction k arbitrary: x) auto

lemma unat_byte_mod [simp, byte_simps]: "unat (word_of_nat (x mod 256) :: byte) = x mod 256"
  by (simp add: unat_of_nat)

lemma unat_byte_less: "unat (b :: byte) < 256"
proof -
  have "unat b < 2 ^ LENGTH(8)" by (rule unsigned_less)
  then show ?thesis by simp
qed

lemma unat16_less: "unat (w :: u16) < 65536"
proof -
  have "unat w < 2 ^ LENGTH(16)" by (rule unsigned_less)
  then show ?thesis by simp
qed

lemma unat64_less: "unat (w :: u64) < 2 ^ 64"
proof -
  have "unat w < 2 ^ LENGTH(64)" by (rule unsigned_less)
  then show ?thesis by simp
qed

lemma unat_of_nat_small: "n < 2 ^ LENGTH('a) \<Longrightarrow> unat (word_of_nat n :: 'a::len word) = n"
  by (simp add: unat_of_nat)

lemma le_val_le_bytes [simp, byte_simps]: "le_val (le_bytes k x) = x mod 256 ^ k"
proof (induction k arbitrary: x)
  case 0
  then show ?case by simp
next
  case (Suc k)
  have "x mod 256 + 256 * (x div 256 mod 256 ^ k) = x mod (256 * 256 ^ k)"
    by (simp add: mod_mult2_eq)
  with Suc show ?case by simp
qed

lemma radix_less: "(a::nat) < 256 \<Longrightarrow> x < y \<Longrightarrow> a + 256 * x < 256 * y"
  by linarith

lemma le_val_less: "le_val bs < 256 ^ length bs"
  by (induction bs) (auto intro!: radix_less unat_byte_less)

lemma le_bytes_le_val [simp, byte_simps]: "le_bytes (length bs) (le_val bs) = bs"
proof (induction bs)
  case Nil
  then show ?case by simp
next
  case (Cons b bs)
  have b: "unat b < 256" by (rule unat_byte_less)
  then have "(unat b + 256 * le_val bs) mod 256 = unat b"
    and "(unat b + 256 * le_val bs) div 256 = le_val bs"
    by simp_all
  with Cons show ?case by simp
qed

lemma le_bytes_inject:
  "x < 256 ^ k \<Longrightarrow> y < 256 ^ k \<Longrightarrow> le_bytes k x = le_bytes k y \<longleftrightarrow> x = y"
  by (metis le_val_le_bytes mod_less)

lemma le_val_append: "le_val (xs @ ys) = le_val xs + 256 ^ length xs * le_val ys"
  by (induction xs) (auto simp: algebra_simps)

lemma le_val_replicate_0 [simp]: "le_val (replicate n 0) = 0"
  by (induction n) auto

section \<open>Splicing a byte string into memory\<close>

text \<open>\<open>overlay d off bs\<close> is memory \<open>d\<close> after \<open>bs\<close> was copied to offset \<open>off\<close>.\<close>

definition overlay :: "'a list \<Rightarrow> nat \<Rightarrow> 'a list \<Rightarrow> 'a list" where
  "overlay d off bs = take off d @ bs @ drop (off + length bs) d"

lemma length_overlay [simp]:
  "off + length bs \<le> length d \<Longrightarrow> length (overlay d off bs) = length d"
  by (simp add: overlay_def)

lemma take_overlay_before [simp]:
  "n \<le> off \<Longrightarrow> off \<le> length d \<Longrightarrow> take n (overlay d off bs) = take n d"
  by (simp add: overlay_def min_def)

lemma take_overlay_end:
  "off \<le> length d \<Longrightarrow> take (off + length bs) (overlay d off bs) = take off d @ bs"
  by (simp add: overlay_def)

section \<open>Wrapping sequence numbers\<close>

text \<open>The signed reading of a 16-bit difference, as \<open>static_cast<int16_t>(a - b)\<close>.\<close>

lemma signed16_arith:
  assumes "0 \<le> (u::int)" and "u < 65536"
  shows "(if odd (u div 32768) then u mod 65536 - 65536 else u mod 65536)
     = (if u < 32768 then u else u - 65536)"
proof -
  have "u mod 65536 = u" using assms by simp
  moreover have "u div 32768 = (if u < 32768 then 0 else 1)"
    using assms int_div_pos_eq [of u 32768 1 "u - 32768"] by simp
  ultimately show ?thesis by simp
qed

lemma sint16_eq: "sint (w :: u16) = (if uint w < 32768 then uint w else uint w - 65536)"
proof -
  have "uint w < 2 ^ LENGTH(16)" by (rule uint_lt2p)
  then have u: "0 \<le> uint w" "uint w < 65536" by simp_all
  have "sint w = signed_take_bit 15 (uint w)"
    by (simp add: sint_uint)
  also have "\<dots> = (if odd (uint w div 32768) then uint w mod 65536 - 65536 else uint w mod 65536)"
    by (simp add: signed_take_bit_eq_take_bit_minus take_bit_eq_mod bit_iff_odd)
  finally show ?thesis by (simp only: signed16_arith [OF u])
qed

lemma sint16_pos_iff [seq_simps]:
  "0 < sint (w :: u16) \<longleftrightarrow> 0 < unat w \<and> unat w < 32768"
proof -
  have "uint w < 2 ^ LENGTH(16)" by (rule uint_lt2p)
  moreover obtain n where n: "unat w = n" "uint w = int n" by simp
  ultimately show ?thesis by (simp only: sint16_eq n) simp
qed

lemma sint16_neg_iff [seq_simps]:
  "sint (w :: u16) < 0 \<longleftrightarrow> 32768 \<le> unat w"
proof -
  have "uint w < 2 ^ LENGTH(16)" by (rule uint_lt2p)
  moreover obtain n where n: "unat w = n" "uint w = int n" by simp
  ultimately show ?thesis by (simp only: sint16_eq n) simp
qed

end
