(* ===== verification/Znet_Buffer.thy ===== *)
theory Znet_Buffer
  imports Prelude
begin

text \<open>
  The byte buffer of \<open>znet/include/znet/buffer.h\<close>: one allocation, a write cursor,
  a read cursor, a read limit and a sticky error. The record \<open>Buffer\<close> has the
  fields of the class; every member function is one definition of the same name.
  \<open>new (std::nothrow) char[n]\<close> is the argument \<open>nw\<close> of the operations that
  allocate: \<open>None\<close> is a failed allocation, \<open>Some d\<close> an array with arbitrary
  content. \<open>GetSystemEndianness\<close> is fixed to the little-endian build.

  Reading through the check of \<open>CheckReadableBytes\<close> and writing through
  \<open>Reserve\<close> are shown to stay inside the allocation, and the buffer is shown to
  implement the interface \<open>byte_stream\<close>: writes append to the readable bytes and
  reads take from their front.
\<close>

section \<open>State\<close>

datatype Endianness = LittleEndian | BigEndian

definition GetSystemEndianness :: Endianness where
  "GetSystemEndianness = LittleEndian"

datatype BufferError =
  NoBufferError | CannotAllocate | ReadOutOfBounds | CorruptedFormat | ReadLimitExceeded

definition GetBufferErrorString :: "BufferError \<Rightarrow> string" where
  "GetBufferErrorString error = (case error of
     NoBufferError \<Rightarrow> ''NoError''
   | CannotAllocate \<Rightarrow> ''CannotAllocate''
   | ReadOutOfBounds \<Rightarrow> ''ReadOutOfBounds''
   | CorruptedFormat \<Rightarrow> ''CorruptedFormat''
   | ReadLimitExceeded \<Rightarrow> ''ReadLimitExceeded'')"

definition ZNET_MAX_READ_ELEMENTS :: nat where
  "ZNET_MAX_READ_ELEMENTS = 65536"

definition ZNET_MAX_READ_STRING_LENGTH :: nat where
  "ZNET_MAX_READ_STRING_LENGTH = 65536"

type_synonym allocator = "nat \<Rightarrow> bytes option"

record Buffer =
  buf_endianness :: Endianness
  buf_allocated_size :: nat
  buf_write_cursor :: nat
  buf_read_cursor :: nat
  buf_read_limit :: nat
  buf_data :: "bytes option"
  buf_last_error :: BufferError

section \<open>Constructors\<close>

definition Buffer_new :: "Endianness \<Rightarrow> Buffer" where
  "Buffer_new e = \<lparr>buf_endianness = e, buf_allocated_size = 0, buf_write_cursor = 0,
     buf_read_cursor = 0, buf_read_limit = size_max, buf_data = None,
     buf_last_error = NoBufferError\<rparr>"

definition Buffer_of :: "allocator \<Rightarrow> bytes \<Rightarrow> Endianness \<Rightarrow> Buffer" where
  "Buffer_of nw bs e =
     (let b = \<lparr>buf_endianness = e, buf_allocated_size = length bs,
                buf_write_cursor = length bs, buf_read_cursor = 0, buf_read_limit = size_max,
                buf_data = nw (length bs), buf_last_error = NoBufferError\<rparr>
      in case buf_data b of
           None \<Rightarrow> b\<lparr>buf_last_error := CannotAllocate, buf_allocated_size := 0\<rparr>
         | Some d \<Rightarrow> b\<lparr>buf_data := Some (overlay d 0 bs)\<rparr>)"

definition Buffer_copy :: "allocator \<Rightarrow> Buffer \<Rightarrow> Buffer" where
  "Buffer_copy nw b =
     (case buf_data b of
        None \<Rightarrow> b\<lparr>buf_data := None\<rparr>
      | Some src \<Rightarrow>
          if buf_allocated_size b = 0 then b\<lparr>buf_data := None\<rparr>
          else (case nw (buf_allocated_size b) of
                  None \<Rightarrow> b\<lparr>buf_data := None, buf_last_error := CannotAllocate,
                            buf_allocated_size := 0, buf_write_cursor := 0,
                            buf_read_cursor := 0\<rparr>
                | Some d \<Rightarrow> b\<lparr>buf_data := Some (overlay d 0 (take (buf_write_cursor b) src))\<rparr>))"

text \<open>A moved-from buffer keeps its endianness, limit and error and loses its bytes.\<close>

definition Buffer_moved_from :: "Buffer \<Rightarrow> Buffer" where
  "Buffer_moved_from b = b\<lparr>buf_data := None, buf_allocated_size := 0,
     buf_write_cursor := 0, buf_read_cursor := 0\<rparr>"

section \<open>Cursors and limits\<close>

definition readable_bytes :: "Buffer \<Rightarrow> nat" where
  "readable_bytes b =
     (let min_cursor = min (buf_write_cursor b) (buf_read_limit b)
      in if buf_read_cursor b > min_cursor then 0 else min_cursor - buf_read_cursor b)"

definition writable_bytes :: "Buffer \<Rightarrow> nat" where
  "writable_bytes b = buf_allocated_size b - buf_write_cursor b"

definition read_cursor_data :: "Buffer \<Rightarrow> bytes" where
  "read_cursor_data b = (case buf_data b of None \<Rightarrow> [] | Some d \<Rightarrow> drop (buf_read_cursor b) d)"

definition CheckReadableBytes :: "nat \<Rightarrow> Buffer \<Rightarrow> bool" where
  "CheckReadableBytes required b \<longleftrightarrow>
     sz_add (buf_read_cursor b) required \<le> min (buf_write_cursor b) (buf_read_limit b)"

definition set_error :: "BufferError \<Rightarrow> Buffer \<Rightarrow> Buffer" where
  "set_error e b = b\<lparr>buf_last_error := e\<rparr>"

definition CheckReadCount :: "nat \<Rightarrow> nat \<Rightarrow> nat \<Rightarrow> Buffer \<Rightarrow> bool \<times> Buffer" where
  "CheckReadCount count max_allowed min_bytes_per_element b =
     (if max_allowed \<noteq> 0 \<and> count > max_allowed
      then (False, set_error ReadLimitExceeded b)
      else let per_element = (if min_bytes_per_element = 0 then 1 else min_bytes_per_element)
           in if count > readable_bytes b div per_element
              then (False, set_error ReadOutOfBounds b)
              else (True, b))"

definition SkipRead :: "nat \<Rightarrow> Buffer \<Rightarrow> Buffer" where
  "SkipRead n b = b\<lparr>buf_read_cursor := sz_add (buf_read_cursor b) n\<rparr>"

definition CommitWrite :: "nat \<Rightarrow> Buffer \<Rightarrow> Buffer" where
  "CommitWrite n b = b\<lparr>buf_write_cursor := sz_add (buf_write_cursor b) n\<rparr>"

definition SetReadLimit :: "nat \<Rightarrow> Buffer \<Rightarrow> Buffer" where
  "SetReadLimit limit b =
     b\<lparr>buf_read_limit := (if limit = 0 then size_max else limit)\<rparr>"

definition set_read_cursor :: "nat \<Rightarrow> Buffer \<Rightarrow> Buffer" where
  "set_read_cursor c b = b\<lparr>buf_read_cursor := c\<rparr>"

definition set_write_cursor :: "nat \<Rightarrow> Buffer \<Rightarrow> Buffer" where
  "set_write_cursor c b = b\<lparr>buf_write_cursor := c\<rparr>"

definition GetAndClearLastError :: "Buffer \<Rightarrow> BufferError \<times> Buffer" where
  "GetAndClearLastError b = (buf_last_error b, set_error NoBufferError b)"

section \<open>Allocation\<close>

definition grow_target :: "nat \<Rightarrow> nat" where
  "grow_target n = max 64 (sz_mul n 2)"

definition Reserve :: "allocator \<Rightarrow> nat \<Rightarrow> bool \<Rightarrow> Buffer \<Rightarrow> bool \<times> Buffer" where
  "Reserve nw sz exact b =
     (case buf_data b of
        None \<Rightarrow>
          let target_size = (if exact then sz else grow_target sz)
          in (case nw target_size of
                None \<Rightarrow> (False, set_error CannotAllocate b)
              | Some d \<Rightarrow> (True, b\<lparr>buf_data := Some d, buf_allocated_size := target_size\<rparr>))
      | Some old \<Rightarrow>
          if sz \<le> buf_allocated_size b then (True, b)
          else let target_size = grow_target sz
               in (case nw target_size of
                     None \<Rightarrow> (False, set_error CannotAllocate b)
                   | Some d \<Rightarrow>
                       (True, b\<lparr>buf_data := Some (overlay d 0 (take (buf_write_cursor b) old)),
                                buf_allocated_size := target_size\<rparr>)))"

definition ReserveIncremental :: "allocator \<Rightarrow> nat \<Rightarrow> Buffer \<Rightarrow> bool \<times> Buffer" where
  "ReserveIncremental nw additional b = Reserve nw (sz_add (buf_write_cursor b) additional) False b"

definition ReserveExact :: "allocator \<Rightarrow> nat \<Rightarrow> Buffer \<Rightarrow> bool \<times> Buffer" where
  "ReserveExact nw sz b = Reserve nw sz True b"

definition ReserveHeadroom :: "nat \<Rightarrow> Buffer \<Rightarrow> Buffer" where
  "ReserveHeadroom n b = b\<lparr>buf_read_cursor := n, buf_write_cursor := n\<rparr>"

definition poke :: "nat \<Rightarrow> bytes \<Rightarrow> Buffer \<Rightarrow> Buffer" where
  "poke off bs b = b\<lparr>buf_data := map_option (\<lambda>d. overlay d off bs) (buf_data b)\<rparr>"

definition PrependInt8 :: "byte \<Rightarrow> Buffer \<Rightarrow> bool \<times> Buffer" where
  "PrependInt8 value b =
     (if buf_read_cursor b = 0 \<or> buf_data b = None then (False, b)
      else let rc = buf_read_cursor b - 1
           in (True, poke rc [value] (b\<lparr>buf_read_cursor := rc\<rparr>)))"

definition SkipWrite :: "allocator \<Rightarrow> nat \<Rightarrow> Buffer \<Rightarrow> Buffer" where
  "SkipWrite nw n b =
     (let (ok, b1) = ReserveIncremental nw n b
      in if \<not> ok then b1 else CommitWrite n b1)"

definition Trim :: "allocator \<Rightarrow> Buffer \<Rightarrow> Buffer" where
  "Trim nw b =
     (if buf_write_cursor b = buf_allocated_size b then b
      else case nw (buf_write_cursor b) of
             None \<Rightarrow> set_error CannotAllocate b
           | Some d \<Rightarrow>
               b\<lparr>buf_data := Some (overlay d 0 (take (buf_write_cursor b)
                                   (case buf_data b of None \<Rightarrow> [] | Some old \<Rightarrow> old))),
                 buf_allocated_size := buf_write_cursor b\<rparr>)"

definition Compact :: "Buffer \<Rightarrow> Buffer" where
  "Compact b =
     (if buf_read_cursor b = 0 then b
      else let unread = (if buf_write_cursor b > buf_read_cursor b
                         then buf_write_cursor b - buf_read_cursor b else 0);
               b1 = (if unread > 0 then poke 0 (take unread (read_cursor_data b)) b else b)
           in b1\<lparr>buf_read_cursor := 0, buf_write_cursor := unread\<rparr>)"

definition Buffer_Reset :: "bool \<Rightarrow> Buffer \<Rightarrow> Buffer" where
  "Buffer_Reset deallocate b =
     (let b1 = b\<lparr>buf_write_cursor := 0, buf_read_cursor := 0, buf_last_error := NoBufferError\<rparr>
      in if deallocate then b1\<lparr>buf_allocated_size := 0, buf_data := None\<rparr> else b1)"

section \<open>Reading\<close>

text \<open>
  A template over an arithmetic type \<open>T\<close> is a function of \<open>sizeof(T)\<close> and of the
  memory image of the value; \<open>mem_image\<close> and \<open>of_mem_image\<close> are \<open>memcpy\<close> between a
  word and its bytes on this system.
\<close>

definition mem_image :: "'a::len word \<Rightarrow> bytes" where
  "mem_image w = (let le = le_bytes (LENGTH('a) div 8) (unat w)
                  in case GetSystemEndianness of LittleEndian \<Rightarrow> le | BigEndian \<Rightarrow> rev le)"

definition of_mem_image :: "bytes \<Rightarrow> 'a::len word" where
  "of_mem_image bs =
     word_of_nat (le_val (case GetSystemEndianness of LittleEndian \<Rightarrow> bs | BigEndian \<Rightarrow> rev bs))"

definition to_wire_order :: "Buffer \<Rightarrow> bytes \<Rightarrow> bytes" where
  "to_wire_order b bs = (if GetSystemEndianness = buf_endianness b then bs else rev bs)"

definition Read :: "nat \<Rightarrow> nat \<Rightarrow> Buffer \<Rightarrow> bytes option \<times> Buffer" where
  "Read sizeof_T n b =
     (if n > size_max div sizeof_T then (None, set_error CorruptedFormat b)
      else let calculated_size = sizeof_T * n
           in if \<not> CheckReadableBytes calculated_size b
              then (None, set_error ReadOutOfBounds b)
              else (Some (take calculated_size (read_cursor_data b)), SkipRead calculated_size b))"

definition ReadNumber :: "nat \<Rightarrow> Buffer \<Rightarrow> bytes \<times> Buffer" where
  "ReadNumber sizeof_T b =
     (if \<not> CheckReadableBytes sizeof_T b
      then (replicate sizeof_T 0, set_error ReadOutOfBounds b)
      else (to_wire_order b (take sizeof_T (read_cursor_data b)), SkipRead sizeof_T b))"

definition ReadInt :: "Buffer \<Rightarrow> 'a::len word \<times> Buffer" where
  "ReadInt b = (let (m, b1) = ReadNumber (LENGTH('a) div 8) b in (of_mem_image m, b1))"

definition ReadVarInt :: "Buffer \<Rightarrow> 'a::len word \<times> Buffer" where
  "ReadVarInt b =
     (let sizeof_T = LENGTH('a) div 8
      in if \<not> CheckReadableBytes 1 b then (0, set_error ReadOutOfBounds b)
         else let (n, b1) = ReadInt b; actual_size = unat (n :: u8)
              in if actual_size > sizeof_T then (0, set_error CorruptedFormat b1)
                 else if \<not> CheckReadableBytes actual_size b1
                 then (0, set_error ReadOutOfBounds b1)
                 else let data = to_wire_order b1 (take actual_size (read_cursor_data b1))
                                   @ replicate (sizeof_T - actual_size) 0
                      in (of_mem_image data, SkipRead actual_size b1))"

definition ReadString :: "Buffer \<Rightarrow> bytes \<times> Buffer" where
  "ReadString b =
     (let (n, b1) = ReadVarInt b; sz = unat (n :: u64);
          (ok, b2) = CheckReadCount sz ZNET_MAX_READ_STRING_LENGTH 1 b1
      in if \<not> ok then ([], b2)
         else (take sz (read_cursor_data b2), SkipRead sz b2))"

primrec read_n :: "nat \<Rightarrow> (Buffer \<Rightarrow> 'a \<times> Buffer) \<Rightarrow> Buffer \<Rightarrow> 'a list \<times> Buffer" where
  "read_n 0 f b = ([], b)"
| "read_n (Suc n) f b = (let (x, b1) = f b; (xs, b2) = read_n n f b1 in (x # xs, b2))"

definition ReadVector :: "(Buffer \<Rightarrow> 'a \<times> Buffer) \<Rightarrow> Buffer \<Rightarrow> 'a list \<times> Buffer" where
  "ReadVector value_func b =
     (let (n, b1) = ReadVarInt b; sz = unat (n :: u64);
          (ok, b2) = CheckReadCount sz ZNET_MAX_READ_ELEMENTS 1 b1
      in if \<not> ok then ([], b2) else read_n sz value_func b2)"

definition ReadMap ::
  "(Buffer \<Rightarrow> 'k \<times> Buffer) \<Rightarrow> (Buffer \<Rightarrow> 'v \<times> Buffer) \<Rightarrow> Buffer \<Rightarrow> ('k \<rightharpoonup> 'v) \<times> Buffer" where
  "ReadMap key_func value_func b =
     (let (n, b1) = ReadVarInt b; sz = unat (n :: u64);
          (ok, b2) = CheckReadCount sz ZNET_MAX_READ_ELEMENTS 2 b1
      in if \<not> ok then (Map.empty, b2)
         else let (kvs, b3) = read_n sz (\<lambda>b. let (k, b') = key_func b; (v, b'') = value_func b'
                                               in ((k, v), b'')) b2
              in (foldl (\<lambda>m (k, v). m(k \<mapsto> v)) Map.empty kvs, b3))"

text \<open>The two \<open>ReadArray\<close> overloads; \<open>sizeof_T\<close> is the size of the element type.\<close>

definition ReadArray ::
  "allocator \<Rightarrow> nat \<Rightarrow> (Buffer \<Rightarrow> 'a \<times> Buffer) \<Rightarrow> Buffer \<Rightarrow> 'a list option \<times> Buffer" where
  "ReadArray nw sizeof_T value_func b =
     (let (n, b1) = ReadVarInt b; sz = unat (n :: u64);
          (ok, b2) = CheckReadCount sz ZNET_MAX_READ_ELEMENTS sizeof_T b1
      in if \<not> ok then (None, b2)
         else if nw (sizeof_T * sz) = None then (None, set_error CannotAllocate b2)
         else let (xs, b3) = read_n sz value_func b2 in (Some xs, b3))"

definition ReadArray_fixed ::
  "nat \<Rightarrow> nat \<Rightarrow> (Buffer \<Rightarrow> 'a \<times> Buffer) \<Rightarrow> Buffer \<Rightarrow> 'a list option \<times> Buffer" where
  "ReadArray_fixed sizeof_T sz value_func b =
     (let (n, b1) = ReadVarInt b; size_r = unat (n :: u64)
      in if size_r \<noteq> sz then (None, set_error CorruptedFormat b1)
         else if \<not> CheckReadableBytes (sz * sizeof_T) b1
         then (None, set_error ReadOutOfBounds b1)
         else let (xs, b2) = read_n sz value_func b1 in (Some xs, b2))"

definition bit_at :: "bytes \<Rightarrow> nat \<Rightarrow> bool" where
  "bit_at bs i = bit (bs ! (i div 8)) (i mod 8)"

definition ReadBitset :: "nat \<Rightarrow> Buffer \<Rightarrow> bool list \<times> Buffer" where
  "ReadBitset N b =
     (let nbytes = (N + 7) div 8; (r, b1) = Read 1 nbytes b;
          data = (case r of None \<Rightarrow> replicate nbytes 0 | Some bs \<Rightarrow> bs)
      in (map (bit_at data) [0..<N], b1))"

section \<open>Writing\<close>

definition Write :: "allocator \<Rightarrow> bytes \<Rightarrow> Buffer \<Rightarrow> Buffer" where
  "Write nw bs b =
     (let (ok, b1) = ReserveIncremental nw (length bs) b
      in if \<not> ok then b1
         else CommitWrite (length bs) (poke (buf_write_cursor b1) bs b1))"

definition WriteNumber :: "allocator \<Rightarrow> bytes \<Rightarrow> Buffer \<Rightarrow> Buffer" where
  "WriteNumber nw pt b =
     (let (ok, b1) = ReserveIncremental nw (length pt) b
      in if \<not> ok then b1
         else CommitWrite (length pt) (poke (buf_write_cursor b1) (to_wire_order b1 pt) b1))"

definition WriteInt :: "allocator \<Rightarrow> 'a::len word \<Rightarrow> Buffer \<Rightarrow> Buffer" where
  "WriteInt nw c b = WriteNumber nw (mem_image c) b"

text \<open>The index past the last non-zero byte of the memory image.\<close>

definition varint_size :: "bytes \<Rightarrow> nat" where
  "varint_size raw = foldl (\<lambda>acc (i, x). if x \<noteq> 0 then i + 1 else acc) 0 (enumerate 0 raw)"

definition WriteVarInt :: "allocator \<Rightarrow> 'a::len word \<Rightarrow> Buffer \<Rightarrow> Buffer" where
  "WriteVarInt nw c b =
     (let raw_data = mem_image c; actual_size = varint_size raw_data;
          (ok, b1) = ReserveIncremental nw (actual_size + 1) b
      in if \<not> ok then b1
         else let b2 = WriteInt nw (word_of_nat actual_size :: u8) b1
              in CommitWrite actual_size
                   (poke (buf_write_cursor b2) (to_wire_order b2 (take actual_size raw_data)) b2))"

definition WriteString :: "allocator \<Rightarrow> bytes \<Rightarrow> Buffer \<Rightarrow> Buffer" where
  "WriteString nw str b =
     (let b1 = snd (ReserveIncremental nw (length str + 8) b);
          b2 = WriteVarInt nw (word_of_nat (length str) :: u64) b1
      in foldl (\<lambda>b c. WriteInt nw c b) b2 str)"

definition WriteVector ::
  "allocator \<Rightarrow> 'a list \<Rightarrow> ('a \<Rightarrow> Buffer \<Rightarrow> Buffer) \<Rightarrow> Buffer \<Rightarrow> Buffer" where
  "WriteVector nw v value_func b =
     foldl (\<lambda>b x. value_func x b) (WriteVarInt nw (word_of_nat (length v) :: u64) b) v"

definition WriteMap ::
  "allocator \<Rightarrow> ('k \<times> 'v) list \<Rightarrow> ('k \<Rightarrow> Buffer \<Rightarrow> Buffer) \<Rightarrow> ('v \<Rightarrow> Buffer \<Rightarrow> Buffer)
     \<Rightarrow> Buffer \<Rightarrow> Buffer" where
  "WriteMap nw kvs key_func value_func b =
     foldl (\<lambda>b (k, v). value_func v (key_func k b))
       (WriteVarInt nw (word_of_nat (length kvs) :: u64) b) kvs"

text \<open>\<open>WriteArray\<close> on a pointer and a size; a null pointer writes an empty array.\<close>

definition WriteArray ::
  "allocator \<Rightarrow> 'a list option \<Rightarrow> ('a \<Rightarrow> Buffer \<Rightarrow> Buffer) \<Rightarrow> Buffer \<Rightarrow> Buffer" where
  "WriteArray nw v value_func b =
     (case v of
        None \<Rightarrow> WriteVarInt nw (0 :: u64) b
      | Some xs \<Rightarrow> foldl (\<lambda>b x. value_func x b)
                    (WriteVarInt nw (word_of_nat (length xs) :: u64) b) xs)"

definition set_bit_at :: "bytes \<Rightarrow> nat \<Rightarrow> bytes" where
  "set_bit_at data i = data[i div 8 := data ! (i div 8) OR push_bit (i mod 8) 1]"

definition bitset_bytes :: "bool list \<Rightarrow> bytes" where
  "bitset_bytes bs =
     foldl (\<lambda>data i. if bs ! i then set_bit_at data i else data)
       (replicate ((length bs + 7) div 8) 0) [0..<length bs]"

definition WriteBitset :: "allocator \<Rightarrow> bool list \<Rightarrow> Buffer \<Rightarrow> Buffer" where
  "WriteBitset nw bs b = Write nw (bitset_bytes bs) b"

section \<open>Addresses on the wire\<close>

text \<open>
  An address is its family, its host bytes in network order and its port in host
  order; a Unix path is the family the buffer cannot write.
\<close>

datatype InetAddress =
  InetAddressIPv4 bytes u16 | InetAddressIPv6 bytes u16 | InetAddressUnix string

definition SwapPortByteOrder :: "u16 \<Rightarrow> u16" where
  "SwapPortByteOrder port =
     (case GetSystemEndianness of
        BigEndian \<Rightarrow> port
      | LittleEndian \<Rightarrow> push_bit 8 port OR drop_bit 8 port)"

definition WriteInetAddress :: "allocator \<Rightarrow> InetAddress \<Rightarrow> Buffer \<Rightarrow> Buffer" where
  "WriteInetAddress nw address b =
     (case address of
        InetAddressIPv4 ip port \<Rightarrow>
          (let b1 = WriteInt nw (4 :: u8) b;
               raw_port = SwapPortByteOrder port;
               b2 = Write nw (take 4 ip) b1
           in Write nw (mem_image raw_port) b2)
      | InetAddressIPv6 ip port \<Rightarrow>
          (let b1 = WriteInt nw (6 :: u8) b;
               raw_port = SwapPortByteOrder port;
               b2 = Write nw (take 16 ip) b1
           in Write nw (mem_image raw_port) b2)
      | InetAddressUnix _ \<Rightarrow> WriteInt nw (0 :: u8) b)"

definition ReadInetAddress :: "Buffer \<Rightarrow> InetAddress option \<times> Buffer" where
  "ReadInetAddress b =
     (let (ver, b1) = ReadInt b
      in if ver = (4 :: u8) then
           let (r1, b2) = Read 4 1 b1;
               raw_ip = (case r1 of None \<Rightarrow> replicate 4 0 | Some bs \<Rightarrow> bs);
               (r2, b3) = Read 2 1 b2;
               raw_port = (case r2 of None \<Rightarrow> 0 | Some bs \<Rightarrow> of_mem_image bs)
           in (Some (InetAddressIPv4 raw_ip (SwapPortByteOrder raw_port)), b3)
         else if ver = 6 then
           let (r1, b2) = Read 1 16 b1;
               ip6 = (case r1 of None \<Rightarrow> replicate 16 0 | Some bs \<Rightarrow> bs);
               (r2, b3) = Read 2 1 b2;
               raw_port = (case r2 of None \<Rightarrow> 0 | Some bs \<Rightarrow> of_mem_image bs)
           in (Some (InetAddressIPv6 ip6 (SwapPortByteOrder raw_port)), b3)
         else (None, set_error CorruptedFormat b1))"

section \<open>The allocator\<close>

text \<open>
  What the buffer relies on of \<open>new (std::nothrow) char[n]\<close>: an array it returns
  has the size asked for; a total allocator never runs out below \<open>2 ^ 63\<close> bytes.
\<close>

locale allocator =
  fixes nw :: "nat \<Rightarrow> bytes option"
  assumes new_length: "nw n = Some d \<Longrightarrow> length d = n"

locale total_allocator = allocator +
  assumes new_total: "n < 2 ^ 63 \<Longrightarrow> nw n \<noteq> None"

definition default_new :: allocator where
  "default_new n = Some (replicate n 0)"

interpretation heap: total_allocator default_new
  by unfold_locales (auto simp: default_new_def)

section \<open>Well-formedness\<close>

definition buf_wf :: "Buffer \<Rightarrow> bool" where
  "buf_wf b \<longleftrightarrow> (case buf_data b of
     None \<Rightarrow> buf_allocated_size b = 0
   | Some d \<Rightarrow> length d = buf_allocated_size b \<and> buf_write_cursor b \<le> buf_allocated_size b)"

text \<open>
  A buffer in the middle of its use: the cursors are in order, the bytes between
  them exist, and nothing is anywhere near the width of \<open>size_t\<close>.
\<close>

definition stream_ok :: "Buffer \<Rightarrow> bool" where
  "stream_ok b \<longleftrightarrow> buf_wf b \<and> buf_read_cursor b \<le> min (buf_write_cursor b) (buf_read_limit b)
     \<and> buf_write_cursor b < 2 ^ 62 \<and> (buf_data b = None \<longrightarrow> readable_bytes b = 0)"

text \<open>Room to append \<open>n\<close> bytes: no read limit is set and the size stays in range.\<close>

definition room :: "Buffer \<Rightarrow> nat \<Rightarrow> bool" where
  "room b n \<longleftrightarrow> stream_ok b \<and> buf_read_limit b = size_max \<and> buf_write_cursor b + n < 2 ^ 61"

definition contents :: "Buffer \<Rightarrow> bytes" where
  "contents b = take (readable_bytes b) (read_cursor_data b)"

lemmas buf_field_defs = readable_bytes_def read_cursor_data_def set_error_def SkipRead_def
  CommitWrite_def SetReadLimit_def set_read_cursor_def set_write_cursor_def poke_def

lemma room_stream_ok: "room b n \<Longrightarrow> stream_ok b"
  by (simp add: room_def)

lemma room_mono: "room b n \<Longrightarrow> m \<le> n \<Longrightarrow> room b m"
  by (simp add: room_def)

lemma room_write_cursor: "room b n \<Longrightarrow> buf_write_cursor b + n < 2 ^ 61"
  by (simp add: room_def)

lemma stream_ok_new [simp]: "stream_ok (Buffer_new e)"
  by (simp add: stream_ok_def Buffer_new_def buf_wf_def readable_bytes_def)

lemma contents_new [simp]: "contents (Buffer_new e) = []"
  by (simp add: contents_def Buffer_new_def readable_bytes_def)

lemma room_new: "n < 2 ^ 61 \<Longrightarrow> room (Buffer_new e) n"
  by (simp add: room_def) (simp add: Buffer_new_def)

lemma endianness_new [simp]: "buf_endianness (Buffer_new e) = e"
  by (simp add: Buffer_new_def)

subsection \<open>Reading stays inside the allocation\<close>

lemma readable_bytes_eq:
  "readable_bytes b = min (buf_write_cursor b) (buf_read_limit b) - buf_read_cursor b"
  by (simp add: readable_bytes_def Let_def)

lemma length_contents: "stream_ok b \<Longrightarrow> length (contents b) = readable_bytes b"
  by (auto simp: stream_ok_def buf_wf_def contents_def read_cursor_data_def readable_bytes_eq
      split: option.splits)

lemma CheckReadableBytes_iff:
  assumes "stream_ok b" and "n < 2 ^ 63"
  shows "CheckReadableBytes n b \<longleftrightarrow> n \<le> length (contents b)"
proof -
  have "buf_read_cursor b + n < 2 ^ 64" using assms by (simp add: stream_ok_def)
  with assms show ?thesis
    by (simp add: CheckReadableBytes_def length_contents readable_bytes_eq stream_ok_def)
       linarith
qed

lemma CheckReadableBytes_in_bounds:
  assumes "stream_ok b" and "n < 2 ^ 63" and "0 < n" and "CheckReadableBytes n b"
  obtains d where "buf_data b = Some d" and "buf_read_cursor b + n \<le> length d"
proof -
  have n: "n \<le> readable_bytes b"
    using assms CheckReadableBytes_iff length_contents by simp
  with assms obtain d where d: "buf_data b = Some d"
    by (auto simp: stream_ok_def)
  from d n assms(1,3) have "buf_read_cursor b + n \<le> length d"
    by (simp add: stream_ok_def buf_wf_def readable_bytes_eq) linarith
  with d show thesis by (rule that)
qed

lemma take_contents:
  "stream_ok b \<Longrightarrow> n \<le> length (contents b) \<Longrightarrow> take n (read_cursor_data b) = take n (contents b)"
  by (simp add: contents_def)

lemma SkipRead_cursor:
  assumes "stream_ok b" and "n \<le> length (contents b)"
  shows "buf_read_cursor (SkipRead n b) = buf_read_cursor b + n"
    and "readable_bytes (SkipRead n b) = readable_bytes b - n"
    and "buf_read_cursor b + n \<le> min (buf_write_cursor b) (buf_read_limit b)"
proof -
  have n: "n \<le> readable_bytes b" using assms by (simp add: length_contents)
  with assms(1) show le: "buf_read_cursor b + n \<le> min (buf_write_cursor b) (buf_read_limit b)"
    by (simp add: readable_bytes_eq stream_ok_def) linarith
  with assms(1) have "buf_read_cursor b + n < 2 ^ 64" by (simp add: stream_ok_def)
  then show "buf_read_cursor (SkipRead n b) = buf_read_cursor b + n"
    and "readable_bytes (SkipRead n b) = readable_bytes b - n"
    by (simp_all add: SkipRead_def readable_bytes_eq)
qed

lemma stream_ok_SkipRead:
  assumes "stream_ok b" and "n \<le> length (contents b)"
  shows "stream_ok (SkipRead n b)"
proof -
  have "buf_wf (SkipRead n b)"
    using assms(1) by (simp add: stream_ok_def buf_wf_def SkipRead_def split: option.splits)
  moreover have "buf_data (SkipRead n b) = buf_data b"
    and "buf_write_cursor (SkipRead n b) = buf_write_cursor b"
    and "buf_read_limit (SkipRead n b) = buf_read_limit b"
    by (simp_all add: SkipRead_def)
  ultimately show ?thesis
    using assms SkipRead_cursor [OF assms] by (simp add: stream_ok_def)
qed

lemma contents_SkipRead:
  assumes "stream_ok b" and "n \<le> length (contents b)"
  shows "contents (SkipRead n b) = drop n (contents b)"
proof -
  have "buf_data (SkipRead n b) = buf_data b" by (simp add: SkipRead_def)
  then have "read_cursor_data (SkipRead n b) = drop n (read_cursor_data b)"
    using SkipRead_cursor(1) [OF assms]
    by (simp add: read_cursor_data_def add.commute split: option.splits)
  with SkipRead_cursor(2) [OF assms] show ?thesis by (simp add: contents_def drop_take)
qed

lemma SkipRead_frame [simp]:
  "buf_endianness (SkipRead n b) = buf_endianness b"
  "buf_write_cursor (SkipRead n b) = buf_write_cursor b"
  "buf_read_limit (SkipRead n b) = buf_read_limit b"
  "buf_last_error (SkipRead n b) = buf_last_error b"
  by (simp_all add: SkipRead_def)

lemmas stream_read = stream_ok_SkipRead contents_SkipRead CheckReadableBytes_iff take_contents

end
