(* ===== verification/Buffer_Stream.thy ===== *)
theory Buffer_Stream
  imports Znet_Buffer "HOL-Library.Sublist"
begin

text \<open>
  The buffer as a stream of fields. \<open>emits e g bs\<close> says that the writer \<open>g\<close> appends
  exactly \<open>bs\<close> to the readable bytes of every buffer of byte order \<open>e\<close> with room for
  them, \<open>parses e f v bs\<close> that the reader \<open>f\<close> takes exactly \<open>bs\<close> from the front of
  the readable bytes and returns \<open>v\<close>; neither touches the error flag. The locale
  \<open>field_codec\<close> is the contract of a writer/reader pair: its lemmas give the round
  trip of one field, of a field inside a longer stream and of a list of fields. It is
  interpreted on the integer, variable-length integer, string, bitset and address
  operations of the buffer, and on the wire structures of the other theories.
\<close>

section \<open>Appending\<close>

definition appended :: "Buffer \<Rightarrow> Buffer \<Rightarrow> bytes \<Rightarrow> bool" where
  "appended b b' bs \<longleftrightarrow> stream_ok b' \<and> contents b' = contents b @ bs
     \<and> buf_endianness b' = buf_endianness b \<and> buf_read_limit b' = buf_read_limit b
     \<and> buf_last_error b' = buf_last_error b
     \<and> buf_write_cursor b' = buf_write_cursor b + length bs
     \<and> buf_read_cursor b' = buf_read_cursor b"

definition emits :: "Endianness \<Rightarrow> (Buffer \<Rightarrow> Buffer) \<Rightarrow> bytes \<Rightarrow> bool" where
  "emits e g bs \<longleftrightarrow>
     (\<forall>b. buf_endianness b = e \<longrightarrow> room b (length bs) \<longrightarrow> appended b (g b) bs)"

lemma emitsI:
  "(\<And>b. buf_endianness b = e \<Longrightarrow> room b (length bs) \<Longrightarrow> appended b (g b) bs) \<Longrightarrow> emits e g bs"
  by (simp add: emits_def)

lemma emitsD:
  "emits e g bs \<Longrightarrow> buf_endianness b = e \<Longrightarrow> room b (length bs) \<Longrightarrow> appended b (g b) bs"
  by (simp add: emits_def)

lemma appended_room:
  "appended b b' bs \<Longrightarrow> room b (length bs + n) \<Longrightarrow> room b' n"
  by (simp add: appended_def room_def)

lemma appended_trans:
  "appended b b1 xs \<Longrightarrow> appended b1 b2 ys \<Longrightarrow> appended b b2 (xs @ ys)"
  by (simp add: appended_def)

lemma appended_refl: "stream_ok b \<Longrightarrow> appended b b []"
  by (simp add: appended_def)

lemma appended_endianness: "appended b b' bs \<Longrightarrow> buf_endianness b' = buf_endianness b"
  by (simp add: appended_def)

lemma emits_comp:
  assumes "emits e g xs" and "emits e h ys"
  shows "emits e (\<lambda>b. h (g b)) (xs @ ys)"
proof (rule emitsI)
  fix b assume b: "buf_endianness b = e" "room b (length (xs @ ys))"
  then have "appended b (g b) xs"
    using emitsD [OF assms(1)] room_mono by simp
  moreover from this b have "appended (g b) (h (g b)) ys"
    using emitsD [OF assms(2)] appended_room [of b "g b" xs "length ys"]
    by (simp add: appended_endianness)
  ultimately show "appended b (h (g b)) (xs @ ys)" by (rule appended_trans)
qed

lemma emits_let: "emits e g xs \<Longrightarrow> emits e h ys \<Longrightarrow> emits e (\<lambda>b. let b1 = g b in h b1) (xs @ ys)"
  using emits_comp by simp

lemma emits_id: "emits e (\<lambda>b. b) []"
  by (rule emitsI) (simp add: appended_refl room_def)

lemma emits_cong_bytes: "emits e g xs \<Longrightarrow> xs = ys \<Longrightarrow> emits e g ys"
  by simp

lemma emits_foldl:
  assumes "\<And>x. x \<in> set xs \<Longrightarrow> emits e (f x) (enc x)"
  shows "emits e (\<lambda>b. foldl (\<lambda>b x. f x b) b xs) (concat (map enc xs))"
  using assms
proof (induction xs)
  case Nil
  then show ?case by (simp add: emits_id)
next
  case (Cons x xs)
  have "emits e (f x) (enc x)" using Cons.prems by simp
  moreover have "emits e (\<lambda>b. foldl (\<lambda>b x. f x b) b xs) (concat (map enc xs))"
    using Cons by simp
  ultimately show ?case using emits_comp by fastforce
qed

lemma emits_new:
  assumes "emits e g bs" and "length bs < 2 ^ 61"
  shows "contents (g (Buffer_new e)) = bs" and "stream_ok (g (Buffer_new e))"
    and "buf_endianness (g (Buffer_new e)) = e"
    and "buf_last_error (g (Buffer_new e)) = NoBufferError"
  using emitsD [OF assms(1), of "Buffer_new e"] assms(2)
  by (simp_all add: appended_def room_new) (simp add: Buffer_new_def)

section \<open>Consuming\<close>

definition consumed :: "Buffer \<Rightarrow> Buffer \<Rightarrow> nat \<Rightarrow> bool" where
  "consumed b b' n \<longleftrightarrow> stream_ok b' \<and> contents b' = drop n (contents b)
     \<and> buf_endianness b' = buf_endianness b \<and> buf_last_error b' = buf_last_error b
     \<and> buf_read_limit b' = buf_read_limit b"

definition parses :: "Endianness \<Rightarrow> (Buffer \<Rightarrow> 'a \<times> Buffer) \<Rightarrow> 'a \<Rightarrow> bytes \<Rightarrow> bool" where
  "parses e f v bs \<longleftrightarrow>
     (\<forall>b rest. buf_endianness b = e \<longrightarrow> stream_ok b \<longrightarrow> contents b = bs @ rest \<longrightarrow>
        fst (f b) = v \<and> consumed b (snd (f b)) (length bs))"

lemma parsesI:
  "(\<And>b rest. buf_endianness b = e \<Longrightarrow> stream_ok b \<Longrightarrow> contents b = bs @ rest \<Longrightarrow>
     fst (f b) = v \<and> consumed b (snd (f b)) (length bs)) \<Longrightarrow> parses e f v bs"
  by (simp add: parses_def)

lemma parsesE:
  assumes "parses e f v bs" and "buf_endianness b = e" and "stream_ok b" and "contents b = bs @ rest"
  obtains b' where "f b = (v, b')" and "buf_endianness b' = e" and "stream_ok b'"
    and "contents b' = rest" and "buf_last_error b' = buf_last_error b"
    and "consumed b b' (length bs)"
proof -
  have "fst (f b) = v" and "consumed b (snd (f b)) (length bs)"
    using assms unfolding parses_def by blast+
  then show thesis
    using assms that [of "snd (f b)"] by (cases "f b") (simp add: consumed_def)
qed

lemma consumed_SkipRead:
  "stream_ok b \<Longrightarrow> n \<le> length (contents b) \<Longrightarrow> consumed b (SkipRead n b) n"
  by (simp add: consumed_def stream_read)

lemma consumed_trans:
  "consumed b b1 m \<Longrightarrow> consumed b1 b2 n \<Longrightarrow> consumed b b2 (m + n)"
  by (simp add: consumed_def add.commute)

lemma parses_bind:
  assumes "parses e f v xs" and "parses e (g v) w ys"
  shows "parses e (\<lambda>b. let (x, b1) = f b in g x b1) w (xs @ ys)"
proof (rule parsesI)
  fix b rest
  assume b: "buf_endianness b = e" "stream_ok b" "contents b = (xs @ ys) @ rest"
  from b obtain b1 where 1: "f b = (v, b1)" "buf_endianness b1 = e" "stream_ok b1"
      "contents b1 = ys @ rest" "consumed b b1 (length xs)"
    using parsesE [OF assms(1), of b "ys @ rest"] by auto
  then obtain b2 where 2: "g v b1 = (w, b2)" "consumed b1 b2 (length ys)"
    using parsesE [OF assms(2), of b1 rest] by auto
  show "fst (let (x, b1) = f b in g x b1) = w
      \<and> consumed b (snd (let (x, b1) = f b in g x b1)) (length (xs @ ys))"
    using 1 2 consumed_trans by simp
qed

lemma parses_ret: "parses e (\<lambda>b. (v, b)) v []"
  by (rule parsesI) (simp add: consumed_def)

lemma parses_read_n_map:
  assumes "\<And>x. x \<in> set xs \<Longrightarrow> parses e f (val x) (enc x)"
  shows "parses e (read_n (length xs) f) (map val xs) (concat (map enc xs))"
  using assms
proof (induction xs)
  case Nil
  then show ?case by (simp add: parses_ret)
next
  case (Cons x xs)
  let ?g = "\<lambda>x b. let (xs, b2) = read_n (length xs) f b in (x # xs, b2)"
  have "parses e (read_n (length xs) f) (map val xs) (concat (map enc xs))" using Cons by simp
  then have "parses e (?g (val x)) (map val (x # xs)) (concat (map enc xs) @ [])"
    by (rule parses_bind) (simp add: parses_ret)
  then show ?case
    using parses_bind [of e f "val x" "enc x" ?g] Cons.prems by simp
qed

lemmas parses_read_n = parses_read_n_map [where val = "\<lambda>x. x", unfolded list.map_ident]

section \<open>The primitive writers\<close>

lemma contents_full:
  "stream_ok b \<Longrightarrow> buf_read_limit b = size_max \<Longrightarrow> buf_data b = Some d
     \<Longrightarrow> contents b = drop (buf_read_cursor b) (take (buf_write_cursor b) d)"
  by (simp add: contents_def readable_bytes_eq read_cursor_data_def stream_ok_def size_max_def
      drop_take min_def)

lemma appended_poke:
  assumes "stream_ok b" and "buf_read_limit b = size_max" and "buf_data b = Some d"
    and "buf_write_cursor b + length bs \<le> length d"
    and "buf_write_cursor b + length bs < 2 ^ 62"
  shows "appended b (CommitWrite (length bs) (poke (buf_write_cursor b) bs b)) bs"
    (is "appended b ?b bs")
proof -
  let ?wc = "buf_write_cursor b"
  have wc: "?wc \<le> length d" "buf_read_cursor b \<le> ?wc" "length d = buf_allocated_size b"
    using assms(1,3) by (auto simp: stream_ok_def buf_wf_def)
  have b: "buf_data ?b = Some (overlay d ?wc bs)" "buf_write_cursor ?b = ?wc + length bs"
    "buf_read_cursor ?b = buf_read_cursor b" "buf_read_limit ?b = size_max"
    "buf_allocated_size ?b = buf_allocated_size b" "buf_endianness ?b = buf_endianness b"
    "buf_last_error ?b = buf_last_error b"
    using assms by (simp_all add: CommitWrite_def poke_def)
  have ok: "stream_ok ?b"
    using assms wc by (simp add: stream_ok_def buf_wf_def b)
  have "contents ?b = drop (buf_read_cursor b) (take (?wc + length bs) (overlay d ?wc bs))"
    using contents_full [OF ok] b by simp
  also have "\<dots> = contents b @ bs"
    using contents_full [OF assms(1-3)] wc by (simp add: take_overlay_end)
  finally show ?thesis using ok b assms(2) by (simp add: appended_def)
qed

context total_allocator
begin

lemma new_obtain:
  assumes "n < 2 ^ 63"
  obtains d where "nw n = Some d" and "length d = n"
  using new_total [OF assms] new_length by (cases "nw n") auto

lemma ReserveIncremental_ok:
  assumes "stream_ok b" and "buf_read_limit b = size_max" and "buf_write_cursor b + n < 2 ^ 62"
  obtains b1 d where "ReserveIncremental nw n b = (True, b1)" and "appended b b1 []"
    and "buf_data b1 = Some d" and "buf_write_cursor b1 + n \<le> length d"
proof -
  let ?sz = "buf_write_cursor b + n"
  have sz: "sz_add (buf_write_cursor b) n = ?sz" "grow_target ?sz = max 64 (2 * ?sz)"
    using assms(3) by (simp_all add: grow_target_def)
  have "grow_target ?sz < 2 ^ 63" using assms(3) sz(2) by simp
  then obtain d where d: "nw (grow_target ?sz) = Some d" "length d = grow_target ?sz"
    by (rule new_obtain)
  have len: "?sz \<le> length d" "length d = max 64 (2 * ?sz)" using d sz by simp_all
  show thesis
  proof (cases "buf_data b")
    case None
    let ?b = "b\<lparr>buf_data := Some d, buf_allocated_size := grow_target ?sz\<rparr>"
    have "ReserveIncremental nw n b = (True, ?b)"
      using None d by (simp add: ReserveIncremental_def Reserve_def sz(1))
    moreover have "appended b ?b []"
      using None assms len d
      by (simp add: appended_def stream_ok_def buf_wf_def contents_def readable_bytes_eq)
    ultimately show thesis using that [of ?b d] len by simp
  next
    case (Some old)
    show thesis
    proof (cases "?sz \<le> buf_allocated_size b")
      case True
      then show thesis using Some assms that [of b old]
        by (simp add: ReserveIncremental_def Reserve_def sz(1) appended_refl stream_ok_def buf_wf_def)
    next
      case False
      let ?d = "overlay d 0 (take (buf_write_cursor b) old)"
      let ?b = "b\<lparr>buf_data := Some ?d, buf_allocated_size := grow_target ?sz\<rparr>"
      have old: "buf_write_cursor b \<le> length old" "buf_read_cursor b \<le> buf_write_cursor b"
        using Some assms(1) by (simp_all add: stream_ok_def buf_wf_def)
      have l: "length ?d = grow_target ?sz" using len d old by simp
      have ok: "stream_ok ?b" using assms l len d by (simp add: stream_ok_def buf_wf_def readable_bytes_eq)
      have "contents ?b = contents b"
        using contents_full [OF assms(1,2) Some] contents_full [OF ok] old assms(2)
        by (simp add: overlay_def)
      then have "appended b ?b []" using ok by (simp add: appended_def)
      moreover have "ReserveIncremental nw n b = (True, ?b)"
        using Some False d by (simp add: ReserveIncremental_def Reserve_def sz(1) Let_def)
      ultimately show thesis using that [of ?b ?d] l len d by simp
    qed
  qed
qed

lemma reserve_poke:
  assumes "room b (length bs)"
  obtains b1 where "ReserveIncremental nw (length bs) b = (True, b1)"
    and "buf_endianness b1 = buf_endianness b"
    and "appended b (CommitWrite (length bs) (poke (buf_write_cursor b1) bs b1)) bs"
proof -
  have b: "stream_ok b" "buf_read_limit b = size_max" "buf_write_cursor b + length bs < 2 ^ 62"
    using assms by (simp_all add: room_def)
  obtain b1 d where 1: "ReserveIncremental nw (length bs) b = (True, b1)" "appended b b1 []"
      "buf_data b1 = Some d" "buf_write_cursor b1 + length bs \<le> length d"
    by (rule ReserveIncremental_ok [OF b])
  have "appended b1 (CommitWrite (length bs) (poke (buf_write_cursor b1) bs b1)) bs"
    using 1 b by (intro appended_poke) (simp_all add: appended_def)
  with 1 show thesis using that [of b1] appended_trans [of b b1 "[]"] by (simp add: appended_def)
qed

lemma emits_Write: "emits e (Write nw bs) bs"
proof (rule emitsI)
  fix b assume "room b (length bs)"
  then obtain b1 where "ReserveIncremental nw (length bs) b = (True, b1)"
    "appended b (CommitWrite (length bs) (poke (buf_write_cursor b1) bs b1)) bs"
    by (rule reserve_poke)
  then show "appended b (Write nw bs b) bs" by (simp add: Write_def)
qed

end

definition wire_order :: "Endianness \<Rightarrow> bytes \<Rightarrow> bytes" where
  "wire_order e bs = (if GetSystemEndianness = e then bs else rev bs)"

lemma length_wire_order [simp]: "length (wire_order e bs) = length bs"
  by (simp add: wire_order_def)

lemma wire_order_involution [simp]: "wire_order e (wire_order e bs) = bs"
  by (simp add: wire_order_def)

lemma wire_order_single [simp]: "wire_order e [x] = [x]"
  by (simp add: wire_order_def)

lemma to_wire_order_eq: "to_wire_order b = wire_order (buf_endianness b)"
  by (rule ext) (simp add: to_wire_order_def wire_order_def)

definition enc_int :: "Endianness \<Rightarrow> 'a::len word \<Rightarrow> bytes" where
  "enc_int e w = wire_order e (mem_image w)"

context total_allocator
begin

lemma emits_WriteNumber: "emits e (WriteNumber nw pt) (wire_order e pt)"
proof (rule emitsI)
  fix b assume b: "buf_endianness b = e" "room b (length (wire_order e pt))"
  obtain b1 where "ReserveIncremental nw (length (wire_order e pt)) b = (True, b1)"
    "buf_endianness b1 = buf_endianness b"
    "appended b (CommitWrite (length (wire_order e pt))
        (poke (buf_write_cursor b1) (wire_order e pt) b1)) (wire_order e pt)"
    by (rule reserve_poke [OF b(2)])
  with b show "appended b (WriteNumber nw pt b) (wire_order e pt)"
    by (simp add: WriteNumber_def to_wire_order_eq)
qed

lemma emits_WriteInt: "emits e (WriteInt nw w) (enc_int e w)"
  using emits_WriteNumber [of e "mem_image w"]
  by (simp add: emits_def WriteInt_def enc_int_def)

end

section \<open>Integers\<close>

definition whole_bytes :: "'a::len word itself \<Rightarrow> bool" where
  "whole_bytes _ \<longleftrightarrow> 8 dvd LENGTH('a) \<and> LENGTH('a) \<le> 64"

lemma whole_bytes_simps [simp]:
  "whole_bytes TYPE(8 word)" "whole_bytes TYPE(16 word)"
  "whole_bytes TYPE(32 word)" "whole_bytes TYPE(64 word)"
  by (simp_all add: whole_bytes_def)

lemma length_mem_image [simp]: "length (mem_image (w :: 'a::len word)) = LENGTH('a) div 8"
  by (simp add: mem_image_def GetSystemEndianness_def)

lemma length_enc_int [simp]: "length (enc_int e (w :: 'a::len word)) = LENGTH('a) div 8"
  by (simp add: enc_int_def)

lemma power_256: "8 dvd n \<Longrightarrow> (256::nat) ^ (n div 8) = 2 ^ n"
  by (elim dvdE) (simp add: power_mult)

lemma of_mem_image_mem_image [simp]:
  assumes "whole_bytes TYPE('a::len word)"
  shows "of_mem_image (mem_image (w :: 'a word)) = w"
proof -
  have "unat w < 2 ^ LENGTH('a)" by (rule unsigned_less)
  then show ?thesis
    using assms by (simp add: of_mem_image_def mem_image_def GetSystemEndianness_def
        whole_bytes_def power_256)
qed

lemma parses_ReadNumber:
  assumes "length bs < 2 ^ 63"
  shows "parses e (ReadNumber (length bs)) (wire_order e bs) bs"
proof (rule parsesI)
  fix b rest assume b: "buf_endianness b = e" "stream_ok b" "contents b = bs @ rest"
  then have "CheckReadableBytes (length bs) b" "take (length bs) (read_cursor_data b) = bs"
    "consumed b (SkipRead (length bs) b) (length bs)"
    using assms by (simp_all add: CheckReadableBytes_iff take_contents consumed_SkipRead)
  then show "fst (ReadNumber (length bs) b) = wire_order e bs
      \<and> consumed b (snd (ReadNumber (length bs) b)) (length bs)"
    using b by (simp add: ReadNumber_def to_wire_order_eq)
qed

lemma parses_ReadInt:
  assumes "whole_bytes TYPE('a::len word)"
  shows "parses e ReadInt (w :: 'a word) (enc_int e w)"
proof -
  have "LENGTH('a) div 8 \<le> 8"
    using assms div_le_mono [of "LENGTH('a)" 64 8] by (simp add: whole_bytes_def)
  then have "length (enc_int e w) < 2 ^ 63" by (simp add: less_le_trans)
  from parses_ReadNumber [OF this, of e]
  have "parses e (ReadNumber (LENGTH('a) div 8)) (mem_image w) (enc_int e w)"
    by (simp add: enc_int_def)
  from parses_bind [OF this, of "\<lambda>m b. (of_mem_image m, b)" w "[]"]
  show ?thesis using assms by (simp add: ReadInt_def [abs_def] parses_ret)
qed

section \<open>Variable-length integers\<close>

lemma varint_size_Nil [simp]: "varint_size [] = 0"
  by (simp add: varint_size_def)

lemma varint_size_snoc [simp]:
  "varint_size (xs @ [x]) = (if x \<noteq> 0 then Suc (length xs) else varint_size xs)"
  by (simp add: varint_size_def enumerate_append_eq)

lemma varint_size_le: "varint_size raw \<le> length raw"
  by (induction raw rule: rev_induct) auto

lemma varint_pad:
  "take (varint_size raw) raw @ replicate (length raw - varint_size raw) 0 = raw"
proof (induction raw rule: rev_induct)
  case Nil
  then show ?case by simp
next
  case (snoc x xs)
  have "replicate (Suc (length xs) - varint_size xs) 0
      = replicate (length xs - varint_size xs) 0 @ [0 :: byte]"
    using varint_size_le [of xs] by (simp add: replicate_append_same Suc_diff_le)
  with snoc varint_size_le [of xs] show ?case
    by (simp flip: append_assoc)
qed

definition enc_varint :: "Endianness \<Rightarrow> 'a::len word \<Rightarrow> bytes" where
  "enc_varint e w =
     (let raw = mem_image w; n = varint_size raw
      in (word_of_nat n :: u8) # wire_order e (take n raw))"

lemma length_enc_varint:
  "length (enc_varint e (w :: 'a::len word)) = Suc (varint_size (mem_image w))"
  using varint_size_le [of "mem_image w"] by (simp add: enc_varint_def Let_def)

lemma length_enc_varint_le: "length (enc_varint e (w :: 'a::len word)) \<le> Suc (LENGTH('a) div 8)"
  using varint_size_le [of "mem_image w"] by (simp add: length_enc_varint)

lemma mem_image_byte [simp]: "mem_image (w :: u8) = [w]"
  by (simp add: mem_image_def GetSystemEndianness_def unat_byte_less)

lemma enc_int_byte [simp]: "enc_int e (w :: u8) = [w]"
  by (simp add: enc_int_def)

lemma ReserveIncremental_noop:
  assumes "buf_data b = Some d" and "buf_wf b" and "buf_write_cursor b + n \<le> length d"
    and "buf_write_cursor b + n < 2 ^ 64"
  shows "ReserveIncremental nw n b = (True, b)"
  using assms by (simp add: ReserveIncremental_def Reserve_def buf_wf_def)

lemma WriteInt_byte_in_place:
  assumes "buf_data b = Some d" and "buf_wf b" and "buf_write_cursor b + 1 \<le> length d"
    and "buf_write_cursor b + 1 < 2 ^ 64"
  shows "WriteInt nw (x :: u8) b = CommitWrite 1 (poke (buf_write_cursor b) [x] b)"
  using ReserveIncremental_noop [OF assms]
  by (simp add: WriteInt_def WriteNumber_def to_wire_order_eq)

context total_allocator
begin

lemma emits_WriteVarInt: "emits e (WriteVarInt nw w) (enc_varint e w)"
proof (rule emitsI)
  fix b assume e: "buf_endianness b = e" and r: "room b (length (enc_varint e w))"
  let ?raw = "mem_image w"
  let ?n = "varint_size ?raw"
  let ?x = "word_of_nat ?n :: u8"
  let ?t = "wire_order e (take ?n ?raw)"
  have t: "length ?t = ?n" using varint_size_le [of ?raw] by simp
  have b: "stream_ok b" "buf_read_limit b = size_max" "buf_write_cursor b + (?n + 1) < 2 ^ 62"
    using r by (simp_all add: room_def length_enc_varint)
  obtain b1 d where 1: "ReserveIncremental nw (?n + 1) b = (True, b1)" "appended b b1 []"
      "buf_data b1 = Some d" "buf_write_cursor b1 + (?n + 1) \<le> length d"
    by (rule ReserveIncremental_ok [OF b])
  let ?b2 = "CommitWrite 1 (poke (buf_write_cursor b1) [?x] b1)"
  have b1: "stream_ok b1" "buf_read_limit b1 = size_max" "buf_wf b1"
      "buf_write_cursor b1 + (?n + 1) < 2 ^ 62"
    using 1(2) b by (simp_all add: appended_def stream_ok_def)
  then have 2: "appended b1 ?b2 [?x]"
    using appended_poke [of b1 d "[?x]"] 1(3,4) by simp
  have "buf_write_cursor b1 + 1 \<le> length d" using 1(4) by linarith
  then have w: "WriteInt nw ?x b1 = ?b2"
    using 1(3,4) b1(3,4) by (intro WriteInt_byte_in_place [where d = d]) simp_all
  have d2: "buf_data ?b2 = Some (overlay d (buf_write_cursor b1) [?x])"
    using 1 by (simp add: CommitWrite_def poke_def)
  have 3: "appended ?b2 (CommitWrite (length ?t) (poke (buf_write_cursor ?b2) ?t ?b2)) ?t"
    using 2 b1 1(4) t by (intro appended_poke [OF _ _ d2]) (simp_all add: appended_def)
  have "WriteVarInt nw w b = CommitWrite ?n (poke (buf_write_cursor ?b2) (to_wire_order ?b2 (take ?n ?raw)) ?b2)"
    by (simp only: WriteVarInt_def Let_def 1(1) w split if_False simp_thms)
  moreover have "buf_endianness ?b2 = e"
    using 1(2) 2 e by (simp add: appended_def)
  moreover have "appended b (CommitWrite ?n (poke (buf_write_cursor ?b2) ?t ?b2)) ([] @ [?x] @ ?t)"
    using appended_trans [OF 1(2) appended_trans [OF 2 3]] t by simp
  ultimately show "appended b (WriteVarInt nw w b) (enc_varint e w)"
    by (simp add: enc_varint_def Let_def to_wire_order_eq)
qed

end

lemma parses_ReadVarInt:
  assumes "whole_bytes TYPE('a::len word)"
  shows "parses e ReadVarInt (w :: 'a word) (enc_varint e w)"
proof (rule parsesI)
  fix b rest assume b: "buf_endianness b = e" "stream_ok b" "contents b = enc_varint e w @ rest"
  let ?raw = "mem_image w"
  let ?n = "varint_size ?raw"
  let ?t = "wire_order e (take ?n ?raw)"
  have k: "LENGTH('a) div 8 \<le> 8"
    using assms div_le_mono [of "LENGTH('a)" 64 8] by (simp add: whole_bytes_def)
  have n: "?n \<le> LENGTH('a) div 8" using varint_size_le [of ?raw] by simp
  then have t: "length ?t = ?n" by simp
  have un: "unat (word_of_nat ?n :: u8) = ?n"
    using n k by (intro unat_of_nat_small) simp
  have c: "contents b = enc_int e (word_of_nat ?n :: u8) @ ?t @ rest"
    using b(3) by (simp add: enc_varint_def Let_def)
  obtain b1 where 1: "ReadInt b = (word_of_nat ?n :: u8, b1)" "buf_endianness b1 = e"
      "stream_ok b1" "contents b1 = ?t @ rest" "consumed b b1 1"
    by (rule parsesE [OF parses_ReadInt [where w = "word_of_nat ?n :: u8" and e = e] b(1,2) c])
      simp_all
  have "CheckReadableBytes 1 b"
    using b(2) c by (simp add: CheckReadableBytes_iff)
  moreover have "CheckReadableBytes ?n b1" "take ?n (read_cursor_data b1) = ?t"
    and sk: "consumed b1 (SkipRead ?n b1) ?n"
    using 1 t n k by (simp_all add: CheckReadableBytes_iff take_contents consumed_SkipRead)
  moreover have "take ?n ?raw @ replicate (LENGTH('a) div 8 - ?n) 0 = ?raw"
    using varint_pad [of ?raw] by simp
  ultimately have "ReadVarInt b = (w, SkipRead ?n b1)"
    using n 1 assms by (simp add: ReadVarInt_def un to_wire_order_eq)
  then show "fst (ReadVarInt b) = w
      \<and> consumed b (snd (ReadVarInt b :: 'a word \<times> Buffer)) (length (enc_varint e w))"
    using consumed_trans [OF 1(5) sk] by (simp add: length_enc_varint)
qed

section \<open>Strings, vectors and arrays\<close>

definition enc_count :: "Endianness \<Rightarrow> nat \<Rightarrow> bytes" where
  "enc_count e n = enc_varint e (word_of_nat n :: u64)"

lemma length_enc_count_le: "length (enc_count e n) \<le> 9"
  using length_enc_varint_le [of e "word_of_nat n :: u64"] by (simp add: enc_count_def)

definition enc_string :: "Endianness \<Rightarrow> bytes \<Rightarrow> bytes" where
  "enc_string e str = enc_count e (length str) @ str"

definition enc_vector :: "Endianness \<Rightarrow> ('a \<Rightarrow> bytes) \<Rightarrow> 'a list \<Rightarrow> bytes" where
  "enc_vector e enc xs = enc_count e (length xs) @ concat (map enc xs)"

lemma concat_singletons: "concat (map (\<lambda>x. [x]) xs) = xs"
  by (induction xs) auto

context total_allocator
begin

lemma emits_WriteVector:
  assumes "\<And>x. x \<in> set xs \<Longrightarrow> emits e (value_func x) (enc x)"
  shows "emits e (WriteVector nw xs value_func) (enc_vector e enc xs)"
  using emits_comp [OF emits_WriteVarInt emits_foldl [OF assms]]
  by (simp add: WriteVector_def [abs_def] enc_vector_def enc_count_def)

lemma emits_WriteString: "emits e (WriteString nw str) (enc_string e str)"
proof (rule emitsI)
  fix b assume b: "buf_endianness b = e" "room b (length (enc_string e str))"
  let ?w = "\<lambda>b. foldl (\<lambda>b c. WriteInt nw c b) (WriteVarInt nw (word_of_nat (length str) :: u64) b) str"
  have "buf_write_cursor b + (length str + 8) < 2 ^ 62" "stream_ok b" "buf_read_limit b = size_max"
    using b(2) by (simp_all add: room_def enc_string_def)
  then obtain b1 d where 1: "ReserveIncremental nw (length str + 8) b = (True, b1)" "appended b b1 []"
    by (meson ReserveIncremental_ok)
  have "emits e (WriteInt nw c) [c]" for c :: u8
    using emits_WriteInt [of e c] by simp
  then have "emits e ?w (enc_string e str)"
    using emits_comp [OF emits_WriteVarInt emits_foldl [of str e "WriteInt nw" "\<lambda>x. [x]"]]
    by (simp add: concat_singletons enc_string_def enc_count_def)
  moreover have "room b1 (length (enc_string e str))" "buf_endianness b1 = e"
    using 1(2) b by (simp_all add: appended_def room_def)
  ultimately have "appended b1 (?w b1) (enc_string e str)" by (intro emitsD)
  then show "appended b (WriteString nw str b) (enc_string e str)"
    using appended_trans [OF 1(2)] 1(1) by (simp add: WriteString_def Let_def)
qed

end

lemma CheckReadCount_ok:
  assumes "stream_ok b" and "n \<le> m" and "n * k \<le> length (contents b)" and "0 < k"
  shows "CheckReadCount n m k b = (True, b)"
  using assms by (simp add: CheckReadCount_def length_contents less_eq_div_iff_mult_less_eq not_less)

lemma parses_count:
  "n < 2 ^ 64 \<Longrightarrow> parses e (\<lambda>b. let (n, b1) = ReadVarInt b in (unat (n :: u64), b1)) n (enc_count e n)"
  using parses_bind [OF parses_ReadVarInt [where w = "word_of_nat n :: u64" and e = e],
      of "\<lambda>n b. (unat n, b)" n "[]"]
  by (simp add: enc_count_def parses_ret unat_of_nat_small)

lemma parses_counted:
  assumes "n \<le> m" and "m < 2 ^ 64" and "0 < k" and "n * k \<le> length bs"
    and "parses e f v bs" and "\<And>b. F b = (let (n, b1) = ReadVarInt b; sz = unat (n :: u64);
          (ok, b2) = CheckReadCount sz m k b1 in if \<not> ok then bad b2 else body sz b2)"
    and "\<And>b. body n b = f b"
  shows "parses e F v (enc_count e n @ bs)"
proof (rule parsesI)
  fix b rest assume b: "buf_endianness b = e" "stream_ok b" "contents b = (enc_count e n @ bs) @ rest"
  have "n < 2 ^ 64" using assms by simp
  from parsesE [OF parses_count [OF this, of e] b(1,2), of "bs @ rest"] b(3)
  obtain b1 where 1: "ReadVarInt b = (word_of_nat n :: u64, b1)" "buf_endianness b1 = e"
      "stream_ok b1" "contents b1 = bs @ rest" "consumed b b1 (length (enc_count e n))"
    by (fastforce split: prod.splits)
  have "CheckReadCount n m k b1 = (True, b1)"
    using 1 assms by (intro CheckReadCount_ok) simp_all
  then have F: "F b = f b1" using assms(6,7) 1 \<open>n < 2 ^ 64\<close> by (simp add: unat_of_nat_small)
  obtain b2 where 2: "f b1 = (v, b2)" "consumed b1 b2 (length bs)"
    by (rule parsesE [OF assms(5) 1(2-4)])
  show "fst (F b) = v \<and> consumed b (snd (F b)) (length (enc_count e n @ bs))"
    using F 2 consumed_trans [OF 1(5) 2(2)] by simp
qed

lemma parses_take:
  "length bs < 2 ^ 63 \<Longrightarrow> parses e (\<lambda>b. (take (length bs) (read_cursor_data b), SkipRead (length bs) b)) bs bs"
  by (rule parsesI) (simp add: take_contents consumed_SkipRead)

lemma parses_ReadString:
  assumes "length str \<le> ZNET_MAX_READ_STRING_LENGTH"
  shows "parses e ReadString str (enc_string e str)"
  unfolding enc_string_def
  by (rule parses_counted [OF assms, where k = 1 and bs = str,
        OF _ _ _ parses_take ReadString_def])
    (use assms in \<open>simp_all add: ZNET_MAX_READ_STRING_LENGTH_def\<close>)

lemma length_concat_ge:
  "(\<And>x. x \<in> set xs \<Longrightarrow> k \<le> length (enc x)) \<Longrightarrow> length xs * k \<le> length (concat (map enc xs))"
  by (induction xs) (auto intro: add_mono)

lemma parses_ReadVector:
  assumes "length xs \<le> ZNET_MAX_READ_ELEMENTS"
    and "\<And>x. x \<in> set xs \<Longrightarrow> parses e get x (enc x)" and "\<And>x. x \<in> set xs \<Longrightarrow> enc x \<noteq> []"
  shows "parses e (ReadVector get) xs (enc_vector e enc xs)"
proof -
  have "length xs * 1 \<le> length (concat (map enc xs))"
    using assms(3) by (intro length_concat_ge) (simp add: Suc_le_eq)
  then show ?thesis
    unfolding enc_vector_def
    by (intro parses_counted [OF assms(1), where k = 1, OF _ _ _ parses_read_n ReadVector_def])
      (use assms in \<open>simp_all add: ZNET_MAX_READ_ELEMENTS_def\<close>)
qed

section \<open>Raw blocks and bitsets\<close>

lemma parses_Read:
  assumes "k * n = length bs" and "length bs < 2 ^ 62" and "0 < k"
  shows "parses e (Read k n) (Some bs) bs"
proof (rule parsesI)
  fix b rest assume b: "stream_ok b" "contents b = bs @ rest"
  have "n * k \<le> size_max" using assms by (simp add: mult.commute size_max_def)
  then have "n \<le> size_max div k" using assms(3) by (simp add: less_eq_div_iff_mult_less_eq)
  then show "fst (Read k n b) = Some bs \<and> consumed b (snd (Read k n b)) (length bs)"
    using assms b by (simp add: Read_def CheckReadableBytes_iff take_contents consumed_SkipRead)
qed

lemma set_bit_at:
  assumes "i < 8 * length data" and "j < 8 * length data"
  shows "bit_at (set_bit_at data i) j \<longleftrightarrow> bit_at data j \<or> i = j"
proof -
  have "i div 8 < length data" "j div 8 < length data" using assms by simp_all
  moreover have "i = j \<longleftrightarrow> i div 8 = j div 8 \<and> i mod 8 = j mod 8"
    by (metis div_mult_mod_eq)
  ultimately show "bit_at (set_bit_at data i) j \<longleftrightarrow> bit_at data j \<or> i = j"
    by (auto simp: bit_at_def set_bit_at_def nth_list_update bit_simps)
qed

lemma length_set_bit_at [simp]: "length (set_bit_at data i) = length data"
  by (simp add: set_bit_at_def)

lemma bitset_fold:
  assumes "n \<le> length bs" and "n \<le> 8 * k"
  shows "length (foldl (\<lambda>data i. if bs ! i then set_bit_at data i else data)
            (replicate k 0) [0..<n]) = k
    \<and> (\<forall>j < 8 * k. bit_at (foldl (\<lambda>data i. if bs ! i then set_bit_at data i else data)
            (replicate k 0) [0..<n]) j \<longleftrightarrow> j < n \<and> bs ! j)"
  using assms
proof (induction n)
  case 0
  then show ?case by (simp add: bit_at_def)
next
  case (Suc n)
  then show ?case by (auto simp: set_bit_at less_Suc_eq)
qed

lemma length_bitset_bytes [simp]: "length (bitset_bytes bs) = (length bs + 7) div 8"
  using bitset_fold [of "length bs" bs "(length bs + 7) div 8"] by (simp add: bitset_bytes_def)

lemma bit_at_bitset_bytes: "i < length bs \<Longrightarrow> bit_at (bitset_bytes bs) i \<longleftrightarrow> bs ! i"
  using bitset_fold [of "length bs" bs "(length bs + 7) div 8"] by (simp add: bitset_bytes_def)

lemma bits_of_bitset_bytes: "map (bit_at (bitset_bytes bs)) [0..<length bs] = bs"
  by (rule nth_equalityI) (simp_all add: bit_at_bitset_bytes)

lemma parses_ReadBitset:
  assumes "length bs < 2 ^ 61"
  shows "parses e (ReadBitset (length bs)) bs (bitset_bytes bs)"
proof -
  have "parses e (Read 1 ((length bs + 7) div 8)) (Some (bitset_bytes bs)) (bitset_bytes bs)"
    using assms by (intro parses_Read) simp_all
  from parses_bind [OF this, of "\<lambda>r b. (map (bit_at (case r of None \<Rightarrow>
        replicate ((length bs + 7) div 8) 0 | Some bs \<Rightarrow> bs)) [0..<length bs], b)" bs "[]"]
  show ?thesis
    by (simp add: ReadBitset_def [abs_def] Let_def bits_of_bitset_bytes parses_ret)
qed

section \<open>Addresses\<close>

definition inet_ok :: "InetAddress \<Rightarrow> bool" where
  "inet_ok a = (case a of InetAddressIPv4 ip _ \<Rightarrow> length ip = 4
     | InetAddressIPv6 ip _ \<Rightarrow> length ip = 16 | InetAddressUnix _ \<Rightarrow> False)"

definition enc_inet :: "InetAddress \<Rightarrow> bytes" where
  "enc_inet a = (case a of
     InetAddressIPv4 ip port \<Rightarrow> 4 # ip @ mem_image (SwapPortByteOrder port)
   | InetAddressIPv6 ip port \<Rightarrow> 6 # ip @ mem_image (SwapPortByteOrder port)
   | InetAddressUnix _ \<Rightarrow> [0])"

lemma SwapPortByteOrder_involution [simp]: "SwapPortByteOrder (SwapPortByteOrder p) = p"
  by (rule bit_word_eqI)
    (auto simp: SwapPortByteOrder_def GetSystemEndianness_def bit_simps)

context total_allocator
begin

lemma emits_WriteInetAddress:
  assumes "inet_ok a"
  shows "emits e (WriteInetAddress nw a) (enc_inet a)"
proof -
  have "emits e (\<lambda>b. Write nw (mem_image p) (Write nw ip (WriteInt nw v b))) (v # ip @ mem_image p)"
    for v :: u8 and ip and p :: u16
    using emits_comp [OF emits_comp [OF emits_WriteInt [of e v] emits_Write] emits_Write] by simp
  with assms show ?thesis
    by (cases a) (simp_all add: inet_ok_def enc_inet_def WriteInetAddress_def [abs_def])
qed

end

lemma parses_ReadInetAddress:
  assumes "inet_ok a"
  shows "parses e ReadInetAddress (Some a) (enc_inet a)"
proof (rule parsesI)
  fix b rest assume b: "buf_endianness b = e" "stream_ok b" "contents b = enc_inet a @ rest"
  have port: "parses e (Read 2 1) (Some (mem_image p)) (mem_image p)" for p :: u16
    by (rule parses_Read) simp_all
  obtain v ip p where a: "enc_inet a = enc_int e (v :: u8) @ ip @ mem_image (SwapPortByteOrder p)"
    and va: "(v = 4 \<and> length ip = 4 \<and> a = InetAddressIPv4 ip p)
      \<or> (v = 6 \<and> length ip = 16 \<and> a = InetAddressIPv6 ip p)"
    using assms by (cases a) (fastforce simp: inet_ok_def enc_inet_def)+
  have c: "contents b = enc_int e v @ ip @ mem_image (SwapPortByteOrder p) @ rest"
    using b(3) a by simp
  obtain b1 where 1: "ReadInt b = (v, b1)" "buf_endianness b1 = e" "stream_ok b1"
      "contents b1 = ip @ mem_image (SwapPortByteOrder p) @ rest" "consumed b b1 1"
    by (rule parsesE [OF parses_ReadInt [where w = v and e = e] b(1,2) c]) simp_all
  define k n where "k = (if v = 4 then 4 else 1 :: nat)" and "n = (if v = 4 then 1 else 16 :: nat)"
  have "parses e (Read k n) (Some ip) ip"
    using va by (intro parses_Read) (auto simp: k_def n_def)
  from parsesE [OF this 1(2-4)] obtain b2 where 2: "Read k n b1 = (Some ip, b2)"
      "buf_endianness b2 = e" "stream_ok b2" "contents b2 = mem_image (SwapPortByteOrder p) @ rest"
      "consumed b1 b2 (length ip)" by auto
  from parsesE [OF port 2(2-4)] obtain b3 where 3: "Read 2 1 b2 = (Some (mem_image (SwapPortByteOrder p)), b3)"
      "consumed b2 b3 2" by auto
  have "ReadInetAddress b = (Some a, b3)"
    using 1(1) 2(1) 3(1) va by (auto simp: ReadInetAddress_def k_def n_def)
  moreover have "consumed b b3 (length (enc_inet a))"
    using consumed_trans [OF consumed_trans [OF 1(5) 2(5)] 3(2)] a by simp
  ultimately show "fst (ReadInetAddress b) = Some a
      \<and> consumed b (snd (ReadInetAddress b)) (length (enc_inet a))" by simp
qed

section \<open>The contract of a field\<close>

locale field_codec =
  fixes e :: Endianness
    and put :: "'a \<Rightarrow> Buffer \<Rightarrow> Buffer"
    and get :: "Buffer \<Rightarrow> 'b \<times> Buffer"
    and val :: "'a \<Rightarrow> 'b"
    and enc :: "'a \<Rightarrow> bytes"
    and ok :: "'a \<Rightarrow> bool"
  assumes put_emits: "ok x \<Longrightarrow> emits e (put x) (enc x)"
    and get_parses: "ok x \<Longrightarrow> parses e get (val x) (enc x)"
begin

lemma get_after_put:
  assumes "ok x" and "buf_endianness b = e" and "contents b = []" and "room b (length (enc x))"
  shows "\<exists>b'. get (put x b) = (val x, b') \<and> stream_ok b' \<and> contents b' = []
    \<and> buf_last_error b' = buf_last_error b"
proof -
  have "appended b (put x b) (enc x)"
    using put_emits [OF assms(1)] assms(2,4) by (rule emitsD)
  then have p: "buf_endianness (put x b) = e" "stream_ok (put x b)" "contents (put x b) = enc x @ []"
    "buf_last_error (put x b) = buf_last_error b"
    using assms(2,3) by (simp_all add: appended_def)
  show ?thesis
    by (rule parsesE [OF get_parses [OF assms(1)] p(1-3)]) (use p(4) in auto)
qed

lemma get_list_after_puts:
  assumes "\<And>x. x \<in> set xs \<Longrightarrow> ok x" and "length (concat (map enc xs)) < 2 ^ 61"
  shows "\<exists>b'. read_n (length xs) get (foldl (\<lambda>b x. put x b) (Buffer_new e) xs) = (map val xs, b')
    \<and> contents b' = [] \<and> buf_last_error b' = NoBufferError"
proof -
  have "emits e (\<lambda>b. foldl (\<lambda>b x. put x b) b xs) (concat (map enc xs))"
    using assms(1) by (intro emits_foldl put_emits)
  note w = emits_new [OF this assms(2)]
  have "parses e (read_n (length xs) get) (map val xs) (concat (map enc xs))"
    using assms(1) by (intro parses_read_n_map get_parses)
  from parsesE [OF this w(3,2), of "[]"] show ?thesis using w(1,4) by auto
qed

end

context total_allocator
begin

lemma int_codec:
  "whole_bytes TYPE('b::len word) \<Longrightarrow>
     field_codec e (WriteInt nw :: 'b word \<Rightarrow> _) ReadInt (\<lambda>w. w) (enc_int e) (\<lambda>_. True)"
  by unfold_locales (auto intro: emits_WriteInt parses_ReadInt)

lemma varint_codec:
  "whole_bytes TYPE('b::len word) \<Longrightarrow>
     field_codec e (WriteVarInt nw :: 'b word \<Rightarrow> _) ReadVarInt (\<lambda>w. w) (enc_varint e) (\<lambda>_. True)"
  by unfold_locales (auto intro: emits_WriteVarInt parses_ReadVarInt)

lemma string_codec:
  "field_codec e (WriteString nw) ReadString (\<lambda>s. s) (enc_string e)
     (\<lambda>s. length s \<le> ZNET_MAX_READ_STRING_LENGTH)"
  by unfold_locales (auto intro: emits_WriteString parses_ReadString)

lemma bitset_codec:
  "N < 2 ^ 61 \<Longrightarrow>
     field_codec e (WriteBitset nw) (ReadBitset N) (\<lambda>s. s) bitset_bytes (\<lambda>s. length s = N)"
  by unfold_locales
    (auto intro: parses_ReadBitset simp: WriteBitset_def [abs_def] emits_Write)

lemma inet_codec:
  "field_codec e (WriteInetAddress nw) ReadInetAddress Some enc_inet inet_ok"
  by unfold_locales (auto intro: emits_WriteInetAddress parses_ReadInetAddress)

lemma vector_codec:
  assumes "field_codec e put get (\<lambda>x. x) enc ok" and "\<And>x. ok x \<Longrightarrow> enc x \<noteq> []"
  shows "field_codec e (\<lambda>xs. WriteVector nw xs put) (ReadVector get) (\<lambda>xs. xs) (enc_vector e enc)
     (\<lambda>xs. length xs \<le> ZNET_MAX_READ_ELEMENTS \<and> (\<forall>x\<in>set xs. ok x))"
proof
  note c = field_codec.put_emits [OF assms(1)] field_codec.get_parses [OF assms(1)]
  show "emits e (WriteVector nw xs put) (enc_vector e enc xs)"
    if "length xs \<le> ZNET_MAX_READ_ELEMENTS \<and> (\<forall>x\<in>set xs. ok x)" for xs
    using that c by (intro emits_WriteVector) auto
  show "parses e (ReadVector get) xs (enc_vector e enc xs)"
    if "length xs \<le> ZNET_MAX_READ_ELEMENTS \<and> (\<forall>x\<in>set xs. ok x)" for xs
    using that c assms(2) by (intro parses_ReadVector) auto
qed

end

interpretation u8_field: field_codec e "WriteInt default_new" ReadInt "\<lambda>w :: u8. w" "enc_int e" "\<lambda>_. True" for e
  by (rule heap.int_codec) simp

interpretation u16_field: field_codec e "WriteInt default_new" ReadInt "\<lambda>w :: u16. w" "enc_int e" "\<lambda>_. True" for e
  by (rule heap.int_codec) simp

interpretation u32_field: field_codec e "WriteInt default_new" ReadInt "\<lambda>w :: u32. w" "enc_int e" "\<lambda>_. True" for e
  by (rule heap.int_codec) simp

interpretation u64_field: field_codec e "WriteInt default_new" ReadInt "\<lambda>w :: u64. w" "enc_int e" "\<lambda>_. True" for e
  by (rule heap.int_codec) simp

interpretation string_field: field_codec e "WriteString default_new" ReadString "\<lambda>s. s" "enc_string e"
  "\<lambda>s. length s \<le> ZNET_MAX_READ_STRING_LENGTH" for e
  by (rule heap.string_codec)

interpretation inet_field: field_codec e "WriteInetAddress default_new" ReadInetAddress Some enc_inet
  inet_ok for e
  by (rule heap.inet_codec)

section \<open>Readers on arbitrary input\<close>

text \<open>
  A reader is safe when, whatever bytes the buffer holds, it leaves a well-formed
  buffer over the same allocation whose readable bytes are a suffix of what they were.
\<close>

definition safe_reader :: "(Buffer \<Rightarrow> 'a \<times> Buffer) \<Rightarrow> bool" where
  "safe_reader f \<longleftrightarrow> (\<forall>b. stream_ok b \<longrightarrow> stream_ok (snd (f b)) \<and> buf_data (snd (f b)) = buf_data b
     \<and> suffix (contents (snd (f b))) (contents b))"

lemma safe_readerI:
  "(\<And>b. stream_ok b \<Longrightarrow> stream_ok (snd (f b)) \<and> buf_data (snd (f b)) = buf_data b
     \<and> suffix (contents (snd (f b))) (contents b)) \<Longrightarrow> safe_reader f"
  by (simp add: safe_reader_def)

lemma safe_readerD:
  "safe_reader f \<Longrightarrow> stream_ok b \<Longrightarrow> stream_ok (snd (f b)) \<and> buf_data (snd (f b)) = buf_data b
     \<and> suffix (contents (snd (f b))) (contents b)"
  by (simp add: safe_reader_def)

lemma safe_bind:
  assumes "safe_reader f" and "\<And>x. safe_reader (g x)"
  shows "safe_reader (\<lambda>b. let (x, b1) = f b in g x b1)"
proof (rule safe_readerI)
  fix b assume "stream_ok b"
  with safe_readerD [OF assms(1)] safe_readerD [OF assms(2)]
  show "stream_ok (snd (let (x, b1) = f b in g x b1))
      \<and> buf_data (snd (let (x, b1) = f b in g x b1)) = buf_data b
      \<and> suffix (contents (snd (let (x, b1) = f b in g x b1))) (contents b)"
    by (cases "f b") (metis (no_types, lifting) case_prod_conv snd_conv suffix_order.order_trans)
qed

lemma set_error_stream [simp]:
  "stream_ok (set_error x b) = stream_ok b" "contents (set_error x b) = contents b"
  "buf_data (set_error x b) = buf_data b"
  by (simp_all add: set_error_def stream_ok_def buf_wf_def contents_def readable_bytes_eq
      read_cursor_data_def split: option.splits)

lemma safe_ret: "safe_reader (\<lambda>b. (v, b))" "safe_reader (\<lambda>b. (v, set_error x b))"
  by (rule safe_readerI; simp)+

lemma safe_skip: "n \<le> length (contents b) \<Longrightarrow> stream_ok b \<Longrightarrow>
    stream_ok (SkipRead n b) \<and> buf_data (SkipRead n b) = buf_data b
      \<and> suffix (contents (SkipRead n b)) (contents b)"
  by (simp add: stream_read suffix_drop) (simp add: SkipRead_def)

lemma safe_ReadNumber: "k < 2 ^ 63 \<Longrightarrow> safe_reader (ReadNumber k)"
  by (rule safe_readerI)
    (auto simp: ReadNumber_def CheckReadableBytes_iff dest: safe_skip)

lemma safe_ReadInt: "safe_reader (ReadInt :: Buffer \<Rightarrow> 'a::len word \<times> Buffer)"
  if "whole_bytes TYPE('a word)"
proof -
  have "LENGTH('a) div 8 \<le> 8"
    using that div_le_mono [of "LENGTH('a)" 64 8] by (simp add: whole_bytes_def)
  then have "safe_reader (ReadNumber (LENGTH('a) div 8))"
    by (intro safe_ReadNumber) simp
  then show ?thesis
    unfolding ReadInt_def [abs_def] by (rule safe_bind) (rule safe_ret)
qed

lemma safe_Read: "safe_reader (Read k n)" if "k * n < 2 ^ 63"
  using that by (intro safe_readerI)
    (auto simp: Read_def Let_def CheckReadableBytes_iff dest: safe_skip)

lemma safe_CheckReadCount: "safe_reader (CheckReadCount n m k)"
  by (rule safe_readerI) (simp add: CheckReadCount_def Let_def)

lemma CheckReadCount_readable:
  "fst (CheckReadCount n m k b) \<Longrightarrow> stream_ok b \<Longrightarrow> snd (CheckReadCount n m k b) = b
     \<and> n \<le> length (contents b) \<and> (m \<noteq> 0 \<longrightarrow> n \<le> m)"
  by (auto simp: CheckReadCount_def Let_def length_contents not_less split: if_splits
      intro: order_trans [OF _ div_le_dividend])

lemma safe_if: "safe_reader f \<Longrightarrow> safe_reader g \<Longrightarrow> safe_reader (\<lambda>b. if P b then f b else g b)"
  by (simp add: safe_reader_def)

lemma safe_let: "safe_reader (g v) \<Longrightarrow> safe_reader (\<lambda>b. let x = v in g x b)"
  by simp

lemma safe_ReadVarInt:
  assumes "whole_bytes TYPE('a::len word)"
  shows "safe_reader (ReadVarInt :: Buffer \<Rightarrow> 'a word \<times> Buffer)"
proof (rule safe_readerI)
  fix b assume b: "stream_ok b"
  have u: "unat (n :: u8) < 2 ^ 63" for n using unat_byte_less [of n] by simp
  obtain n b1 where 1: "ReadInt b = (n :: u8, b1)" by fastforce
  from safe_readerD [OF safe_ReadInt [where 'a = 8] b] 1
  have b1: "stream_ok b1" "buf_data b1 = buf_data b" "suffix (contents b1) (contents b)" by simp_all
  have c: "CheckReadableBytes (unat n) b1 \<longleftrightarrow> unat n \<le> length (contents b1)"
    by (rule CheckReadableBytes_iff [OF b1(1) u])
  show "stream_ok (snd (ReadVarInt b :: 'a word \<times> Buffer))
      \<and> buf_data (snd (ReadVarInt b :: 'a word \<times> Buffer)) = buf_data b
      \<and> suffix (contents (snd (ReadVarInt b :: 'a word \<times> Buffer))) (contents b)"
    using b b1 safe_skip [OF _ b1(1), of "unat n"]
    by (auto simp: ReadVarInt_def 1 c Let_def intro: suffix_order.order_trans)
qed

lemma safe_counted:
  assumes "\<And>b. F b = (let (n, b1) = ReadVarInt b; sz = unat (n :: u64);
          (ok, b2) = CheckReadCount sz m k b1 in if \<not> ok then (bad, b2) else body sz b2)"
    and "\<And>n b. stream_ok b \<Longrightarrow> n \<le> length (contents b) \<Longrightarrow> stream_ok (snd (body n b))
       \<and> buf_data (snd (body n b)) = buf_data b \<and> suffix (contents (snd (body n b))) (contents b)"
  shows "safe_reader F"
proof (rule safe_readerI)
  fix b assume b: "stream_ok b"
  obtain n b1 where 1: "ReadVarInt b = (n :: u64, b1)" by fastforce
  from safe_readerD [OF safe_ReadVarInt [where 'a = 64] b] 1
  have b1: "stream_ok b1" "buf_data b1 = buf_data b" "suffix (contents b1) (contents b)" by simp_all
  obtain r b2 where 2: "CheckReadCount (unat n) m k b1 = (r, b2)" by fastforce
  from safe_readerD [OF safe_CheckReadCount b1(1), of "unat n" m k] 2
  have b2: "stream_ok b2" "buf_data b2 = buf_data b" "suffix (contents b2) (contents b)"
    using b1 by (auto intro: suffix_order.order_trans)
  show "stream_ok (snd (F b)) \<and> buf_data (snd (F b)) = buf_data b \<and> suffix (contents (snd (F b))) (contents b)"
  proof (cases r)
    case True
    then have "b2 = b1" "unat n \<le> length (contents b1)"
      using CheckReadCount_readable [of "unat n" m k b1] 2 b1 by auto
    with True show ?thesis using assms(2) [of b1 "unat n"] b1
      by (auto simp: assms(1) 1 2 intro: suffix_order.order_trans)
  qed (use b2 in \<open>simp add: assms(1) 1 2\<close>)
qed

lemma safe_read_n: "safe_reader f \<Longrightarrow> safe_reader (read_n n f)"
proof (induction n)
  case 0
  then show ?case by (simp add: safe_reader_def)
next
  case (Suc n)
  then show ?case
    using safe_bind [OF Suc.prems, of "\<lambda>x b. let (xs, b2) = read_n n f b in (x # xs, b2)"]
      safe_bind [OF Suc.IH [OF Suc.prems], of "\<lambda>xs b. (x # xs, b)" for x] safe_ret
    by fastforce
qed

lemma safe_ReadString: "safe_reader ReadString"
  by (rule safe_counted [OF ReadString_def]) (simp, rule safe_skip)

lemma safe_ReadVector: "safe_reader f \<Longrightarrow> safe_reader (ReadVector f)"
  by (rule safe_counted [OF ReadVector_def]) (rule safe_readerD [OF safe_read_n])

lemma safe_ReadBitset: "safe_reader (ReadBitset N)" if "N < 2 ^ 62"
  using safe_bind [OF safe_Read [of 1 "(N + 7) div 8"], of "\<lambda>r b. (map (bit_at (case r of None \<Rightarrow>
        replicate ((N + 7) div 8) 0 | Some bs \<Rightarrow> bs)) [0..<N], b)"] that
  by (simp add: ReadBitset_def [abs_def] Let_def safe_ret)

lemma safe_ReadInetAddress: "safe_reader ReadInetAddress"
proof -
  have s: "safe_reader (Read 4 1)" "safe_reader (Read 2 1)" "safe_reader (Read 1 16)"
    by (simp_all add: safe_Read)
  show ?thesis
    unfolding ReadInetAddress_def [abs_def]
    by (intro safe_bind safe_let safe_if safe_ret s safe_ReadInt) simp
qed

section \<open>Properties of the buffer\<close>

lemma length_concat_le:
  "(\<And>x. x \<in> set xs \<Longrightarrow> length (enc x) \<le> k) \<Longrightarrow> length (concat (map enc xs)) \<le> length xs * k"
  by (induction xs) (auto intro: add_mono)

lemma length_enc_strings:
  assumes "length xs \<le> ZNET_MAX_READ_ELEMENTS" and "\<forall>x\<in>set xs. length x \<le> ZNET_MAX_READ_STRING_LENGTH"
  shows "length (enc_vector e (enc_string e) xs) < 2 ^ 61"
proof -
  have "length (enc_string e x) \<le> 65545" if "x \<in> set xs" for x
    using assms(2) that length_enc_count_le [of e "length x"]
    by (fastforce simp: enc_string_def ZNET_MAX_READ_STRING_LENGTH_def)
  then have "length (concat (map (enc_string e) xs)) \<le> length xs * 65545"
    by (rule length_concat_le)
  also have "\<dots> \<le> 65536 * 65545"
    using assms(1) by (simp add: ZNET_MAX_READ_ELEMENTS_def)
  finally show ?thesis
    using length_enc_count_le [of e "length xs"] by (simp add: enc_vector_def)
qed

lemma last_error_new [simp]: "buf_last_error (Buffer_new e) = NoBufferError"
  by (simp add: Buffer_new_def)


text \<open>
  C12. A variable-length integer of any width of whole bytes, written to an empty buffer of either
  byte order, is read back unchanged, leaves nothing behind and raises no error.
\<close>

theorem varint_round_trip:
  assumes "total_allocator nw" and "whole_bytes TYPE('a::len word)"
  shows "\<exists>b'. ReadVarInt (WriteVarInt nw w (Buffer_new e)) = (w :: 'a word, b')
     \<and> readable_bytes b' = 0 \<and> buf_last_error b' = NoBufferError"
proof -
  have "LENGTH('a) div 8 \<le> 8"
    using assms(2) div_le_mono [of "LENGTH('a)" 64 8] by (simp add: whole_bytes_def)
  then have "length (enc_varint e w) < 2 ^ 61"
    using length_enc_varint_le [of e w] by simp
  from field_codec.get_after_put [OF total_allocator.varint_codec [OF assms], where x = w and b = "Buffer_new e"]
    room_new [OF this, of e] show ?thesis by (auto simp flip: length_contents)
qed

theorem varint_round_trip_witness:
  "\<exists>b'. ReadVarInt (WriteVarInt default_new (0x0123 :: u32) (Buffer_new BigEndian)) = (0x0123 :: u32, b')
     \<and> readable_bytes b' = 0 \<and> buf_last_error b' = NoBufferError"
  by (rule varint_round_trip) (simp_all add: heap.total_allocator_axioms)

text \<open>
  A vector of strings within the read limits (at most \<open>ZNET_MAX_READ_ELEMENTS\<close> strings of at
  most \<open>ZNET_MAX_READ_STRING_LENGTH\<close> bytes each), written to an empty buffer, is read back
  unchanged, leaves nothing behind and raises no error.
\<close>

lemma string_vector_round_trip:
  assumes "total_allocator nw" and "length xs \<le> ZNET_MAX_READ_ELEMENTS"
    and "\<forall>x\<in>set xs. length x \<le> ZNET_MAX_READ_STRING_LENGTH"
  shows "\<exists>b'. ReadVector ReadString (WriteVector nw xs (WriteString nw) (Buffer_new e)) = (xs, b')
     \<and> readable_bytes b' = 0 \<and> buf_last_error b' = NoBufferError"
proof -
  have ne: "enc_string e x \<noteq> []" for x
    by (simp add: enc_string_def enc_count_def enc_varint_def Let_def)
  note codec = total_allocator.vector_codec [OF assms(1) total_allocator.string_codec [OF assms(1)] ne]
  from field_codec.get_after_put [OF codec, where x = xs and b = "Buffer_new e"]
    room_new [OF length_enc_strings [OF assms(2,3), of e], of e] assms(2,3)
  show ?thesis by (auto simp flip: length_contents)
qed

text \<open>
  An IPv4 or IPv6 address with its port, written to an empty buffer of either byte order, is
  read back as the same address; the port travels in network order whatever the buffer's order.
\<close>

lemma inet_address_round_trip:
  assumes "total_allocator nw" and "inet_ok a"
  shows "\<exists>b'. ReadInetAddress (WriteInetAddress nw a (Buffer_new e)) = (Some a, b')
     \<and> readable_bytes b' = 0 \<and> buf_last_error b' = NoBufferError"
proof -
  have "length (enc_inet a) \<le> 19"
    using assms(2) by (auto simp: inet_ok_def enc_inet_def split: InetAddress.splits)
  then have "length (enc_inet a) < 2 ^ 61" by simp
  from field_codec.get_after_put [OF total_allocator.inet_codec [OF assms(1)], where x = a and b = "Buffer_new e"]
    room_new [OF this, of e] assms(2) show ?thesis by (auto simp flip: length_contents)
qed

end
