(* ===== verification/Zdt_Wire.thy ===== *)
theory Zdt_Wire
  imports Buffer_Stream
begin

text \<open>
  The wire format of the datagram transport, \<open>backends/zdt/zdt_wire.h\<close> and
  \<open>zdt_wire.cc\<close>: the datagram header with its ack blocks, the record header in front
  of each message, the offline (handshake) header, the relay channel header, the path
  messages, the return-routability cookie and the 16-bit sequence arithmetic. Readers
  take the structure they fill as an argument and return it, as the C++ out-parameters
  do; a raw pointer and a length is a byte list.
\<close>

section \<open>Constants\<close>

type_synonym WireSeq = u16
type_synonym SequenceId = u64

definition kZDTProtocolVersion :: u8 where "kZDTProtocolVersion = 5"
definition kZDTCapMigration :: u8 where "kZDTCapMigration = 1"

definition kZDTMagic :: bytes where
  "kZDTMagic = [0x5A, 0x4E, 0x45, 0x54, 0x5A, 0x44, 0x54, 0x01]"

definition kFlagFin :: u8 where "kFlagFin = 1"
definition kFlagPing :: u8 where "kFlagPing = 2"
definition kFlagPong :: u8 where "kFlagPong = 4"
definition kFlagHasCid :: u8 where "kFlagHasCid = 8"
definition kFlagOnline :: u8 where "kFlagOnline = 128"

definition kZDTRelayMarker :: u8 where "kZDTRelayMarker = 0xC0"
definition kZDTRelayHeaderSize :: nat where "kZDTRelayHeaderSize = 4"
definition kZDTMaxRelayChannel :: u32 where "kZDTMaxRelayChannel = 0xFFFFFF"

definition kRecReliable :: u8 where "kRecReliable = 1"
definition kRecOrdered :: u8 where "kRecOrdered = 2"
definition kRecFragment :: u8 where "kRecFragment = 4"

text \<open>
  \<open>ZDTOfflineMsg\<close> is an enum over \<open>uint8_t\<close>: the reader casts any byte below \<open>0x80\<close>
  to it, so it is the byte here, with the enumerators as constants.
\<close>

type_synonym ZDTOfflineMsg = u8

definition OpenConnectionRequest1 :: ZDTOfflineMsg where "OpenConnectionRequest1 = 0x01"
definition OpenConnectionReply1 :: ZDTOfflineMsg where "OpenConnectionReply1 = 0x02"
definition OpenConnectionRequest2 :: ZDTOfflineMsg where "OpenConnectionRequest2 = 0x03"
definition OpenConnectionReply2 :: ZDTOfflineMsg where "OpenConnectionReply2 = 0x04"
definition IncompatibleProtocolVersion :: ZDTOfflineMsg where "IncompatibleProtocolVersion = 0x05"
definition NoFreeConnections :: ZDTOfflineMsg where "NoFreeConnections = 0x06"
definition AlreadyConnected :: ZDTOfflineMsg where "AlreadyConnected = 0x07"
definition ConnectionBanned :: ZDTOfflineMsg where "ConnectionBanned = 0x08"
definition Punch :: ZDTOfflineMsg where "Punch = 0x09"
definition RelayBind :: ZDTOfflineMsg where "RelayBind = 0x0A"
definition RelayBound :: ZDTOfflineMsg where "RelayBound = 0x0B"
definition Reflect :: ZDTOfflineMsg where "Reflect = 0x0C"
definition Reflected :: ZDTOfflineMsg where "Reflected = 0x0D"
definition PathChallenge :: ZDTOfflineMsg where "PathChallenge = 0x0E"
definition PathResponse :: ZDTOfflineMsg where "PathResponse = 0x0F"

definition kZDTOfflineHeaderSize :: nat where "kZDTOfflineHeaderSize = 1 + length kZDTMagic"
definition kZDTReflectSize :: nat where "kZDTReflectSize = 64"
definition kZDTHeaderSize :: nat where "kZDTHeaderSize = 6"
definition kZDTCidSize :: nat where "kZDTCidSize = 8"
definition kZDTRecordHeaderSize :: nat where "kZDTRecordHeaderSize = 6"
definition kZDTFragRecordHeaderSize :: nat where "kZDTFragRecordHeaderSize = 8"
definition kZDTAckHistoryBits :: nat where "kZDTAckHistoryBits = 1024"
definition kZDTAckHistoryWords :: nat where "kZDTAckHistoryWords = kZDTAckHistoryBits div 64"
definition kZDTMaxAckBlocks :: nat where "kZDTMaxAckBlocks = 24"
definition kZDTAckBlockSize :: nat where "kZDTAckBlockSize = 2"
definition kZDTAckBlocksReserved :: nat where "kZDTAckBlocksReserved = 4"
definition kZDTHeaderReserve :: nat where
  "kZDTHeaderReserve = kZDTHeaderSize + kZDTCidSize + kZDTAckBlocksReserved * kZDTAckBlockSize"
definition kZDTMaxDatagramsInFlight :: nat where "kZDTMaxDatagramsInFlight = kZDTAckHistoryBits"
definition kZDTCookieLen :: nat where "kZDTCookieLen = 16"

lemmas zdt_sizes = kZDTHeaderSize_def kZDTCidSize_def kZDTRecordHeaderSize_def
  kZDTFragRecordHeaderSize_def kZDTMaxAckBlocks_def kZDTAckBlockSize_def
  kZDTAckBlocksReserved_def kZDTHeaderReserve_def kZDTCookieLen_def
  kZDTAckHistoryBits_def kZDTAckHistoryWords_def kZDTMaxDatagramsInFlight_def

section \<open>Structures\<close>

record ZDTAckBlock =
  num_ack :: u8
  num_nack :: u8

record ZDTHeader =
  hdr_flags :: u8
  hdr_cid :: u64
  hdr_packet_seq :: WireSeq
  hdr_ack :: WireSeq
  hdr_blocks :: "ZDTAckBlock list"
  hdr_block_count :: u8

record ZDTRecord =
  rec_flags :: u8
  rec_channel :: u8
  rec_message_seq :: WireSeq
  rec_frag_index :: u8
  rec_frag_count :: u8
  rec_length :: u16

record ZDTPathMessage =
  path_cid :: u64
  path_epoch :: u32
  path_cookie :: bytes

definition ZDTAckBlock_init :: ZDTAckBlock where
  "ZDTAckBlock_init = \<lparr>num_ack = 0, num_nack = 0\<rparr>"

definition ZDTHeader_init :: ZDTHeader where
  "ZDTHeader_init = \<lparr>hdr_flags = kFlagOnline, hdr_cid = 0, hdr_packet_seq = 0, hdr_ack = 0,
     hdr_blocks = replicate kZDTMaxAckBlocks ZDTAckBlock_init, hdr_block_count = 0\<rparr>"

definition ZDTRecord_init :: ZDTRecord where
  "ZDTRecord_init = \<lparr>rec_flags = 0, rec_channel = 0, rec_message_seq = 0, rec_frag_index = 0,
     rec_frag_count = 1, rec_length = 0\<rparr>"

definition ZDTPathMessage_init :: ZDTPathMessage where
  "ZDTPathMessage_init = \<lparr>path_cid = 0, path_epoch = 0, path_cookie = replicate kZDTCookieLen 0\<rparr>"

definition has_flag :: "u8 \<Rightarrow> u8 \<Rightarrow> bool" where
  "has_flag flags m \<longleftrightarrow> flags AND m \<noteq> 0"

section \<open>Sequence numbers\<close>

definition ReconstructSeq :: "WireSeq \<Rightarrow> SequenceId \<Rightarrow> SequenceId" where
  "ReconstructSeq truncated expected =
     (let kPeriod = push_bit 16 1 :: u64;
          candidate = (expected AND NOT (kPeriod - 1)) OR ucast truncated
      in if candidate + kPeriod div 2 < expected then candidate + kPeriod
         else if candidate \<ge> expected + kPeriod div 2 \<and> candidate \<ge> kPeriod
         then candidate - kPeriod else candidate)"

definition SeqGreater :: "u16 \<Rightarrow> u16 \<Rightarrow> bool" where
  "SeqGreater a b \<longleftrightarrow> sint (a - b) > 0"

definition SeqLess :: "u16 \<Rightarrow> u16 \<Rightarrow> bool" where
  "SeqLess a b \<longleftrightarrow> sint (a - b) < 0"

section \<open>Datagram header\<close>

definition WriteZDTHeader :: "ZDTHeader \<Rightarrow> Buffer \<Rightarrow> Buffer" where
  "WriteZDTHeader h b =
     (let b = WriteInt default_new (hdr_flags h) b;
          b = (if has_flag (hdr_flags h) kFlagHasCid then WriteInt default_new (hdr_cid h) b else b);
          b = WriteInt default_new (hdr_packet_seq h) b;
          b = WriteInt default_new (hdr_ack h) b;
          b = WriteInt default_new (hdr_block_count h) b
      in foldl (\<lambda>b i. WriteInt default_new (num_nack (hdr_blocks h ! i))
                        (WriteInt default_new (num_ack (hdr_blocks h ! i)) b))
           b [0..<unat (hdr_block_count h)])"

definition read_ack_block :: "ZDTHeader \<times> Buffer \<Rightarrow> nat \<Rightarrow> ZDTHeader \<times> Buffer" where
  "read_ack_block hb i =
     (let (h, b) = hb; (a, b) = ReadInt b; (n, b) = ReadInt b
      in (h\<lparr>hdr_blocks := (hdr_blocks h)[i := \<lparr>num_ack = a, num_nack = n\<rparr>]\<rparr>, b))"

definition ReadZDTHeader :: "ZDTHeader \<Rightarrow> Buffer \<Rightarrow> (bool \<times> ZDTHeader) \<times> Buffer" where
  "ReadZDTHeader h b =
     (if readable_bytes b < 1 then ((False, h), b)
      else let (flags, b) = ReadInt b; h = h\<lparr>hdr_flags := flags\<rparr>
      in if \<not> has_flag flags kFlagOnline then ((False, h), b)
      else let cid_size = (if has_flag flags kFlagHasCid then kZDTCidSize else 0)
      in if readable_bytes b < (kZDTHeaderSize - 1) + cid_size then ((False, h), b)
      else let (h, b) = (if cid_size \<noteq> 0
                         then (let (cid, b) = ReadInt b in (h\<lparr>hdr_cid := cid\<rparr>, b))
                         else (h, b));
               (seq, b) = ReadInt b;
               (ack, b) = ReadInt b;
               h = h\<lparr>hdr_packet_seq := seq, hdr_ack := ack\<rparr>;
               (count, b) = ReadInt b
      in if unat (count :: u8) > kZDTMaxAckBlocks
            \<or> readable_bytes b < unat count * kZDTAckBlockSize then ((False, h), b)
      else let (h, b) = foldl read_ack_block (h, b) [0..<unat count]
      in ((True, h\<lparr>hdr_block_count := count\<rparr>), b))"

section \<open>Records\<close>

definition WriteZDTRecord :: "ZDTRecord \<Rightarrow> Buffer \<Rightarrow> Buffer" where
  "WriteZDTRecord r b =
     (let b = WriteInt default_new (rec_flags r) b;
          b = WriteInt default_new (rec_channel r) b;
          b = WriteInt default_new (rec_message_seq r) b;
          b = (if has_flag (rec_flags r) kRecFragment
               then WriteInt default_new (rec_frag_count r) (WriteInt default_new (rec_frag_index r) b)
               else b)
      in WriteInt default_new (rec_length r) b)"

definition ReadZDTRecord :: "ZDTRecord \<Rightarrow> Buffer \<Rightarrow> (bool \<times> ZDTRecord) \<times> Buffer" where
  "ReadZDTRecord r b =
     (if readable_bytes b < kZDTRecordHeaderSize then ((False, r), b)
      else let (flags, b) = ReadInt b;
               (channel, b) = ReadInt b;
               (seq, b) = ReadInt b;
               r = r\<lparr>rec_flags := flags, rec_channel := channel, rec_message_seq := seq\<rparr>
      in if has_flag flags kRecFragment \<and> readable_bytes b < 4 then ((False, r), b)
      else let (r, b) = (if has_flag flags kRecFragment
                         then (let (index, b) = ReadInt b; (count, b) = ReadInt b
                               in (r\<lparr>rec_frag_index := index, rec_frag_count := count\<rparr>, b))
                         else (r\<lparr>rec_frag_index := 0, rec_frag_count := 1\<rparr>, b));
               (len, b) = ReadInt b
      in ((readable_bytes b \<ge> unat (len :: u16), r\<lparr>rec_length := len\<rparr>), b))"

definition ZDTRecordSize :: "bool \<Rightarrow> nat \<Rightarrow> nat" where
  "ZDTRecordSize fragment payload_len =
     (if fragment then kZDTFragRecordHeaderSize else kZDTRecordHeaderSize) + payload_len"

section \<open>MTU arithmetic\<close>

datatype InetProtocolVersion = IPv4 | IPv6 | Unix

definition kZDTIPv4Overhead :: u16 where "kZDTIPv4Overhead = 28"
definition kZDTIPv6Overhead :: u16 where "kZDTIPv6Overhead = 48"

definition ZDTDatagramOverhead :: "InetProtocolVersion \<Rightarrow> u16" where
  "ZDTDatagramOverhead ipv = (if ipv = IPv6 then kZDTIPv6Overhead else kZDTIPv4Overhead)"

definition ZDTPayloadForLinkMTU :: "u16 \<Rightarrow> InetProtocolVersion \<Rightarrow> u16" where
  "ZDTPayloadForLinkMTU link_mtu ipv =
     (let overhead = ZDTDatagramOverhead ipv
      in if link_mtu > overhead then link_mtu - overhead else 0)"

section \<open>Offline messages\<close>

definition WriteOfflineHeader :: "ZDTOfflineMsg \<Rightarrow> Buffer \<Rightarrow> Buffer" where
  "WriteOfflineHeader msg_id b = Write default_new kZDTMagic (WriteInt default_new msg_id b)"

definition ReadOfflineHeader :: "Buffer \<Rightarrow> ZDTOfflineMsg option \<times> Buffer" where
  "ReadOfflineHeader b =
     (if readable_bytes b < 1 + length kZDTMagic then (None, b)
      else let (msg_id, b) = ReadInt b
      in if has_flag msg_id kFlagOnline then (None, b)
      else let (r, b) = Read 1 (length kZDTMagic) b;
               magic = (case r of None \<Rightarrow> replicate (length kZDTMagic) 0 | Some bs \<Rightarrow> bs)
      in if magic \<noteq> kZDTMagic then (None, b) else (Some msg_id, b))"

definition PeekOfflineHeader :: "bytes \<Rightarrow> ZDTOfflineMsg option" where
  "PeekOfflineHeader data =
     (if length data < kZDTOfflineHeaderSize \<or> has_flag (data ! 0) kFlagOnline then None
      else if take (length kZDTMagic) (drop 1 data) \<noteq> kZDTMagic then None
      else Some (data ! 0))"

definition WritePathMessage :: "ZDTOfflineMsg \<Rightarrow> ZDTPathMessage \<Rightarrow> Buffer" where
  "WritePathMessage msg_id msg =
     (let out = Buffer_new BigEndian;
          out = WriteOfflineHeader msg_id out;
          out = WriteInt default_new (path_cid msg) out;
          out = WriteInt default_new (path_epoch msg) out
      in Write default_new (path_cookie msg) out)"

definition ReadPathMessage :: "ZDTPathMessage \<Rightarrow> Buffer \<Rightarrow> (bool \<times> ZDTPathMessage) \<times> Buffer" where
  "ReadPathMessage msg b =
     (if readable_bytes b < 8 + 4 + kZDTCookieLen then ((False, msg), b)
      else let (cid, b) = ReadInt b;
               (epoch, b) = ReadInt b;
               (r, b) = Read 1 kZDTCookieLen b;
               cookie = (case r of None \<Rightarrow> path_cookie msg | Some bs \<Rightarrow> bs)
      in ((True, msg\<lparr>path_cid := cid, path_epoch := epoch, path_cookie := cookie\<rparr>), b))"

section \<open>Raw reads\<close>

definition ReadBigEndian64 :: "bytes \<Rightarrow> u64" where
  "ReadBigEndian64 data = foldl (\<lambda>value i. push_bit 8 value OR ucast (data ! i)) 0 [0..<8]"

definition WriteRelayHeader :: "u32 \<Rightarrow> Buffer \<Rightarrow> Buffer" where
  "WriteRelayHeader channel b =
     (let b = WriteInt default_new kZDTRelayMarker b;
          b = WriteInt default_new (ucast (drop_bit 16 channel AND 0xFF) :: u8) b;
          b = WriteInt default_new (ucast (drop_bit 8 channel AND 0xFF) :: u8) b
      in WriteInt default_new (ucast (channel AND 0xFF) :: u8) b)"

definition ReadRelayHeader :: "bytes \<Rightarrow> u32 option" where
  "ReadRelayHeader data =
     (if length data < kZDTRelayHeaderSize \<or> data ! 0 \<noteq> kZDTRelayMarker then None
      else let out_channel = push_bit 16 (ucast (data ! 1)) OR push_bit 8 (ucast (data ! 2))
                               OR ucast (data ! 3)
           in if out_channel \<noteq> 0 then Some out_channel else None)"

definition PeekCid :: "bytes \<Rightarrow> u64 option" where
  "PeekCid data =
     (if length data < 1 + kZDTCidSize \<or> \<not> has_flag (data ! 0) kFlagHasCid then None
      else Some (ReadBigEndian64 (drop 1 data)))"

section \<open>The return-routability cookie\<close>

text \<open>
  \<open>hmac key message\<close> is \<open>HMAC(EVP_sha256(), ...)\<close> and \<open>crypto_memcmp\<close> is
  \<open>CRYPTO_memcmp\<close> of OpenSSL; both are parameters. The message
  is the peer's readable address, a separator and the epoch, least significant byte first.
\<close>

type_synonym ZDTCookie = bytes

definition cookie_message :: "bytes \<Rightarrow> u32 \<Rightarrow> bytes" where
  "cookie_message peer_readable epoch =
     peer_readable @ [0x7C] @ map (\<lambda>i. ucast (drop_bit (i * 8) epoch AND 0xFF)) [0..<4]"

definition ComputeCookie :: "(bytes \<Rightarrow> bytes \<Rightarrow> bytes) \<Rightarrow> bytes \<Rightarrow> bytes \<Rightarrow> u32 \<Rightarrow> ZDTCookie" where
  "ComputeCookie hmac secret peer_readable epoch =
     (let digest = hmac secret (cookie_message peer_readable epoch);
          copy = min kZDTCookieLen (length digest)
      in overlay (replicate kZDTCookieLen 0) 0 (take copy digest))"

definition ConstTimeEqual :: "(bytes \<Rightarrow> bytes \<Rightarrow> int) \<Rightarrow> ZDTCookie \<Rightarrow> ZDTCookie \<Rightarrow> bool" where
  "ConstTimeEqual crypto_memcmp a b \<longleftrightarrow> crypto_memcmp a b = 0"


section \<open>Parsers with guards\<close>

lemma parses_guard:
  assumes "parses e f v bs" and "n \<le> length bs"
  shows "parses e (\<lambda>b. if readable_bytes b < n then g b else f b) v bs"
proof (rule parsesI)
  fix b rest assume b: "buf_endianness b = e" "stream_ok b" "contents b = bs @ rest"
  then have "\<not> readable_bytes b < n" using assms(2) by (simp flip: length_contents)
  then show "fst (if readable_bytes b < n then g b else f b) = v
      \<and> consumed b (snd (if readable_bytes b < n then g b else f b)) (length bs)"
    using assms(1) b by (simp add: parses_def)
qed

lemma parses_guard_or:
  assumes "parses e f v bs" and "n \<le> length bs" and "\<not> c"
  shows "parses e (\<lambda>b. if c \<or> readable_bytes b < n then g b else f b) v bs"
  using parses_guard [OF assms(1,2)] assms(3) by simp

lemma parses_guard_and:
  assumes "parses e f v bs" and "c \<Longrightarrow> n \<le> length bs"
  shows "parses e (\<lambda>b. if c \<and> readable_bytes b < n then g b else f b) v bs"
  using parses_guard [OF assms(1)] assms by (cases c) simp_all

lemma parses_if_else: "\<not> c \<Longrightarrow> parses e f v bs \<Longrightarrow> parses e (\<lambda>b. if c then g b else f b) v bs"
  by simp

lemma parses_let: "parses e (g x) v bs \<Longrightarrow> parses e (\<lambda>b. let y = x in g y b) v bs"
  by simp

lemma parses_Pair: "parses e (Pair v) v []"
  using parses_ret [of e v] by simp

lemma parses_last: "parses e f v xs \<Longrightarrow> g v = w \<Longrightarrow> parses e (\<lambda>b. let (x, b1) = f b in (g x, b1)) w xs"
  using parses_bind [of e f v xs "\<lambda>x b. (g x, b)" w "[]"] by (simp add: parses_ret)

section \<open>Round trips of the wire structures\<close>

definition enc_block :: "ZDTAckBlock \<Rightarrow> bytes" where
  "enc_block k = [num_ack k, num_nack k]"

definition header_ok :: "ZDTHeader \<Rightarrow> bool" where
  "header_ok h \<longleftrightarrow> has_flag (hdr_flags h) kFlagOnline \<and> length (hdr_blocks h) = kZDTMaxAckBlocks
     \<and> unat (hdr_block_count h) \<le> kZDTMaxAckBlocks"

definition enc_header :: "Endianness \<Rightarrow> ZDTHeader \<Rightarrow> bytes" where
  "enc_header e h = enc_int e (hdr_flags h)
     @ (if has_flag (hdr_flags h) kFlagHasCid then enc_int e (hdr_cid h) else [])
     @ enc_int e (hdr_packet_seq h) @ enc_int e (hdr_ack h) @ enc_int e (hdr_block_count h)
     @ concat (map enc_block (take (unat (hdr_block_count h)) (hdr_blocks h)))"

text \<open>
  What a reader that starts from a fresh header sees of \<open>h\<close>: the connection id only when
  the flag announces it, and the blocks that were sent.
\<close>

definition header_on_wire :: "ZDTHeader \<Rightarrow> ZDTHeader" where
  "header_on_wire h = h\<lparr>hdr_cid := (if has_flag (hdr_flags h) kFlagHasCid then hdr_cid h else 0),
     hdr_blocks := take (unat (hdr_block_count h)) (hdr_blocks h)
       @ replicate (kZDTMaxAckBlocks - unat (hdr_block_count h)) ZDTAckBlock_init\<rparr>"

lemma block_eta: "\<lparr>num_ack = num_ack k, num_nack = num_nack k\<rparr> = k"
  by simp

lemma emits_if: "emits e g xs \<Longrightarrow> emits e (\<lambda>b. if c then g b else b) (if c then xs else [])"
  by (simp add: emits_id)

lemma emits_blocks:
  assumes "n \<le> length bl"
  shows "emits e (\<lambda>b. foldl (\<lambda>b i. WriteInt default_new (num_nack (bl ! i))
                        (WriteInt default_new (num_ack (bl ! i)) b)) b [0..<n])
     (concat (map enc_block (take n bl)))"
proof -
  have "emits e (\<lambda>b. WriteInt default_new (num_nack k) (WriteInt default_new (num_ack k) b)) (enc_block k)" for k
    using emits_comp [OF heap.emits_WriteInt [of e "num_ack k"] heap.emits_WriteInt [of e "num_nack k"]]
    by (simp add: enc_block_def)
  then have "emits e (\<lambda>b. foldl (\<lambda>b i. WriteInt default_new (num_nack (bl ! i))
                        (WriteInt default_new (num_ack (bl ! i)) b)) b [0..<n])
     (concat (map (\<lambda>i. enc_block (bl ! i)) [0..<n]))"
    by (intro emits_foldl) simp
  moreover have "map (\<lambda>i. enc_block (bl ! i)) [0..<n] = map enc_block (take n bl)"
    using assms by (intro nth_equalityI) simp_all
  ultimately show ?thesis by simp
qed

lemma emits_WriteZDTHeader:
  assumes "header_ok h"
  shows "emits e (WriteZDTHeader h) (enc_header e h)"
proof -
  have "unat (hdr_block_count h) \<le> length (hdr_blocks h)" using assms by (simp add: header_ok_def)
  then show ?thesis
    unfolding WriteZDTHeader_def [abs_def] enc_header_def
    by (intro emits_let heap.emits_WriteInt emits_if emits_blocks)
qed

lemma parses_blocks:
  assumes "n \<le> length bl" and "n \<le> length (hdr_blocks h)"
  shows "parses e (\<lambda>b. foldl read_ack_block (h, b) [0..<n])
     (h\<lparr>hdr_blocks := take n bl @ drop n (hdr_blocks h)\<rparr>) (concat (map enc_block (take n bl)))"
  using assms
proof (induction n)
  case 0
  then show ?case by (simp add: parses_ret)
next
  case (Suc n)
  let ?h = "h\<lparr>hdr_blocks := take n bl @ drop n (hdr_blocks h)\<rparr>"
  let ?h' = "h\<lparr>hdr_blocks := take (Suc n) bl @ drop (Suc n) (hdr_blocks h)\<rparr>"
  have u: "(take n bl @ drop n (hdr_blocks h))[n := bl ! n] = take (Suc n) bl @ drop (Suc n) (hdr_blocks h)"
    using Suc.prems by (simp add: list_update_append take_Suc_conv_app_nth flip: Cons_nth_drop_Suc)
  have "parses e (\<lambda>b. read_ack_block (?h, b) n) ?h'
      (enc_int e (num_ack (bl ! n)) @ enc_int e (num_nack (bl ! n)))"
    unfolding read_ack_block_def prod.case Let_def [of "(?h, _)"]
    by (rule parses_bind [OF parses_ReadInt parses_last [OF parses_ReadInt]]) (simp_all add: block_eta u del: ZDTAckBlock.surjective)
  then have "parses e (\<lambda>b. let (h, b) = foldl read_ack_block (h, b) [0..<n] in read_ack_block (h, b) n) ?h'
     (concat (map enc_block (take n bl)) @ enc_block (bl ! n))"
    using Suc unfolding enc_block_def [of "bl ! n"] by (intro parses_bind [where v = ?h]) simp_all
  then show ?case
    using Suc.prems by (simp add: take_Suc_conv_app_nth)
qed

lemma length_blocks: "n \<le> length bl \<Longrightarrow> length (concat (map enc_block (take n bl))) = 2 * n"
  by (induction bl arbitrary: n) (auto simp: enc_block_def take_Cons split: nat.splits)

lemmas parses_int = parses_bind [OF parses_ReadInt]

lemma parses_ReadZDTHeader:
  assumes "header_ok h"
  shows "parses e (ReadZDTHeader ZDTHeader_init) (True, header_on_wire h) (enc_header e h)"
proof -
  let ?n = "unat (hdr_block_count h)"
  let ?c = "has_flag (hdr_flags h) kFlagHasCid"
  let ?h1 = "ZDTHeader_init\<lparr>hdr_flags := hdr_flags h, hdr_cid := if ?c then hdr_cid h else 0\<rparr>"
  let ?h2 = "?h1\<lparr>hdr_packet_seq := hdr_packet_seq h, hdr_ack := hdr_ack h\<rparr>"
  have n: "?n \<le> length (hdr_blocks h)" "?n \<le> kZDTMaxAckBlocks" "has_flag (hdr_flags h) kFlagOnline"
    "?n \<le> length (hdr_blocks ?h2)"
    using assms by (simp_all add: header_ok_def ZDTHeader_init_def)
  note bl = parses_blocks [OF n(1,4), of e]
  have len: "length (concat (map enc_block (take ?n (hdr_blocks h)))) = 2 * ?n"
    using n by (simp add: length_blocks)
  have fin: "(True, ?h2\<lparr>hdr_blocks := take ?n (hdr_blocks h) @ drop ?n (hdr_blocks ?h2),
      hdr_block_count := hdr_block_count h\<rparr>) = (True, header_on_wire h)"
    by (simp add: header_on_wire_def ZDTHeader_init_def)
  have cid: "parses e (\<lambda>b. if (if ?c then kZDTCidSize else 0) \<noteq> 0
        then (let (cid, b) = ReadInt b in (ZDTHeader_init\<lparr>hdr_flags := hdr_flags h\<rparr>\<lparr>hdr_cid := cid\<rparr>, b))
        else (ZDTHeader_init\<lparr>hdr_flags := hdr_flags h\<rparr>, b)) ?h1 (if ?c then enc_int e (hdr_cid h) else [])"
    using parses_last [OF parses_ReadInt [where w = "hdr_cid h" and e = e],
        of "\<lambda>cid. ZDTHeader_init\<lparr>hdr_flags := hdr_flags h\<rparr>\<lparr>hdr_cid := cid\<rparr>" ?h1]
    by (simp add: parses_Pair kZDTCidSize_def ZDTHeader_init_def)
  show ?thesis
    unfolding ReadZDTHeader_def [abs_def] enc_header_def
    by (intro parses_guard parses_guard_or parses_int parses_let parses_if_else
        parses_bind [OF cid] parses_last [OF bl] parses_last [OF parses_ReadInt] fin)
      (use n len in \<open>simp_all add: zdt_sizes ZDTHeader_init_def\<close>)
qed

lemma header_codec: "field_codec e WriteZDTHeader (ReadZDTHeader ZDTHeader_init)
    (\<lambda>h. (True, header_on_wire h)) (enc_header e) header_ok"
  by unfold_locales (auto intro: emits_WriteZDTHeader parses_ReadZDTHeader)

interpretation header_field: field_codec e WriteZDTHeader "ReadZDTHeader ZDTHeader_init"
  "\<lambda>h. (True, header_on_wire h)" "enc_header e" header_ok for e
  by (rule header_codec)

lemma length_enc_header:
  "header_ok h \<Longrightarrow> length (enc_header e h) = kZDTHeaderSize
     + (if has_flag (hdr_flags h) kFlagHasCid then kZDTCidSize else 0)
     + unat (hdr_block_count h) * kZDTAckBlockSize"
  by (simp add: enc_header_def header_ok_def length_blocks zdt_sizes)

subsection \<open>Records\<close>

text \<open>
  A record is only accepted when its payload follows: its reader succeeds on the bytes of
  the record header when what remains after them is long enough.
\<close>

definition parses_when ::
  "Endianness \<Rightarrow> (bytes \<Rightarrow> bool) \<Rightarrow> (Buffer \<Rightarrow> 'a \<times> Buffer) \<Rightarrow> 'a \<Rightarrow> bytes \<Rightarrow> bool" where
  "parses_when e P f v bs \<longleftrightarrow>
     (\<forall>b rest. buf_endianness b = e \<longrightarrow> stream_ok b \<longrightarrow> contents b = bs @ rest \<longrightarrow> P rest \<longrightarrow>
        fst (f b) = v \<and> consumed b (snd (f b)) (length bs))"

lemma parses_whenE:
  assumes "parses_when e P f v bs" and "buf_endianness b = e" and "stream_ok b"
    and "contents b = bs @ rest" and "P rest"
  obtains b' where "f b = (v, b')" and "buf_endianness b' = e" and "stream_ok b'"
    and "contents b' = rest" and "consumed b b' (length bs)"
proof -
  have "fst (f b) = v" and "consumed b (snd (f b)) (length bs)"
    using assms unfolding parses_when_def by blast+
  then show thesis
    using assms that [of "snd (f b)"] by (cases "f b") (simp add: consumed_def)
qed

lemma parses_when_bind:
  assumes "parses e f v xs" and "parses_when e P (g v) w ys"
  shows "parses_when e P (\<lambda>b. let (x, b1) = f b in g x b1) w (xs @ ys)"
  unfolding parses_when_def
proof (intro allI impI)
  fix b rest
  assume b: "buf_endianness b = e" "stream_ok b" "contents b = (xs @ ys) @ rest" and P: "P rest"
  from b obtain b1 where 1: "f b = (v, b1)" "buf_endianness b1 = e" "stream_ok b1"
      "contents b1 = ys @ rest" "consumed b b1 (length xs)"
    using parsesE [OF assms(1), of b "ys @ rest"] by auto
  then obtain b2 where 2: "g v b1 = (w, b2)" "consumed b1 b2 (length ys)"
    using parses_whenE [OF assms(2), of b1 rest] P by auto
  show "fst (let (x, b1) = f b in g x b1) = w
      \<and> consumed b (snd (let (x, b1) = f b in g x b1)) (length (xs @ ys))"
    using 1 2 consumed_trans by simp
qed

lemma parses_when_guard_and:
  assumes "parses_when e P f v bs" and "c \<Longrightarrow> n \<le> length bs"
  shows "parses_when e P (\<lambda>b. if c \<and> readable_bytes b < n then g b else f b) v bs"
  unfolding parses_when_def
proof (intro allI impI)
  fix b rest assume b: "buf_endianness b = e" "stream_ok b" "contents b = bs @ rest" "P rest"
  then have "\<not> (c \<and> readable_bytes b < n)" using assms(2) by (auto simp flip: length_contents)
  then show "fst (if c \<and> readable_bytes b < n then g b else f b) = v
      \<and> consumed b (snd (if c \<and> readable_bytes b < n then g b else f b)) (length bs)"
    using assms(1) b unfolding parses_when_def by presburger
qed

lemma parses_when_guard:
  assumes "parses_when e P f v bs" and "n \<le> length bs"
  shows "parses_when e P (\<lambda>b. if readable_bytes b < n then g b else f b) v bs"
  using parses_when_guard_and [of e P f v bs True n g] assms by simp

lemma parses_when_let: "parses_when e P (g x) v bs \<Longrightarrow> parses_when e P (\<lambda>b. let y = x in g y b) v bs"
  by simp

lemma parses_when_readable:
  "parses_when e (\<lambda>rest. (n \<le> length rest) = t) (\<lambda>b. ((n \<le> readable_bytes b, r), b)) (t, r) []"
  by (auto simp: parses_when_def consumed_def length_contents)

definition enc_record :: "Endianness \<Rightarrow> ZDTRecord \<Rightarrow> bytes" where
  "enc_record e r = enc_int e (rec_flags r) @ enc_int e (rec_channel r) @ enc_int e (rec_message_seq r)
     @ (if has_flag (rec_flags r) kRecFragment
        then enc_int e (rec_frag_index r) @ enc_int e (rec_frag_count r) else [])
     @ enc_int e (rec_length r)"

definition record_on_wire :: "ZDTRecord \<Rightarrow> ZDTRecord" where
  "record_on_wire r = (if has_flag (rec_flags r) kRecFragment then r
     else r\<lparr>rec_frag_index := 0, rec_frag_count := 1\<rparr>)"

lemma emits_WriteZDTRecord: "emits e (WriteZDTRecord r) (enc_record e r)"
proof -
  have "emits e (\<lambda>b. WriteInt default_new (rec_frag_count r) (WriteInt default_new (rec_frag_index r) b))
      (enc_int e (rec_frag_index r) @ enc_int e (rec_frag_count r))"
    by (rule emits_comp) (rule heap.emits_WriteInt)+
  then show ?thesis
    unfolding WriteZDTRecord_def [abs_def] enc_record_def
    by (intro emits_let heap.emits_WriteInt emits_if)
qed

lemma length_enc_record:
  "length (enc_record e r) = ZDTRecordSize (has_flag (rec_flags r) kRecFragment) 0"
  by (simp add: enc_record_def ZDTRecordSize_def zdt_sizes)

lemmas parses_when_int = parses_when_bind [OF parses_ReadInt]

lemma parses_ReadZDTRecord:
  "parses_when e (\<lambda>rest. (unat (rec_length r) \<le> length rest) = t) (ReadZDTRecord r0)
     (t, record_on_wire r) (enc_record e r)"
proof -
  let ?c = "has_flag (rec_flags r) kRecFragment"
  let ?r1 = "r0\<lparr>rec_flags := rec_flags r, rec_channel := rec_channel r, rec_message_seq := rec_message_seq r\<rparr>"
  let ?r2 = "record_on_wire r\<lparr>rec_length := rec_length r0\<rparr>"
  have frag: "parses e (\<lambda>b. if ?c
        then (let (index, b) = ReadInt b; (count, b) = ReadInt b
              in (?r1\<lparr>rec_frag_index := index, rec_frag_count := count\<rparr>, b))
        else (?r1\<lparr>rec_frag_index := 0, rec_frag_count := 1\<rparr>, b)) ?r2
      (if ?c then enc_int e (rec_frag_index r) @ enc_int e (rec_frag_count r) else [])"
  proof (cases ?c)
    case True
    have "parses e (\<lambda>b. let (index, b) = ReadInt b; (count, b) = ReadInt b
              in (?r1\<lparr>rec_frag_index := index, rec_frag_count := count\<rparr>, b)) ?r2
        (enc_int e (rec_frag_index r) @ enc_int e (rec_frag_count r))"
      by (intro parses_int parses_last [OF parses_ReadInt]) (simp_all add: True record_on_wire_def)
    with True show ?thesis by simp
  next
    case False
    then have "?r2 = ?r1\<lparr>rec_frag_index := 0, rec_frag_count := 1\<rparr>"
      by (cases r; cases r0) (simp add: record_on_wire_def)
    with False show ?thesis by (simp add: parses_Pair)
  qed
  have fin: "parses_when e (\<lambda>rest. (unat (rec_length r) \<le> length rest) = t)
      (\<lambda>b. ((unat (rec_length r) \<le> readable_bytes b, ?r2\<lparr>rec_length := rec_length r\<rparr>), b))
      (t, record_on_wire r) []"
  proof -
    have "?r2\<lparr>rec_length := rec_length r\<rparr> = record_on_wire r" by (simp add: record_on_wire_def)
    then show ?thesis
      using parses_when_readable [of e "unat (rec_length r)" t "record_on_wire r"] by simp
  qed
  have "parses_when e (\<lambda>rest. (unat (rec_length r) \<le> length rest) = t) (ReadZDTRecord r0)
     (t, record_on_wire r) (enc_record e r @ [])"
    unfolding ReadZDTRecord_def [abs_def] enc_record_def append_assoc
    by (intro parses_when_guard parses_when_guard_and parses_when_int parses_when_let
        parses_when_bind [OF frag] fin) (simp_all add: zdt_sizes)
  then show ?thesis by simp
qed

subsection \<open>Offline headers\<close>

lemma length_kZDTMagic [simp]: "length kZDTMagic = 8"
  by (simp add: kZDTMagic_def)

lemma emits_WriteOfflineHeader: "emits e (WriteOfflineHeader i) (i # kZDTMagic)"
  using emits_comp [OF heap.emits_WriteInt [of e i] heap.emits_Write [of e kZDTMagic]]
  by (simp add: WriteOfflineHeader_def [abs_def])

text \<open>The reader of an offline header, on every input: it is decided by the readable bytes.\<close>

lemma ReadOfflineHeader_char:
  assumes "stream_ok b"
  shows "fst (ReadOfflineHeader b) = PeekOfflineHeader (contents b)"
    and "PeekOfflineHeader (contents b) \<noteq> None \<Longrightarrow> consumed b (snd (ReadOfflineHeader b)) kZDTOfflineHeaderSize"
proof -
  let ?c = "contents b"
  have *: "fst (ReadOfflineHeader b) = PeekOfflineHeader ?c \<and>
    (PeekOfflineHeader ?c \<noteq> None \<longrightarrow> consumed b (snd (ReadOfflineHeader b)) kZDTOfflineHeaderSize)"
  proof (cases "length ?c < 9")
    case True
    then show ?thesis using assms
      by (simp add: ReadOfflineHeader_def PeekOfflineHeader_def kZDTOfflineHeaderSize_def length_contents)
  next
    case False
    then obtain i rest where c: "?c = enc_int (buf_endianness b) (i :: u8) @ rest" and l: "8 \<le> length rest"
      by (cases ?c) (auto simp: not_less)
    obtain b1 where 1: "ReadInt b = (i, b1)" "stream_ok b1" "contents b1 = rest" "consumed b b1 1"
      by (rule parsesE [OF parses_ReadInt [where w = i] refl assms c]) simp_all
    have m: "length (take 8 rest) = 8" by (simp only: length_take min_absorb2 [OF l])
    have r: "contents b1 = take 8 rest @ drop 8 rest" by (simp add: 1)
    have p: "parses (buf_endianness b1) (Read 1 8) (Some (take 8 rest)) (take 8 rest)"
      by (rule parses_Read) (use l in simp_all)
    obtain b2 where 2: "Read 1 8 b1 = (Some (take 8 rest), b2)" "consumed b1 b2 8"
      by (rule parsesE [OF p refl 1(2) r]) (auto simp only: m)
    have "readable_bytes b = length ?c" using assms by (simp add: length_contents)
    then show ?thesis
      using False l c 1(1) 2(1) consumed_trans [OF 1(4) 2(2)]
      by (auto simp: ReadOfflineHeader_def PeekOfflineHeader_def kZDTOfflineHeaderSize_def)
  qed
  show "fst (ReadOfflineHeader b) = PeekOfflineHeader ?c" using * by blast
  show "PeekOfflineHeader ?c \<noteq> None \<Longrightarrow> consumed b (snd (ReadOfflineHeader b)) kZDTOfflineHeaderSize"
    using * by blast
qed

lemma PeekOfflineHeader_written:
  "\<not> has_flag i kFlagOnline \<Longrightarrow> PeekOfflineHeader (i # kZDTMagic @ rest) = Some i"
  by (simp add: PeekOfflineHeader_def kZDTOfflineHeaderSize_def)

lemma parses_ReadOfflineHeader:
  assumes "\<not> has_flag i kFlagOnline"
  shows "parses e ReadOfflineHeader (Some i) (i # kZDTMagic)"
proof (rule parsesI)
  fix b rest assume "stream_ok b" "contents b = (i # kZDTMagic) @ rest"
  then show "fst (ReadOfflineHeader b) = Some i
      \<and> consumed b (snd (ReadOfflineHeader b)) (length (i # kZDTMagic))"
    using ReadOfflineHeader_char [of b] PeekOfflineHeader_written [OF assms]
    by (simp add: kZDTOfflineHeaderSize_def)
qed

interpretation offline_field: field_codec e WriteOfflineHeader ReadOfflineHeader Some
  "\<lambda>i. i # kZDTMagic" "\<lambda>i. \<not> has_flag i kFlagOnline" for e
  by unfold_locales (auto intro: emits_WriteOfflineHeader parses_ReadOfflineHeader)

subsection \<open>Path messages\<close>

definition path_ok :: "ZDTPathMessage \<Rightarrow> bool" where
  "path_ok m \<longleftrightarrow> length (path_cookie m) = kZDTCookieLen"

definition enc_path :: "Endianness \<Rightarrow> ZDTPathMessage \<Rightarrow> bytes" where
  "enc_path e m = enc_int e (path_cid m) @ enc_int e (path_epoch m) @ path_cookie m"

lemma parses_ReadPathMessage:
  assumes "path_ok m"
  shows "parses e (ReadPathMessage m0) (True, m) (enc_path e m)"
proof -
  have c: "parses e (Read 1 kZDTCookieLen) (Some (path_cookie m)) (path_cookie m)"
    using assms by (intro parses_Read) (simp_all add: path_ok_def kZDTCookieLen_def)
  have m: "m0\<lparr>path_cid := path_cid m, path_epoch := path_epoch m, path_cookie := path_cookie m\<rparr> = m"
    by (cases m; cases m0) simp
  have fin: "parses e (\<lambda>b. let (r, b) = Read 1 kZDTCookieLen b;
        cookie = (case r of None \<Rightarrow> path_cookie m0 | Some bs \<Rightarrow> bs)
      in ((True, m0\<lparr>path_cid := path_cid m, path_epoch := path_epoch m, path_cookie := cookie\<rparr>), b)) (True, m)
      (path_cookie m)"
    using parses_last [OF c, of "\<lambda>r. (True, m0\<lparr>path_cid := path_cid m, path_epoch := path_epoch m,
        path_cookie := (case r of None \<Rightarrow> path_cookie m0 | Some bs \<Rightarrow> bs)\<rparr>)" "(True, m)"] m
    by simp
  show ?thesis
    unfolding ReadPathMessage_def [abs_def] enc_path_def
    by (intro parses_guard parses_int fin) (use assms in \<open>simp_all add: path_ok_def kZDTCookieLen_def\<close>)
qed

lemma WritePathMessage_contents:
  assumes "path_ok m"
  shows "contents (WritePathMessage i m) = i # kZDTMagic @ enc_path BigEndian m"
    and "stream_ok (WritePathMessage i m)" and "buf_endianness (WritePathMessage i m) = BigEndian"
proof -
  have "emits BigEndian (\<lambda>out. let out = WriteOfflineHeader i out; out = WriteInt default_new (path_cid m) out;
        out = WriteInt default_new (path_epoch m) out in Write default_new (path_cookie m) out)
      ((i # kZDTMagic) @ enc_path BigEndian m)"
    unfolding enc_path_def
    by (intro emits_let emits_WriteOfflineHeader heap.emits_WriteInt heap.emits_Write)
  from emits_new [OF this] assms
  show "contents (WritePathMessage i m) = i # kZDTMagic @ enc_path BigEndian m"
    and "stream_ok (WritePathMessage i m)" and "buf_endianness (WritePathMessage i m) = BigEndian"
    by (simp_all add: WritePathMessage_def enc_path_def path_ok_def kZDTCookieLen_def Let_def)
qed

subsection \<open>Relay headers and connection ids\<close>

lemma relay_bytes:
  fixes channel :: u32
  assumes "channel \<le> kZDTMaxRelayChannel"
  shows "push_bit 16 (ucast (ucast (drop_bit 16 channel AND 0xFF) :: u8))
     OR push_bit 8 (ucast (ucast (drop_bit 8 channel AND 0xFF) :: u8))
     OR ucast (ucast (channel AND 0xFF) :: u8) = channel"
proof (rule bit_word_eqI)
  fix n assume "n < LENGTH(32)"
  have hi: "\<not> bit channel n" if "24 \<le> n" for n
  proof -
    have "unat channel < 2 ^ 24"
      using assms by (simp add: kZDTMaxRelayChannel_def word_le_nat_alt)
    also have "\<dots> \<le> 2 ^ n" using that by (intro power_increasing) simp_all
    finally have "\<not> bit (unat channel) n" by (simp add: bit_iff_odd)
    then show ?thesis by (auto simp: bit_unsigned_iff dest: bit_imp_le_length)
  qed
  have m: "(0xFF :: u32) = mask 8" by (simp add: mask_eq_exp_minus_1)
  show "bit (push_bit 16 (ucast (ucast (drop_bit 16 channel AND 0xFF) :: u8))
     OR push_bit 8 (ucast (ucast (drop_bit 8 channel AND 0xFF) :: u8))
     OR (ucast (ucast (channel AND 0xFF) :: u8) :: u32)) n = bit channel n"
    unfolding m using hi [of n]
    by (cases "n < 8"; cases "n < 16"; cases "n < 24") (auto simp: bit_simps not_less)
qed

lemma emits_WriteRelayHeader:
  "emits e (WriteRelayHeader channel) [kZDTRelayMarker, ucast (drop_bit 16 channel AND 0xFF),
     ucast (drop_bit 8 channel AND 0xFF), ucast (channel AND 0xFF)]"
proof -
  have "emits e (WriteRelayHeader channel) (enc_int e kZDTRelayMarker
     @ enc_int e (ucast (drop_bit 16 channel AND 0xFF) :: u8)
     @ enc_int e (ucast (drop_bit 8 channel AND 0xFF) :: u8) @ enc_int e (ucast (channel AND 0xFF) :: u8))"
    unfolding WriteRelayHeader_def [abs_def] by (intro emits_let heap.emits_WriteInt)
  then show ?thesis by simp
qed

lemma shift_in_byte:
  "push_bit 8 (word_of_nat v) OR ucast (x :: u8) = (word_of_nat (unat x + 256 * v) :: u64)"
proof -
  have "push_bit 8 (word_of_nat v) OR ucast x = push_bit 8 (word_of_nat v) + (ucast x :: u64)"
    by (rule disjunctive_add [symmetric]) (auto simp: bit_simps dest: bit_imp_le_length)
  then show ?thesis by (simp add: push_bit_eq_mult mult.commute)
qed

lemma foldl_shift_in:
  "foldl (\<lambda>value x. push_bit 8 value OR ucast (x :: u8)) (word_of_nat v :: u64) bs
     = word_of_nat (le_val (rev bs) + 256 ^ length bs * v)"
proof (induction bs arbitrary: v)
  case Nil
  then show ?case by simp
next
  case (Cons x bs)
  have "le_val (rev bs) + 256 ^ length bs * (unat x + 256 * v)
      = le_val (rev (x # bs)) + 256 ^ length (x # bs) * v"
    by (simp add: le_val_append algebra_simps)
  then show ?case
    unfolding foldl_Cons shift_in_byte Cons.IH by (rule arg_cong)
qed

lemma ReadBigEndian64_eq:
  assumes "length bs = 8"
  shows "ReadBigEndian64 (bs @ rest) = of_mem_image (rev bs)"
proof -
  have "foldl (\<lambda>value i. push_bit 8 value OR ucast ((bs @ rest) ! i)) (0 :: u64) [0..<8]
      = foldl (\<lambda>value x. push_bit 8 value OR ucast x) 0 (map (\<lambda>i. (bs @ rest) ! i) [0..<8])"
    by (simp add: foldl_map)
  also have "map (\<lambda>i. (bs @ rest) ! i) [0..<8] = bs"
    using assms by (intro nth_equalityI) (simp_all add: nth_append)
  finally show ?thesis
    using foldl_shift_in [of 0 bs] by (simp add: ReadBigEndian64_def of_mem_image_def GetSystemEndianness_def)
qed

lemma ReadBigEndian64_enc [simp]: "ReadBigEndian64 (enc_int BigEndian w @ rest) = w"
  by (simp add: ReadBigEndian64_eq enc_int_def wire_order_def GetSystemEndianness_def)

section \<open>Sequence reconstruction\<close>

lemma reconstruct_candidate:
  "unat ((expected AND NOT (push_bit 16 1 - 1)) OR ucast (truncated :: u16) :: u64)
     = unat expected div 65536 * 65536 + unat truncated"
proof -
  have m: "(push_bit 16 1 - 1 :: u64) = mask 16" by (simp add: mask_eq_exp_minus_1)
  have hi: "expected AND NOT (mask 16) = push_bit 16 (drop_bit 16 expected)"
    by (rule bit_word_eqI) (auto simp: bit_simps)
  have "push_bit 16 (drop_bit 16 expected) OR ucast truncated
      = push_bit 16 (drop_bit 16 expected) + (ucast truncated :: u64)"
    by (rule disjunctive_add [symmetric]) (auto simp: bit_simps dest: bit_imp_le_length)
  moreover have u: "unat (push_bit 16 (drop_bit 16 expected)) = unat expected div 65536 * 65536"
  proof -
    have "unat expected < 2 ^ LENGTH(64)" by (rule unsigned_less)
    then have "unat expected div 65536 * 65536 < 2 ^ 64" "unat expected mod 2 ^ 64 = unat expected" by simp_all
    then show ?thesis
      by (simp only: unsigned_push_bit_eq unsigned_drop_bit_eq) (simp add: drop_bit_eq_div push_bit_eq_mult take_bit_eq_mod)
  qed
  moreover have "unat (ucast truncated :: u64) = unat truncated"
    using unat16_less [of truncated] by (simp add: unsigned_ucast_eq take_bit_eq_mod)
  moreover have "unat expected div 65536 * 65536 + unat truncated < 2 ^ 64"
  proof -
    have "unat expected div 65536 < 2 ^ 48"
      using unat64_less [of expected] by (intro less_mult_imp_div_less) simp
    then show ?thesis using unat16_less [of truncated] by simp
  qed
  ultimately show ?thesis
    unfolding m hi by (simp add: unat_plus_if')
qed

lemma reconstruct_arith:
  fixes f x :: nat
  assumes "x \<le> f + 32768" and "f < x + 32768" and "c = x div 65536 * 65536 + f mod 65536"
  shows "(if c + 32768 < x then c + 65536
     else if c \<ge> x + 32768 \<and> c \<ge> 65536 then c - 65536 else c) = f"
proof -
  obtain q r where x: "x = q * 65536 + r" "r < 65536" by (metis div_mult_mod_eq mod_less_divisor zero_less_numeral)
  obtain p s where f: "f = p * 65536 + s" "s < 65536" by (metis div_mult_mod_eq mod_less_divisor zero_less_numeral)
  have c: "c = q * 65536 + s" using assms(3) x f by simp
  have "p = q \<or> p = q + 1 \<or> q = p + 1" using assms(1,2) x f by linarith
  then show ?thesis using assms(1,2) x f c by auto
qed

lemma ReconstructSeq_correct:
  assumes "unat expected < 2 ^ 63" and "unat full < 2 ^ 63"
    and "unat expected \<le> unat full + 32768" and "unat full < unat expected + 32768"
  shows "ReconstructSeq (ucast full) expected = full"
proof -
  let ?c = "(expected AND NOT (push_bit 16 1 - 1)) OR ucast (ucast full :: u16) :: u64"
  have u: "unat (ucast full :: u16) = unat full mod 65536" by (simp add: unsigned_ucast_eq take_bit_eq_mod)
  have c: "unat ?c = unat expected div 65536 * 65536 + unat full mod 65536"
    by (simp only: reconstruct_candidate u)
  then have small: "unat ?c < 2 ^ 63 + 65536"
    using assms(1) mod_less_divisor [of 65536 "unat full"] div_times_less_eq_dividend [of "unat expected" 65536]
    by linarith
  have k: "unat (push_bit 16 1 :: u64) = 65536" "unat (push_bit 16 1 div 2 :: u64) = 32768" by simp_all
  have h: "unat (?c + push_bit 16 1 div 2) = unat ?c + 32768"
     "unat (expected + push_bit 16 1 div 2) = unat expected + 32768"
     "unat (?c + push_bit 16 1) = unat ?c + 65536"
    using small assms(1) by (simp_all only: unat_plus_if' k) simp_all
  have s: "push_bit 16 1 \<le> ?c \<Longrightarrow> unat (?c - push_bit 16 1) = unat ?c - 65536"
    by (simp only: unat_sub k)
  have "unat (ReconstructSeq (ucast full) expected) = unat full"
    unfolding ReconstructSeq_def Let_def reconstruct_arith [OF assms(3,4) c, symmetric]
    by (simp only: word_less_nat_alt word_le_nat_alt h k if_distrib [of unat] s cong: if_cong conj_cong)
  then show ?thesis by (rule word_unat_eq_iff [THEN iffD2])
qed
lemma SeqGreater_iff: "SeqGreater a b \<longleftrightarrow> 0 < unat (a - b) \<and> unat (a - b) < 32768"
  by (simp add: SeqGreater_def seq_simps)

lemma SeqLess_iff: "SeqLess a b \<longleftrightarrow> 32768 \<le> unat (a - b)"
  by (simp add: SeqLess_def seq_simps)

lemma Seq_trichotomy: "SeqGreater a b \<or> SeqLess a b \<or> a = b"
  by (auto simp: SeqGreater_iff SeqLess_iff not_less unat_gt_0)

section \<open>The cookie binds address and epoch\<close>

lemma epoch_byte_bit:
  assumes "j < 8"
  shows "bit (ucast (drop_bit (i * 8) (epoch :: u32) AND 0xFF) :: u8) j \<longleftrightarrow> bit epoch (i * 8 + j)"
proof -
  have m: "(0xFF :: u32) = mask 8" by (simp add: mask_eq_exp_minus_1)
  show ?thesis unfolding m using assms by (simp add: bit_simps add.commute)
qed

lemma epoch_bytes_inject:
  assumes "map (\<lambda>i. ucast (drop_bit (i * 8) e AND 0xFF) :: u8) [0..<4]
     = map (\<lambda>i. ucast (drop_bit (i * 8) (e' :: u32) AND 0xFF)) [0..<4]"
  shows "e = e'"
proof (rule bit_word_eqI)
  fix n assume "n < LENGTH(32)"
  then have n: "n div 8 < 4" by simp
  have "(ucast (drop_bit (n div 8 * 8) e AND 0xFF) :: u8) = ucast (drop_bit (n div 8 * 8) e' AND 0xFF)"
    using arg_cong [OF assms, of "\<lambda>xs. xs ! (n div 8)"] n by simp
  then have "bit e (n div 8 * 8 + n mod 8) = bit e' (n div 8 * 8 + n mod 8)"
    by (simp only: epoch_byte_bit [of "n mod 8", symmetric] mod_less_divisor zero_less_numeral)
  then show "bit e n = bit e' n" by simp
qed

lemma cookie_message_inject:
  "cookie_message p e = cookie_message p' e' \<longleftrightarrow> p = p' \<and> e = e'"
proof
  assume "cookie_message p e = cookie_message p' e'"
  then have "(p @ [0x7C]) @ map (\<lambda>i. ucast (drop_bit (i * 8) e AND 0xFF)) [0..<4]
      = (p' @ [0x7C]) @ map (\<lambda>i. ucast (drop_bit (i * 8) e' AND 0xFF)) [0..<4]"
    by (simp only: cookie_message_def append_assoc)
  then have "p @ [0x7C] = p' @ [0x7C] \<and>
      map (\<lambda>i. ucast (drop_bit (i * 8) e AND 0xFF) :: u8) [0..<4]
       = map (\<lambda>i. ucast (drop_bit (i * 8) e' AND 0xFF)) [0..<4]"
    by (intro append_eq_append_conv [THEN iffD1]) (simp, assumption)
  then show "p = p' \<and> e = e'" using epoch_bytes_inject by blast
qed simp

section \<open>Readers on arbitrary datagrams\<close>

lemma safe_read_ack_block: "safe_reader (\<lambda>b. read_ack_block (h, b) i)"
  unfolding read_ack_block_def Let_def [of "(h, _)"] prod.case
  by (intro safe_bind safe_ret safe_ReadInt) simp_all

lemma safe_read_ack_blocks: "safe_reader (\<lambda>b. foldl read_ack_block (h, b) xs)"
proof (induction xs arbitrary: h)
  case Nil
  show ?case by (simp add: safe_reader_def)
next
  case (Cons x xs)
  have "safe_reader (\<lambda>b. let (h', b') = read_ack_block (h, b) x in foldl read_ack_block (h', b') xs)"
    by (rule safe_bind [OF safe_read_ack_block Cons.IH])
  then show ?case by simp
qed

lemma safe_pair: "safe_reader (Pair v)"
  by (simp add: safe_reader_def)

lemma safe_ReadZDTHeader: "safe_reader (ReadZDTHeader h)"
proof -
  have "safe_reader (\<lambda>b. if c then let (cid, b) = ReadInt b in (h'\<lparr>hdr_cid := cid\<rparr>, b) else (h', b))" for h' c
    by (cases c) (simp_all add: safe_bind [OF safe_ReadInt safe_ret(1), simplified Let_def] safe_ret safe_pair)
  then show ?thesis
    unfolding ReadZDTHeader_def [abs_def]
    by (intro safe_bind safe_let safe_if safe_ret safe_ReadInt safe_read_ack_blocks) simp_all
qed

lemma read_ack_block_frame:
  "length (hdr_blocks (fst (read_ack_block hb i))) = length (hdr_blocks (fst hb))"
  "hdr_flags (fst (read_ack_block hb i)) = hdr_flags (fst hb)"
  by (simp_all add: read_ack_block_def Let_def split: prod.splits)

lemma read_ack_blocks_frame:
  "length (hdr_blocks (fst (foldl read_ack_block hb xs))) = length (hdr_blocks (fst hb))"
  "hdr_flags (fst (foldl read_ack_block hb xs)) = hdr_flags (fst hb)"
  by (induction xs arbitrary: hb) (simp_all add: read_ack_block_frame)

lemma ReadZDTHeader_bounded:
  assumes "ReadZDTHeader h b = ((True, h'), b')" and "length (hdr_blocks h) = kZDTMaxAckBlocks"
  shows "unat (hdr_block_count h') \<le> kZDTMaxAckBlocks \<and> length (hdr_blocks h') = kZDTMaxAckBlocks
     \<and> has_flag (hdr_flags h') kFlagOnline"
proof -
  have *: "length (hdr_blocks h2) = length (hdr_blocks h1) \<and> hdr_flags h2 = hdr_flags h1"
    if "foldl read_ack_block (h1, b1) xs = (h2, b2)" for h1 b1 xs h2 b2
    using read_ack_blocks_frame [of "(h1, b1)" xs] that by simp
  show ?thesis
    using assms(1) assms(2)
    by (auto simp: ReadZDTHeader_def Let_def not_less split: if_splits prod.splits dest!: *)
qed

text \<open>
  C13. A datagram header, whatever its flags, connection id, sequence numbers and ack blocks (at
  most 24 of them), is read back from the bytes it was written to: same flags, sequence,
  ack and blocks, and the connection id exactly when the flag announces one. The size on the
  wire is the six fixed bytes, eight for a connection id and two per block.
\<close>

theorem header_round_trip:
  assumes "header_ok h"
  shows "\<exists>b'. ReadZDTHeader ZDTHeader_init (WriteZDTHeader h (Buffer_new BigEndian))
       = ((True, header_on_wire h), b') \<and> readable_bytes b' = 0
     \<and> readable_bytes (WriteZDTHeader h (Buffer_new BigEndian)) = kZDTHeaderSize
         + (if has_flag (hdr_flags h) kFlagHasCid then kZDTCidSize else 0)
         + unat (hdr_block_count h) * kZDTAckBlockSize"
proof -
  have "length (enc_header BigEndian h) \<le> 62"
    using assms by (simp add: length_enc_header) (simp add: zdt_sizes header_ok_def)
  then have len: "length (enc_header BigEndian h) < 2 ^ 61" by simp
  have "contents (WriteZDTHeader h (Buffer_new BigEndian)) = enc_header BigEndian h"
    "stream_ok (WriteZDTHeader h (Buffer_new BigEndian))"
    using emits_new [OF emits_WriteZDTHeader [OF assms] len] by simp_all
  with header_field.get_after_put [OF assms, of "Buffer_new BigEndian" BigEndian]
    room_new [OF len, of BigEndian] length_enc_header [OF assms, of BigEndian]
  show ?thesis by (auto simp flip: length_contents)
qed

theorem header_round_trip_witness:
  "\<exists>b'. ReadZDTHeader ZDTHeader_init (WriteZDTHeader (ZDTHeader_init\<lparr>hdr_flags := 0x88, hdr_cid := 7,
        hdr_packet_seq := 65535\<rparr>) (Buffer_new BigEndian)) = ((True, header_on_wire (ZDTHeader_init\<lparr>hdr_flags := 0x88,
        hdr_cid := 7, hdr_packet_seq := 65535\<rparr>)), b') \<and> readable_bytes b' = 0
     \<and> readable_bytes (WriteZDTHeader (ZDTHeader_init\<lparr>hdr_flags := 0x88, hdr_cid := 7,
        hdr_packet_seq := 65535\<rparr>) (Buffer_new BigEndian)) = 14"
  using header_round_trip [of "ZDTHeader_init\<lparr>hdr_flags := 0x88, hdr_cid := 7, hdr_packet_seq := 65535\<rparr>"]
  by (simp add: header_ok_def ZDTHeader_init_def has_flag_def kFlagOnline_def kFlagHasCid_def zdt_sizes)

text \<open>
  C14. Reading a header from arbitrary bytes never leaves the datagram, and an accepted header
  carries the online marker and at most 24 blocks, so the block array is never overrun.
\<close>

theorem header_reader_safe:
  assumes "stream_ok b" and "ReadZDTHeader ZDTHeader_init b = ((ok, h), b')"
  shows "stream_ok b' \<and> suffix (contents b') (contents b)
     \<and> (ok \<longrightarrow> unat (hdr_block_count h) \<le> kZDTMaxAckBlocks \<and> length (hdr_blocks h) = kZDTMaxAckBlocks
          \<and> has_flag (hdr_flags h) kFlagOnline)"
proof -
  have "length (hdr_blocks ZDTHeader_init) = kZDTMaxAckBlocks" by (simp add: ZDTHeader_init_def)
  with assms ReadZDTHeader_bounded [of ZDTHeader_init b h b'] safe_readerD [OF safe_ReadZDTHeader assms(1)]
  show ?thesis by (cases ok) (metis snd_conv)+
qed

theorem header_reader_safe_witness:
  "stream_ok (Buffer_of default_new [0x80, 0, 1, 0, 0, 99] BigEndian)
   \<and> (\<exists>ok h b'. ReadZDTHeader ZDTHeader_init (Buffer_of default_new [0x80, 0, 1, 0, 0, 99] BigEndian) = ((ok, h), b')
     \<and> stream_ok b' \<and> suffix (contents b') (contents (Buffer_of default_new [0x80, 0, 1, 0, 0, 99] BigEndian))
     \<and> (ok \<longrightarrow> unat (hdr_block_count h) \<le> kZDTMaxAckBlocks \<and> length (hdr_blocks h) = kZDTMaxAckBlocks
          \<and> has_flag (hdr_flags h) kFlagOnline))"
proof -
  have ok: "stream_ok (Buffer_of default_new [0x80, 0, 1, 0, 0, 99] BigEndian)"
    by (simp add: Buffer_of_def default_new_def stream_ok_def buf_wf_def readable_bytes_eq overlay_def size_max_def)
  obtain r h b' where r: "ReadZDTHeader ZDTHeader_init (Buffer_of default_new [0x80, 0, 1, 0, 0, 99] BigEndian) = ((r, h), b')"
    by (metis surj_pair)
  from header_reader_safe [OF ok r] ok r show ?thesis by blast
qed

text \<open>
  A record header written in front of its payload is read back, leaving the reader at the
  payload; it is accepted exactly when at least \<open>length\<close> bytes follow, so a truncated or lying
  length is refused.
\<close>

lemma record_round_trip:
  assumes "length payload < 2 ^ 60"
  shows "\<exists>b'. ReadZDTRecord r0 (Write default_new payload (WriteZDTRecord r (Buffer_new BigEndian)))
       = ((unat (rec_length r) \<le> length payload, record_on_wire r), b') \<and> contents b' = payload"
proof -
  let ?b = "Write default_new payload (WriteZDTRecord r (Buffer_new BigEndian))"
  have "emits BigEndian (\<lambda>b. Write default_new payload (WriteZDTRecord r b)) (enc_record BigEndian r @ payload)"
    by (rule emits_comp [OF emits_WriteZDTRecord heap.emits_Write])
  moreover have "length (enc_record BigEndian r @ payload) < 2 ^ 61"
    using assms by (simp add: length_enc_record ZDTRecordSize_def zdt_sizes)
  ultimately have b: "contents ?b = enc_record BigEndian r @ payload" "stream_ok ?b" "buf_endianness ?b = BigEndian"
    using emits_new by blast+
  show ?thesis
    by (rule parses_whenE [OF parses_ReadZDTRecord b(3,2,1) refl, of r0]) blast
qed

text \<open>
  C15. The allocation-free check of the receive loop and the buffered reader decide offline
  datagrams alike: on every well-formed buffer \<open>ReadOfflineHeader\<close> returns what
  \<open>PeekOfflineHeader\<close> returns on the readable bytes.
\<close>

theorem offline_peek_agrees:
  assumes "stream_ok b"
  shows "fst (ReadOfflineHeader b) = PeekOfflineHeader (contents b)"
  using ReadOfflineHeader_char(1) [OF assms] .

theorem offline_peek_agrees_witness:
  "fst (ReadOfflineHeader (WriteOfflineHeader Punch (Buffer_new BigEndian))) = PeekOfflineHeader (Punch # kZDTMagic)"
proof -
  have "length (Punch # kZDTMagic) < 2 ^ 61" by simp
  note w = emits_new [OF emits_WriteOfflineHeader [of BigEndian Punch] this]
  from offline_peek_agrees [OF w(2)] show ?thesis by (simp add: w(1))
qed

text \<open>
  C16. Sequence numbers truncated to 16 bits on the wire are reconstructed exactly as long as the
  true number is within half a period of what the receiver expects, below at most \<open>32768\<close> and
  above by less than that.
\<close>

theorem reconstruct_seq_exact:
  assumes "unat expected < 2 ^ 63" and "unat full < 2 ^ 63"
    and "unat expected \<le> unat full + 32768" and "unat full < unat expected + 32768"
  shows "ReconstructSeq (ucast full) expected = full"
  using ReconstructSeq_correct [OF assms] .

theorem reconstruct_seq_exact_witness:
  "ReconstructSeq (ucast (65540 :: u64)) 65530 = 65540 \<and> ReconstructSeq (ucast (65530 :: u64)) 65540 = 65530"
  using reconstruct_seq_exact [of 65530 65540] reconstruct_seq_exact [of 65540 65530] by simp

text \<open>
  A relay channel written in front of a datagram is read back from the raw bytes, and the
  wrapped datagram is never mistaken for an offline message.
\<close>

lemma relay_header_round_trip:
  assumes "channel \<noteq> 0" and "channel \<le> kZDTMaxRelayChannel"
  shows "ReadRelayHeader (contents (WriteRelayHeader channel (Buffer_new e)) @ datagram) = Some channel
     \<and> PeekOfflineHeader (contents (WriteRelayHeader channel (Buffer_new e)) @ datagram) = None"
  using emits_new(1) [OF emits_WriteRelayHeader, of channel e] relay_bytes [OF assms(2)] assms(1)
  by (simp add: ReadRelayHeader_def kZDTRelayHeaderSize_def PeekOfflineHeader_def has_flag_def
      kZDTRelayMarker_def kFlagOnline_def Let_def)

end
