(* ===== verification/Ack_History.thy ===== *)
theory Ack_History
  imports Zdt_Wire
begin

text \<open>
  The receiver's sliding record of arrived packet sequences and its run-length encoding
  into ack blocks, \<open>backends/zdt/zdt_ack_history.h\<close> and \<open>zdt_ack_history.cc\<close>. The
  16-word bit array is shown to be exactly the set of arrived sequence numbers within the
  last 1024, and the blocks to be a positional description of it: the block list decodes to
  an initial segment of the history, so no missing packet is ever reported as received.
\<close>

section \<open>The bit array\<close>

definition HistoryBit :: "u64 list \<Rightarrow> nat \<Rightarrow> bool" where
  "HistoryBit bits b \<longleftrightarrow> drop_bit (b mod 64) (bits ! (b div 64)) AND 1 \<noteq> 0"

definition SetHistoryBit :: "u64 list \<Rightarrow> nat \<Rightarrow> u64 list" where
  "SetHistoryBit bits b = bits[b div 64 := bits ! (b div 64) OR push_bit (b mod 64) 1]"

definition shifted_word :: "nat \<Rightarrow> nat \<Rightarrow> u64 list \<Rightarrow> nat \<Rightarrow> u64" where
  "shifted_word words r bits i =
     (if i \<ge> words
      then let v = push_bit r (bits ! (i - words))
           in if r \<noteq> 0 \<and> i > words then v OR drop_bit (64 - r) (bits ! (i - words - 1)) else v
      else 0)"

definition ShiftHistoryUp :: "u64 list \<Rightarrow> nat \<Rightarrow> u64 list" where
  "ShiftHistoryUp bits n =
     (if n \<ge> kZDTAckHistoryBits then replicate kZDTAckHistoryWords 0
      else foldl (\<lambda>bits i. bits[i := shifted_word (n div 64) (n mod 64) bits i])
             bits (rev [0..<kZDTAckHistoryWords]))"

section \<open>Recording\<close>

record ZDTAckHistory =
  ah_highest :: WireSeq
  ah_bits :: "u64 list"
  ah_valid_bits :: nat
  ah_has_any :: bool

definition ZDTAckHistory_init :: ZDTAckHistory where
  "ZDTAckHistory_init = \<lparr>ah_highest = 0, ah_bits = replicate kZDTAckHistoryWords 0,
     ah_valid_bits = 0, ah_has_any = False\<rparr>"

definition Record :: "WireSeq \<Rightarrow> ZDTAckHistory \<Rightarrow> ZDTAckHistory" where
  "Record packet_seq h =
     (if \<not> ah_has_any h
      then h\<lparr>ah_has_any := True, ah_highest := packet_seq,
             ah_bits := SetHistoryBit (replicate kZDTAckHistoryWords 0) 0, ah_valid_bits := 1\<rparr>
      else if SeqGreater packet_seq (ah_highest h)
      then let shift = unat (packet_seq - ah_highest h);
               bits = SetHistoryBit (ShiftHistoryUp (ah_bits h) shift) 0;
               valid_bits = ah_valid_bits h + shift
           in h\<lparr>ah_highest := packet_seq, ah_bits := bits,
                ah_valid_bits := (if valid_bits > kZDTAckHistoryBits then kZDTAckHistoryBits
                                  else valid_bits)\<rparr>
      else if SeqLess packet_seq (ah_highest h)
      then let back = unat (ah_highest h - packet_seq)
           in if back < kZDTAckHistoryBits then h\<lparr>ah_bits := SetHistoryBit (ah_bits h) back\<rparr> else h
      else h)"

section \<open>Encoding\<close>

text \<open>The two inner loops of \<open>Fill\<close>: the length of the run at \<open>b\<close>, at most 255.\<close>

function run_from :: "(nat \<Rightarrow> bool) \<Rightarrow> nat \<Rightarrow> nat \<Rightarrow> nat \<Rightarrow> nat" where
  "run_from p limit b n =
     (if b < limit \<and> n < 255 \<and> p b then run_from p limit (b + 1) (n + 1) else n)"
  by pat_completeness auto
termination
  by (relation "measure (\<lambda>(p, limit, b, n). limit - b)") auto

declare run_from.simps [simp del]

function fill_blocks :: "u64 list \<Rightarrow> nat \<Rightarrow> nat \<Rightarrow> nat \<Rightarrow> ZDTHeader \<Rightarrow> ZDTHeader" where
  "fill_blocks bits limit max_blocks b header =
     (if b < limit \<and> unat (hdr_block_count header) < max_blocks then
        let acks = run_from (HistoryBit bits) limit b 0;
            nacks = run_from (\<lambda>b. \<not> HistoryBit bits b) limit (b + acks) 0
        in if acks = 0 \<and> nacks = 0 then header
           else fill_blocks bits limit max_blocks (b + acks + nacks)
                  (header\<lparr>hdr_blocks := (hdr_blocks header)[unat (hdr_block_count header) :=
                             \<lparr>num_ack = word_of_nat acks, num_nack = word_of_nat nacks\<rparr>],
                          hdr_block_count := hdr_block_count header + 1\<rparr>)
      else header)"
  by pat_completeness auto
termination
  by (relation "measure (\<lambda>(bits, limit, max_blocks, b, header). limit - b)") auto

declare fill_blocks.simps [simp del]

function trim_blocks :: "ZDTHeader \<Rightarrow> ZDTHeader" where
  "trim_blocks header =
     (if hdr_block_count header > 0
         \<and> num_ack (hdr_blocks header ! unat (hdr_block_count header - 1)) = 0
      then trim_blocks (header\<lparr>hdr_block_count := hdr_block_count header - 1\<rparr>)
      else header)"
  by pat_completeness auto
termination
  by (relation "measure (\<lambda>header. unat (hdr_block_count header))")
    (auto simp: unat_sub word_le_nat_alt word_less_nat_alt)

declare trim_blocks.simps [simp del]

definition Fill :: "ZDTHeader \<Rightarrow> nat \<Rightarrow> nat \<Rightarrow> ZDTAckHistory \<Rightarrow> ZDTHeader" where
  "Fill header max_blocks reportable_cap h =
     (let header = header\<lparr>hdr_ack := ah_highest h, hdr_block_count := 0\<rparr>
      in if \<not> ah_has_any h \<or> max_blocks = 0 then header
         else let max_blocks = min max_blocks kZDTMaxAckBlocks;
                  limit = min (ah_valid_bits h) reportable_cap
              in trim_blocks (fill_blocks (ah_bits h) limit max_blocks 0 header))"

section \<open>The array as a set of offsets\<close>

lemma HistoryBit_iff: "HistoryBit bits b \<longleftrightarrow> bit (bits ! (b div 64)) (b mod 64)"
  by (simp add: HistoryBit_def bit_iff_odd_drop_bit and_one_eq odd_iff_mod_2_eq_one)

lemma length_SetHistoryBit [simp]: "length (SetHistoryBit bits b) = length bits"
  by (simp add: SetHistoryBit_def)

lemma HistoryBit_Set:
  assumes "b < 64 * length bits" and "c < 64 * length bits"
  shows "HistoryBit (SetHistoryBit bits c) b \<longleftrightarrow> HistoryBit bits b \<or> b = c"
proof -
  have "b div 64 < length bits" "c div 64 < length bits" using assms by simp_all
  moreover have "b = c \<longleftrightarrow> b div 64 = c div 64 \<and> b mod 64 = c mod 64" by (metis div_mult_mod_eq)
  ultimately show ?thesis
    by (auto simp: HistoryBit_iff SetHistoryBit_def nth_list_update bit_simps)
qed

lemma HistoryBit_zero: "b < 64 * n \<Longrightarrow> \<not> HistoryBit (replicate n 0) b"
  by (simp add: HistoryBit_iff)

text \<open>The in-place pass from the top word down reads only words it has not written yet.\<close>

lemma downward_pass:
  assumes "\<And>i bs bs'. (\<And>j. j \<le> i \<Longrightarrow> bs ! j = bs' ! j) \<Longrightarrow> V bs i = V bs' i" and "n \<le> length bits"
  shows "length (foldl (\<lambda>bs i. bs[i := V bs i]) bits (rev [0..<n])) = length bits
    \<and> (\<forall>i < length bits. foldl (\<lambda>bs i. bs[i := V bs i]) bits (rev [0..<n]) ! i
         = (if i < n then V bits i else bits ! i))"
  using assms(2)
proof (induction n arbitrary: bits)
  case 0
  then show ?case by simp
next
  case (Suc n)
  let ?b = "bits[n := V bits n]"
  have v: "V ?b i = V bits i" if "i < n" for i
    using that by (intro assms(1)) auto
  have "n \<le> length ?b" using Suc.prems by simp
  from Suc.IH [OF this] v Suc.prems show ?case
    by (auto simp: nth_list_update less_Suc_eq)
qed

lemma shifted_word_local:
  "(\<And>j. j \<le> i \<Longrightarrow> bs ! j = bs' ! j) \<Longrightarrow> shifted_word w r bs i = shifted_word w r bs' i"
  by (auto simp: shifted_word_def Let_def)

lemma ShiftHistoryUp_words:
  assumes "length bits = kZDTAckHistoryWords" and "n < kZDTAckHistoryBits"
  shows "length (ShiftHistoryUp bits n) = kZDTAckHistoryWords"
    and "i < kZDTAckHistoryWords \<Longrightarrow> ShiftHistoryUp bits n ! i = shifted_word (n div 64) (n mod 64) bits i"
proof -
  note p = downward_pass [where V = "shifted_word (n div 64) (n mod 64)" and bits = bits
      and n = kZDTAckHistoryWords, OF shifted_word_local]
  show "length (ShiftHistoryUp bits n) = kZDTAckHistoryWords"
    using p assms by (simp add: ShiftHistoryUp_def)
  show "ShiftHistoryUp bits n ! i = shifted_word (n div 64) (n mod 64) bits i" if "i < kZDTAckHistoryWords"
    using p assms that by (simp add: ShiftHistoryUp_def)
qed

lemma length_ShiftHistoryUp [simp]:
  "length bits = kZDTAckHistoryWords \<Longrightarrow> length (ShiftHistoryUp bits n) = kZDTAckHistoryWords"
  using ShiftHistoryUp_words(1) [of bits n]
  by (cases "n < kZDTAckHistoryBits") (simp_all add: ShiftHistoryUp_def)

lemma bit_shifted_word:
  assumes "j < 64" and "r < 64"
  shows "bit (shifted_word w r bits i) j \<longleftrightarrow>
    (if w \<le> i \<and> r \<le> j then bit (bits ! (i - w)) (j - r)
     else w < i \<and> j < r \<and> bit (bits ! (i - w - 1)) (64 + j - r))"
proof -
  have d: "bit (drop_bit (64 - r) x) j \<longleftrightarrow> j < r \<and> bit x (64 + j - r)" for x :: u64
  proof -
    have "64 - r + j = 64 + j - r" using assms by simp
    then show ?thesis using assms bit_imp_le_length [of x "64 + j - r"] by (auto simp: bit_simps)
  qed
  have p: "bit (push_bit r x) j \<longleftrightarrow> r \<le> j \<and> bit x (j - r)" for x :: u64
    using assms by (auto simp: bit_simps)
  show ?thesis by (auto simp: shifted_word_def Let_def p d bit_or_iff)
qed

lemma HistoryBit_Shift:
  assumes "length bits = kZDTAckHistoryWords" and "b < kZDTAckHistoryBits"
  shows "HistoryBit (ShiftHistoryUp bits n) b \<longleftrightarrow> n \<le> b \<and> HistoryBit bits (b - n)"
proof (cases "n < kZDTAckHistoryBits")
  case False
  then show ?thesis using assms HistoryBit_zero [of b kZDTAckHistoryWords]
    by (simp add: ShiftHistoryUp_def zdt_sizes)
next
  case True
  define i j w r where "i = b div 64" and "j = b mod 64" and "w = n div 64" and "r = n mod 64"
  have bn: "b = 64 * i + j" "n = 64 * w + r" "j < 64" "r < 64"
    by (simp_all add: i_def j_def w_def r_def)
  have i: "i < kZDTAckHistoryWords" using assms(2) by (simp add: i_def zdt_sizes)
  have l: "HistoryBit (ShiftHistoryUp bits n) b \<longleftrightarrow> bit (shifted_word w r bits i) j"
    using ShiftHistoryUp_words(2) [OF assms(1) True i] by (simp add: HistoryBit_iff i_def j_def w_def r_def)
  show ?thesis
  proof (cases "r \<le> j")
    case True
    then have "n \<le> b \<longleftrightarrow> w \<le> i" using bn by linarith
    moreover have "w \<le> i \<Longrightarrow> (b - n) div 64 = i - w \<and> (b - n) mod 64 = j - r"
    proof -
      assume "w \<le> i"
      then have "b - n = 64 * (i - w) + (j - r)" using bn True by (simp add: diff_mult_distrib2)
      then show ?thesis using bn by simp
    qed
    ultimately show ?thesis
      unfolding l bit_shifted_word [OF bn(3,4)] HistoryBit_iff [of bits] using True by auto
  next
    case False
    then have "n \<le> b \<longleftrightarrow> w < i" using bn by linarith
    moreover have "w < i \<Longrightarrow> (b - n) div 64 = i - w - 1 \<and> (b - n) mod 64 = 64 + j - r"
    proof -
      assume "w < i"
      then have "b - n = 64 * (i - w - 1) + (64 + j - r)" using bn False by (simp add: diff_mult_distrib2)
      moreover have "64 + j - r < 64" using False by simp
      ultimately show ?thesis by simp
    qed
    ultimately show ?thesis
      unfolding l bit_shifted_word [OF bn(3,4)] HistoryBit_iff [of bits] using False by auto
  qed
qed

section \<open>The history is the set of arrivals\<close>

definition ack_wf :: "ZDTAckHistory \<Rightarrow> bool" where
  "ack_wf h \<longleftrightarrow> length (ah_bits h) = kZDTAckHistoryWords \<and> ah_valid_bits h \<le> kZDTAckHistoryBits
     \<and> (ah_has_any h \<longrightarrow> 0 < ah_valid_bits h \<and> HistoryBit (ah_bits h) 0)"

lemma ack_wf_init: "ack_wf ZDTAckHistory_init"
  by (simp add: ack_wf_def ZDTAckHistory_init_def)

lemma ack_wf_Record: "ack_wf h \<Longrightarrow> ack_wf (Record s h)"
  by (auto simp: ack_wf_def Record_def Let_def HistoryBit_Set zdt_sizes)

text \<open>
  \<open>tracks h xs\<close> relates a history to the full (untruncated) sequence numbers that were
  recorded, newest last: the highest is the maximum and the bits are membership, back from it.
\<close>

definition tracks :: "ZDTAckHistory \<Rightarrow> nat list \<Rightarrow> bool" where
  "tracks h xs \<longleftrightarrow> ack_wf h \<and> (ah_has_any h \<longleftrightarrow> xs \<noteq> [])
     \<and> (xs \<noteq> [] \<longrightarrow> ah_highest h = word_of_nat (Max (set xs))
          \<and> (\<forall>b < kZDTAckHistoryBits. HistoryBit (ah_bits h) b \<longleftrightarrow> (\<exists>x \<in> set xs. x + b = Max (set xs))))"

text \<open>Arrivals close enough to the newest one for 16 bits to order them.\<close>

fun paced :: "nat list \<Rightarrow> bool" where
  "paced [] \<longleftrightarrow> True"
| "paced (x # past) \<longleftrightarrow> paced past
     \<and> (past \<noteq> [] \<longrightarrow> x < Max (set past) + 32768 \<and> Max (set past) < x + 32768)"

lemma word_diff_small:
  assumes "y \<le> x" and "x < y + 32768"
  shows "unat (word_of_nat x - word_of_nat y :: u16) = x - y"
proof -
  have "(word_of_nat x - word_of_nat y :: u16) = word_of_nat (x - y)" using assms(1) by (simp add: of_nat_diff)
  moreover have "unat (word_of_nat (x - y) :: u16) = x - y" using assms by (intro unat_of_nat_small) simp
  ultimately show ?thesis by simp
qed

lemma word_diff_neg:
  assumes "x < y" and "y < x + 32768"
  shows "unat (word_of_nat x - word_of_nat y :: u16) = x + 65536 - y"
proof -
  have "(word_of_nat x - word_of_nat y :: u16) = word_of_nat (x + 65536 - y)"
    using assms by (simp add: of_nat_diff)
  moreover have "unat (word_of_nat (x + 65536 - y) :: u16) = x + 65536 - y"
    using assms by (intro unat_of_nat_small) simp
  ultimately show ?thesis by simp
qed

lemma tracks_newer:
  assumes "tracks h past" and "past \<noteq> []" and "Max (set past) < x" and "x < Max (set past) + 32768"
  shows "tracks (Record (word_of_nat x) h) (x # past)"
proof -
  let ?m = "Max (set past)"
  have wf: "ack_wf h" "length (ah_bits h) = kZDTAckHistoryWords" "ah_has_any h" "ah_highest h = word_of_nat ?m"
    and bits: "\<And>b. b < kZDTAckHistoryBits \<Longrightarrow> HistoryBit (ah_bits h) b \<longleftrightarrow> (\<exists>x \<in> set past. x + b = ?m)"
    using assms(1,2) by (auto simp: tracks_def ack_wf_def)
  have d: "unat (word_of_nat x - word_of_nat ?m :: u16) = x - ?m"
    using assms(3,4) by (intro word_diff_small) simp_all
  then have g: "SeqGreater (word_of_nat x) (word_of_nat ?m)"
    using assms(3,4) by (simp add: SeqGreater_iff less_diff_conv2)
  have max: "Max (set (x # past)) = x" using assms(2,3) by simp
  have r: "ah_highest (Record (word_of_nat x) h) = word_of_nat x" "ah_has_any (Record (word_of_nat x) h)"
    "ah_bits (Record (word_of_nat x) h) = SetHistoryBit (ShiftHistoryUp (ah_bits h) (x - ?m)) 0"
    using g wf d by (simp_all add: Record_def Let_def)
  have "HistoryBit (ah_bits (Record (word_of_nat x) h)) b \<longleftrightarrow> (\<exists>y \<in> set (x # past). y + b = x)"
    if b: "b < kZDTAckHistoryBits" for b
  proof -
    have "HistoryBit (ah_bits (Record (word_of_nat x) h)) b \<longleftrightarrow> b = 0 \<or> x - ?m \<le> b \<and> HistoryBit (ah_bits h) (b - (x - ?m))"
      using b wf(2) by (auto simp: r HistoryBit_Set HistoryBit_Shift zdt_sizes)
    also have "\<dots> \<longleftrightarrow> b = 0 \<or> (x - ?m \<le> b \<and> (\<exists>y \<in> set past. y + (b - (x - ?m)) = ?m))"
      using b bits by auto
    also have "\<dots> \<longleftrightarrow> (\<exists>y \<in> set (x # past). y + b = x)"
    proof -
      have "(x - ?m \<le> b \<and> y + (b - (x - ?m)) = ?m) \<longleftrightarrow> y + b = x" if "y \<in> set past" for y
      proof -
        have "y \<le> ?m" using that by simp
        then show ?thesis using assms(3) by linarith
      qed
      then show ?thesis by auto
    qed
    finally show ?thesis .
  qed
  then show ?thesis using wf(1) r max by (simp add: tracks_def ack_wf_Record)
qed

lemma tracks_older:
  assumes "tracks h past" and "past \<noteq> []" and "x \<le> Max (set past)" and "Max (set past) < x + 32768"
  shows "tracks (Record (word_of_nat x) h) (x # past)"
proof -
  let ?m = "Max (set past)"
  have wf: "ack_wf h" "length (ah_bits h) = kZDTAckHistoryWords" "ah_has_any h" "ah_highest h = word_of_nat ?m"
    and bits: "\<And>b. b < kZDTAckHistoryBits \<Longrightarrow> HistoryBit (ah_bits h) b \<longleftrightarrow> (\<exists>x \<in> set past. x + b = ?m)"
    using assms(1,2) by (auto simp: tracks_def ack_wf_def)
  have d: "unat (word_of_nat ?m - word_of_nat x :: u16) = ?m - x"
    using assms(3,4) by (intro word_diff_small) simp_all
  have max: "Max (set (x # past)) = ?m" using assms(2,3) by (simp add: max_def)
  have m: "?m \<in> set past" using assms(2) by simp
  show ?thesis
  proof (cases "x = ?m")
    case True
    then have "Record (word_of_nat x) h = h"
      using wf by (simp add: Record_def SeqGreater_iff SeqLess_iff)
    then show ?thesis using assms(1,2) True m max by (auto simp: tracks_def insert_absorb)
  next
    case False
    then have "unat (word_of_nat x - word_of_nat ?m :: u16) = x + 65536 - ?m"
      using assms(3,4) by (intro word_diff_neg) simp_all
    then have s: "\<not> SeqGreater (word_of_nat x) (word_of_nat ?m)" "SeqLess (word_of_nat x) (word_of_nat ?m)"
      using assms(3,4) by (simp_all add: SeqGreater_iff SeqLess_iff)
    have r: "Record (word_of_nat x) h = (if ?m - x < kZDTAckHistoryBits
        then h\<lparr>ah_bits := SetHistoryBit (ah_bits h) (?m - x)\<rparr> else h)"
      using wf s d by (simp add: Record_def Let_def)
    have "HistoryBit (ah_bits (Record (word_of_nat x) h)) b \<longleftrightarrow> (\<exists>y \<in> set (x # past). y + b = ?m)"
      if b: "b < kZDTAckHistoryBits" for b
      using b wf(2) assms(3) bits [OF b] by (auto simp: r HistoryBit_Set zdt_sizes)
    moreover have "ah_highest (Record (word_of_nat x) h) = word_of_nat ?m" "ah_has_any (Record (word_of_nat x) h)"
      using wf by (simp_all add: r)
    ultimately show ?thesis using wf(1) max by (simp add: tracks_def ack_wf_Record)
  qed
qed

lemma tracks_Record:
  assumes "tracks h past" and "paced (x # past)"
  shows "tracks (Record (word_of_nat x) h) (x # past)"
proof (cases "past = []")
  case True
  then have h: "ack_wf h" "\<not> ah_has_any h" using assms(1) by (simp_all add: tracks_def)
  then have r: "ah_highest (Record (word_of_nat x) h) = word_of_nat x" "ah_has_any (Record (word_of_nat x) h)"
    "ah_bits (Record (word_of_nat x) h) = SetHistoryBit (replicate kZDTAckHistoryWords 0) 0"
    by (simp_all add: Record_def)
  then show ?thesis using True ack_wf_Record [OF h(1)]
    by (auto simp: tracks_def HistoryBit_Set HistoryBit_zero zdt_sizes)
next
  case False
  then show ?thesis using assms tracks_newer [of h past x] tracks_older [of h past x]
    by (cases "Max (set past) < x") simp_all
qed

lemma tracks_foldr:
  "paced xs \<Longrightarrow> tracks (foldr (\<lambda>x h. Record (word_of_nat x) h) xs ZDTAckHistory_init) xs"
proof (induction xs)
  case Nil
  then show ?case by (simp add: tracks_def ack_wf_init) (simp add: ZDTAckHistory_init_def)
next
  case (Cons x xs)
  then show ?case using tracks_Record [of _ xs x] by simp
qed

section \<open>The blocks decode to the history\<close>

definition decode_block :: "ZDTAckBlock \<Rightarrow> bool list" where
  "decode_block k = replicate (unat (num_ack k)) True @ replicate (unat (num_nack k)) False"

definition sent_blocks :: "ZDTHeader \<Rightarrow> ZDTAckBlock list" where
  "sent_blocks h = take (unat (hdr_block_count h)) (hdr_blocks h)"

definition decode_header :: "ZDTHeader \<Rightarrow> bool list" where
  "decode_header h = concat (map decode_block (sent_blocks h))"

lemma run_from_props:
  assumes "n \<le> 255"
  shows "n \<le> run_from p limit b n" and "run_from p limit b n \<le> 255"
    and "\<And>i. i < run_from p limit b n - n \<Longrightarrow> p (b + i) \<and> b + i < limit"
    and "b < limit \<Longrightarrow> n < 255 \<Longrightarrow> p b \<Longrightarrow> n < run_from p limit b n"
  using assms
proof (induction p limit b n rule: run_from.induct)
  case (1 p limit b n)
  let ?c = "b < limit \<and> n < 255 \<and> p b"
  let ?r = "run_from p limit (b + 1) (n + 1)"
  have IH: "n + 1 \<le> ?r" "?r \<le> 255" "\<And>i. i < ?r - (n + 1) \<Longrightarrow> p (b + 1 + i) \<and> b + 1 + i < limit" if ?c
    using 1(1-3) that by simp_all
  have step: "run_from p limit b n = (if ?c then ?r else n)" by (subst run_from.simps) (rule refl)
  { case 1 then show ?case using IH(1) by (auto simp: step dest: Suc_leD) next
    case 2 then show ?case using IH by (simp add: step) next
    case (3 i)
    then have c: ?c and i: "i < ?r - n" by (auto simp: step split: if_splits)
    show ?case
    proof (cases i)
      case 0
      then show ?thesis using c by simp
    next
      case (Suc k)
      then show ?thesis using IH(3) [OF c, of k] i by simp
    qed next
    case 4 then show ?case using IH(1) by (simp add: step) }
qed

lemma unat_run: "unat (word_of_nat (run_from p limit b 0) :: u8) = run_from p limit b 0"
proof -
  have "run_from p limit b 0 \<le> 255" by (rule run_from_props(2)) simp
  then have "run_from p limit b 0 < 2 ^ LENGTH(8)" by simp
  then show ?thesis by (rule unat_of_nat_small)
qed

lemma run_map:
  "map p [b..<b + run_from p limit b 0] = replicate (run_from p limit b 0) True"
  using run_from_props(3) [where n = 0 and p = p and limit = limit and b = b] by (intro nth_equalityI) simp_all

lemma run_not_map:
  "map p [b..<b + run_from (\<lambda>b. \<not> p b) limit b 0] = replicate (run_from (\<lambda>b. \<not> p b) limit b 0) False"
  using run_from_props(3) [where n = 0 and p = "\<lambda>b. \<not> p b" and limit = limit and b = b]
  by (intro nth_equalityI) simp_all

lemma run_le: "b \<le> limit \<Longrightarrow> b + run_from p limit b 0 \<le> limit"
proof (rule ccontr)
  assume "b \<le> limit" "\<not> b + run_from p limit b 0 \<le> limit"
  then have "limit - b < run_from p limit b 0 - 0" by simp
  from run_from_props(3) [OF _ this] \<open>b \<le> limit\<close> show False by simp
qed

definition block_room :: "ZDTHeader \<Rightarrow> nat \<Rightarrow> bool" where
  "block_room h max_blocks \<longleftrightarrow> length (hdr_blocks h) = kZDTMaxAckBlocks
     \<and> max_blocks \<le> kZDTMaxAckBlocks \<and> unat (hdr_block_count h) \<le> max_blocks"

lemma push_block:
  fixes k :: ZDTAckBlock
  assumes "block_room h max_blocks" and "unat (hdr_block_count h) < max_blocks"
  defines "h' \<equiv> h\<lparr>hdr_blocks := (hdr_blocks h)[unat (hdr_block_count h) := k],
                   hdr_block_count := hdr_block_count h + 1\<rparr>"
  shows "decode_header h' = decode_header h @ decode_block k" and "block_room h' max_blocks"
    and "unat (hdr_block_count h') = Suc (unat (hdr_block_count h))"
proof -
  show c: "unat (hdr_block_count h') = Suc (unat (hdr_block_count h))"
    using assms(1,2) by (simp add: h'_def block_room_def zdt_sizes unat_plus_if')
  have "unat (hdr_block_count h) < length (hdr_blocks h)" using assms(1,2) by (simp add: block_room_def)
  then show "decode_header h' = decode_header h @ decode_block k"
    unfolding decode_header_def sent_blocks_def c by (simp add: h'_def take_Suc_conv_app_nth)
  show "block_room h' max_blocks" using assms(1,2) c by (simp add: block_room_def h'_def)
qed

lemma fill_blocks_decode:
  assumes "block_room h max_blocks" and "b \<le> limit" and "decode_header h = map (HistoryBit bits) [0..<b]"
  shows "\<exists>b'. b \<le> b' \<and> b' \<le> limit \<and> (b < limit \<and> unat (hdr_block_count h) < max_blocks \<longrightarrow> b < b')
    \<and> decode_header (fill_blocks bits limit max_blocks b h) = map (HistoryBit bits) [0..<b']
    \<and> block_room (fill_blocks bits limit max_blocks b h) max_blocks
    \<and> (b' = limit \<or> unat (hdr_block_count (fill_blocks bits limit max_blocks b h)) = max_blocks)"
  using assms
proof (induction bits limit max_blocks b h rule: fill_blocks.induct)
  case (1 bits limit max_blocks b h)
  let ?p = "HistoryBit bits"
  let ?acks = "run_from ?p limit b 0"
  let ?nacks = "run_from (\<lambda>b. \<not> ?p b) limit (b + ?acks) 0"
  let ?k = "\<lparr>num_ack = word_of_nat ?acks, num_nack = word_of_nat ?nacks\<rparr> :: ZDTAckBlock"
  let ?h' = "h\<lparr>hdr_blocks := (hdr_blocks h)[unat (hdr_block_count h) := ?k],
                   hdr_block_count := hdr_block_count h + 1\<rparr>"
  show ?case
  proof (cases "b < limit \<and> unat (hdr_block_count h) < max_blocks")
    case False
    then have "fill_blocks bits limit max_blocks b h = h" by (subst fill_blocks.simps) auto
    then show ?thesis using 1(2-4) False by (intro exI [of _ b]) (auto simp: block_room_def)
  next
    case True
    have nz: "\<not> (?acks = 0 \<and> ?nacks = 0)"
    proof
      assume z: "?acks = 0 \<and> ?nacks = 0"
      then have "run_from (\<lambda>b. \<not> ?p b) limit b 0 = 0" by (metis add_0_right)
      with z True run_from_props(4) [where n = 0 and p = ?p and limit = limit and b = b]
        run_from_props(4) [where n = 0 and p = "\<lambda>b. \<not> ?p b" and limit = limit and b = b]
      show False by (cases "?p b") auto
    qed
    have step: "fill_blocks bits limit max_blocks b h = fill_blocks bits limit max_blocks (b + ?acks + ?nacks) ?h'"
      by (subst fill_blocks.simps) (simp only: Let_def True nz if_True if_False simp_thms)
    have le: "b + ?acks \<le> limit" "b + ?acks + ?nacks \<le> limit" using 1(3) by (simp_all add: run_le)
    have "unat (word_of_nat ?acks :: u8) = ?acks" "unat (word_of_nat ?nacks :: u8) = ?nacks"
      by (simp_all only: unat_run)
    then have k: "decode_block ?k = map ?p [b..<b + ?acks + ?nacks]"
      using upt_add_eq_append [of b "b + ?acks" ?nacks] run_map [of ?p b limit] run_not_map [of ?p "b + ?acks" limit]
      by (simp add: decode_block_def)
    have d: "decode_header ?h' = map ?p [0..<b + ?acks + ?nacks]"
      using push_block(1) [OF 1(2), of ?k] True 1(4) k upt_add_eq_append [of 0 b "?acks + ?nacks"]
      by (simp add: add.assoc)
    have r: "block_room ?h' max_blocks" using push_block(2) [OF 1(2)] True by blast
    obtain b' where "b + ?acks + ?nacks \<le> b'" "b' \<le> limit"
      "decode_header (fill_blocks bits limit max_blocks b h) = map ?p [0..<b']"
      "block_room (fill_blocks bits limit max_blocks b h) max_blocks"
      "b' = limit \<or> unat (hdr_block_count (fill_blocks bits limit max_blocks b h)) = max_blocks"
      using 1(1) [OF True refl refl nz r le(2) d] unfolding step by blast
    moreover have "b < b'" using nz calculation(1) by linarith
    ultimately show ?thesis by (intro exI [of _ b']) simp
  qed
qed

lemma pop_block:
  assumes "block_room h n" and "hdr_block_count h > 0"
    and "num_ack (hdr_blocks h ! unat (hdr_block_count h - 1)) = 0"
  defines "h' \<equiv> h\<lparr>hdr_block_count := hdr_block_count h - 1\<rparr>"
  shows "\<exists>m. decode_header h = decode_header h' @ replicate m False" and "block_room h' n"
proof -
  have "1 \<le> hdr_block_count h" using assms(2) by (simp add: word_le_nat_alt word_less_nat_alt)
  then have c: "unat (hdr_block_count h) = Suc (unat (hdr_block_count h - 1))"
    by (simp add: unat_sub word_le_nat_alt)
  have "unat (hdr_block_count h - 1) < length (hdr_blocks h)"
    using assms(1) c by (simp add: block_room_def)
  then have "decode_header h = decode_header h' @ decode_block (hdr_blocks h ! unat (hdr_block_count h - 1))"
    unfolding decode_header_def sent_blocks_def c by (simp add: h'_def take_Suc_conv_app_nth)
  then show "\<exists>m. decode_header h = decode_header h' @ replicate m False"
    using assms(3) by (auto simp: decode_block_def)
  show "block_room h' n" using assms(1) c by (simp add: block_room_def h'_def)
qed

lemma trim_blocks_decode:
  assumes "block_room h n"
  shows "(\<exists>m. decode_header h = decode_header (trim_blocks h) @ replicate m False) \<and> block_room (trim_blocks h) n"
  using assms
proof (induction h rule: trim_blocks.induct)
  case (1 h)
  let ?h' = "h\<lparr>hdr_block_count := hdr_block_count h - 1\<rparr>"
  show ?case
  proof (cases "hdr_block_count h > 0 \<and> num_ack (hdr_blocks h ! unat (hdr_block_count h - 1)) = 0")
    case True
    then have step: "trim_blocks h = trim_blocks ?h'" by (subst trim_blocks.simps) simp
    from True pop_block [OF 1(2)] obtain m where m: "decode_header h = decode_header ?h' @ replicate m False"
      and r: "block_room ?h' n" by blast
    from 1(1) [OF True r] obtain m' where "decode_header ?h' = decode_header (trim_blocks ?h') @ replicate m' False"
      and "block_room (trim_blocks ?h') n" by blast
    with m step show ?thesis by (auto simp flip: replicate_add)
  next
    case False
    then have "trim_blocks h = h" by (subst trim_blocks.simps) auto
    then show ?thesis using 1(2) by (auto intro: exI [of _ 0])
  qed
qed

lemma fill_blocks_frame: "hdr_ack (fill_blocks bits limit max_blocks b h) = hdr_ack h"
proof (induction bits limit max_blocks b h rule: fill_blocks.induct)
  case (1 bits limit max_blocks b h)
  then show ?case by (subst fill_blocks.simps) (simp add: Let_def)
qed

lemma trim_blocks_frame: "hdr_ack (trim_blocks h) = hdr_ack h"
proof (induction h rule: trim_blocks.induct)
  case (1 h)
  then show ?case by (subst trim_blocks.simps) simp
qed

lemma Fill_decode:
  assumes "ack_wf h" and "length (hdr_blocks header) = kZDTMaxAckBlocks"
    and "ah_has_any h" and "0 < max_blocks" and "0 < reportable_cap"
  shows "hdr_ack (Fill header max_blocks reportable_cap h) = ah_highest h
    \<and> unat (hdr_block_count (Fill header max_blocks reportable_cap h)) \<le> min max_blocks kZDTMaxAckBlocks
    \<and> (\<exists>k. 0 < k \<and> k \<le> min (ah_valid_bits h) reportable_cap
         \<and> decode_header (Fill header max_blocks reportable_cap h) = map (HistoryBit (ah_bits h)) [0..<k])"
proof -
  let ?h0 = "header\<lparr>hdr_ack := ah_highest h, hdr_block_count := 0\<rparr>"
  let ?limit = "min (ah_valid_bits h) reportable_cap"
  let ?max = "min max_blocks kZDTMaxAckBlocks"
  let ?f = "fill_blocks (ah_bits h) ?limit ?max 0 ?h0"
  have F: "Fill header max_blocks reportable_cap h = trim_blocks ?f"
    using assms(3,4) by (simp add: Fill_def Let_def)
  have bit0: "HistoryBit (ah_bits h) 0" and lim: "0 < ?limit"
    using assms(1,3,5) by (auto simp: ack_wf_def)
  have "block_room ?h0 ?max" "decode_header ?h0 = map (HistoryBit (ah_bits h)) [0..<0]"
    using assms(2) by (simp_all add: block_room_def decode_header_def sent_blocks_def)
  from fill_blocks_decode [OF this(1) _ this(2), of ?limit] lim assms(4)
  obtain b where b: "0 < b" "b \<le> ?limit" "decode_header ?f = map (HistoryBit (ah_bits h)) [0..<b]"
      "block_room ?f ?max"
    by (auto simp: zdt_sizes)
  from trim_blocks_decode [OF b(4)] obtain m
    where m: "decode_header ?f = decode_header (trim_blocks ?f) @ replicate m False" "block_room (trim_blocks ?f) ?max"
    by blast
  let ?k = "length (decode_header (trim_blocks ?f))"
  have len: "?k + m = b" using arg_cong [OF m(1), of length] b(3) by simp
  have eq: "decode_header (trim_blocks ?f) = map (HistoryBit (ah_bits h)) [0..<?k]"
    using arg_cong [OF m(1), of "take ?k"] len b(3) by (simp add: take_map)
  have "?k \<noteq> 0"
  proof
    assume "?k = 0"
    then have "map (HistoryBit (ah_bits h)) [0..<b] = replicate m False" using m(1) b(3) by simp
    then have "map (HistoryBit (ah_bits h)) [0..<b] ! 0 = replicate m False ! 0" by simp
    then have "HistoryBit (ah_bits h) 0 = False" using b(1) len \<open>?k = 0\<close> by simp
    with bit0 show False by simp
  qed
  then show ?thesis
    using F eq len b(2) m(2) fill_blocks_frame trim_blocks_frame
    by (auto simp: block_room_def intro!: exI [of _ ?k])
qed

section \<open>Properties\<close>

text \<open>
  C9. The ack history is exact. Record any datagrams, in any order and with duplicates, as long as
  each is within half a period of the newest so far (\<open>xs\<close> lists their full sequence numbers, the
  latest arrival first): afterwards \<open>highest()\<close> is the newest sequence, and for each of the last 1024
  positions the bit is set if and only if that datagram arrived.
\<close>

theorem ack_history_exact:
  assumes "paced xs" and "xs \<noteq> []"
  shows "let h = foldr (\<lambda>x h. Record (word_of_nat x) h) xs ZDTAckHistory_init
     in ah_has_any h \<and> ah_highest h = word_of_nat (Max (set xs))
      \<and> (\<forall>b < kZDTAckHistoryBits. HistoryBit (ah_bits h) b \<longleftrightarrow> (\<exists>x \<in> set xs. x + b = Max (set xs)))"
  using tracks_foldr [OF assms(1)] assms(2) by (simp add: tracks_def Let_def)

theorem ack_history_exact_witness:
  "paced [65534, 65540, 65534, 65530] \<and>
   (let h = foldr (\<lambda>x h. Record (word_of_nat x) h) [65534, 65540, 65534, 65530] ZDTAckHistory_init
     in ah_has_any h \<and> ah_highest h = word_of_nat (Max (set [65534, 65540, 65534, 65530]))
      \<and> (\<forall>b < kZDTAckHistoryBits. HistoryBit (ah_bits h) b
           \<longleftrightarrow> (\<exists>x \<in> set [65534, 65540, 65534, 65530]. x + b = Max (set [65534, 65540, 65534, 65530]))))"
proof -
  have p: "paced [65534, 65540, 65534, 65530]" by simp
  show ?thesis using ack_history_exact [OF p] p by blast
qed

text \<open>
  C17. The encoded acknowledgment is truthful and positional. Filled from any well-formed history
  that recorded something, a header acknowledges the newest sequence, has no more blocks than
  asked for (and never more than 24), and its blocks, read as runs of received and missing
  walking back from \<open>ack\<close>, spell out a non-empty initial segment of the history no longer than
  the reported range. So a packet is reported received only if it was, and reported
  missing only if it had not arrived.
\<close>

theorem fill_is_truthful:
  assumes "ack_wf h" and "ah_has_any h" and "length (hdr_blocks header) = kZDTMaxAckBlocks"
    and "0 < max_blocks" and "0 < reportable_cap"
  shows "hdr_ack (Fill header max_blocks reportable_cap h) = ah_highest h
    \<and> unat (hdr_block_count (Fill header max_blocks reportable_cap h)) \<le> min max_blocks kZDTMaxAckBlocks
    \<and> (\<exists>k. 0 < k \<and> k \<le> min (ah_valid_bits h) reportable_cap
         \<and> decode_header (Fill header max_blocks reportable_cap h) = map (HistoryBit (ah_bits h)) [0..<k])"
  using Fill_decode [OF assms(1,3,2,4,5)] .

theorem fill_is_truthful_witness:
  "\<exists>k. 0 < k \<and> k \<le> 1 \<and> decode_header (Fill ZDTHeader_init 24 1024 (Record 7 ZDTAckHistory_init))
     = map (HistoryBit (ah_bits (Record 7 ZDTAckHistory_init))) [0..<k]"
proof -
  have "ack_wf (Record 7 ZDTAckHistory_init)" by (rule ack_wf_Record [OF ack_wf_init])
  moreover have "ah_has_any (Record 7 ZDTAckHistory_init)" "ah_valid_bits (Record 7 ZDTAckHistory_init) = 1"
    by (simp_all add: Record_def ZDTAckHistory_init_def)
  moreover have "length (hdr_blocks ZDTHeader_init) = kZDTMaxAckBlocks" by (simp add: ZDTHeader_init_def)
  ultimately show ?thesis
    using fill_is_truthful [of "Record 7 ZDTAckHistory_init" ZDTHeader_init 24 1024] by auto
qed

end
