(* ===== verification/Double_Round.thy ===== *)
theory Double_Round
  imports Complex_Main "HOL-Library.Log_Nat"
begin

text \<open>
  The \<open>double\<close> arithmetic of the congestion code. A \<open>double\<close> is a rational number that is
  a fixed point of \<open>double_round\<close>, rounding to 53 significant bits, to nearest and ties to
  even; every operation of the source is the exact operation followed by \<open>double_round\<close>. The
  exponent range is not bounded: the values are round trips in milliseconds and window sizes,
  nowhere near the limits of the type, and no division by zero occurs.

  The locale \<open>ieee_rounding\<close> states what the proofs use of the rounding (it is
  monotone, idempotent, odd, and exact on the integers up to \<open>2 ^ 53\<close>), and
  \<open>double_round\<close> is shown to satisfy it.
\<close>

section \<open>Rounding to an integer, ties to even\<close>

definition round_half_even :: "rat \<Rightarrow> int" where
  "round_half_even y =
     (let f = \<lfloor>y\<rfloor>; r = y - of_int f
      in if r < 1 / 2 then f else if r > 1 / 2 then f + 1 else if even f then f else f + 1)"

lemma round_half_even_bounds: "\<lfloor>y\<rfloor> \<le> round_half_even y \<and> round_half_even y \<le> \<lfloor>y\<rfloor> + 1"
  by (simp add: round_half_even_def Let_def)

lemma round_half_even_int [simp]: "round_half_even (of_int k) = k"
  by (simp add: round_half_even_def)

lemma round_half_even_mono:
  assumes "y \<le> z"
  shows "round_half_even y \<le> round_half_even z"
proof (cases "\<lfloor>y\<rfloor> = \<lfloor>z\<rfloor>")
  case True
  then show ?thesis using assms by (simp add: round_half_even_def Let_def)
next
  case False
  then have "\<lfloor>y\<rfloor> + 1 \<le> \<lfloor>z\<rfloor>" using floor_mono [OF assms] by simp
  then show ?thesis using round_half_even_bounds [of y] round_half_even_bounds [of z] by linarith
qed

section \<open>Rounding to 53 bits\<close>

text \<open>The exponent of a positive rational: \<open>2 powi e \<le> x < 2 powi (e + 1)\<close>.\<close>

definition exponent_of :: "rat \<Rightarrow> int" where
  "exponent_of x =
     (let (p, q) = quotient_of x; e = bitlen p - bitlen q
      in if 2 powi e \<le> x then e else e - 1)"

definition round_positive :: "rat \<Rightarrow> rat" where
  "round_positive x =
     (let u = 2 powi (exponent_of x - 52) in of_int (round_half_even (x / u)) * u)"

definition double_round :: "rat \<Rightarrow> rat" where
  "double_round x = (if x = 0 then 0 else if x > 0 then round_positive x else - round_positive (- x))"

lemma bitlen_rat_bounds:
  assumes "0 < (p :: int)"
  shows "2 powi (bitlen p - 1) \<le> (of_int p :: rat)" and "(of_int p :: rat) < 2 powi (bitlen p)"
proof -
  have b: "2 ^ nat (bitlen p - 1) \<le> p \<and> p < 2 ^ nat (bitlen p)" using assms by (rule bitlen_bounds)
  have "0 < bitlen p"
  proof (rule ccontr)
    assume "\<not> 0 < bitlen p"
    then have "p < 1" using b by simp
    with assms show False by simp
  qed
  then have nn: "0 \<le> bitlen p - 1" "0 \<le> bitlen p" by simp_all
  have "(of_int (2 ^ nat (bitlen p - 1)) :: rat) \<le> of_int p" "(of_int p :: rat) < of_int (2 ^ nat (bitlen p))"
    using b by (simp_all only: of_int_le_iff of_int_less_iff)
  then show "2 powi (bitlen p - 1) \<le> (of_int p :: rat)" and "(of_int p :: rat) < 2 powi (bitlen p)"
    using nn by (simp_all add: power_int_def)
qed

lemma exponent_of_bounds:
  assumes "0 < x"
  shows "2 powi exponent_of x \<le> x" and "x < 2 powi (exponent_of x + 1)"
proof -
  obtain p q where pq: "quotient_of x = (p, q)" by fastforce
  have q: "0 < q" using quotient_of_denom_pos [OF pq] .
  have x: "x = of_int p / of_int q" using quotient_of_div [OF pq] .
  have p: "0 < p" using assms q by (simp add: x zero_less_divide_iff)
  note bp = bitlen_rat_bounds [OF p] and bq = bitlen_rat_bounds [OF q]
  let ?e = "bitlen p - bitlen q"
  have up: "x < 2 powi (?e + 1)"
  proof -
    have "x \<le> of_int p / 2 powi (bitlen q - 1)" using bq(1) p q by (simp add: x frac_le)
    also have "\<dots> < 2 powi bitlen p / 2 powi (bitlen q - 1)" using bp(2) by (simp add: divide_strict_right_mono)
    also have "\<dots> = 2 powi (?e + 1)" by (simp add: algebra_simps flip: power_int_diff)
    finally show ?thesis .
  qed
  have lo: "2 powi (?e - 1) \<le> x"
  proof -
    have "2 powi (?e - 1) = 2 powi (bitlen p - 1) / (2 powi bitlen q :: rat)"
      by (simp add: algebra_simps flip: power_int_diff)
    also have "\<dots> \<le> of_int p / 2 powi bitlen q" using bp(1) by (simp add: divide_right_mono)
    also have "\<dots> \<le> x" using bq(2) p q by (simp add: x frac_le less_imp_le)
    finally show ?thesis .
  qed
  show "2 powi exponent_of x \<le> x" and "x < 2 powi (exponent_of x + 1)"
    using up lo by (simp_all add: exponent_of_def pq Let_def)
qed

lemma powi_less_imp:
  assumes "(2 powi a :: rat) < 2 powi b"
  shows "a < b"
proof (rule ccontr)
  assume "\<not> a < b"
  then have "(2 powi b :: rat) \<le> 2 powi a" by (intro power_int_increasing) simp_all
  with assms show False by simp
qed

lemma exponent_of_unique:
  assumes "2 powi e \<le> x" and "x < 2 powi (e + 1)"
  shows "exponent_of x = e"
proof -
  have "0 < (2 powi e :: rat)" by simp
  then have "0 < x" using assms(1) by (rule less_le_trans)
  note b = exponent_of_bounds [OF this]
  have "(2 powi e :: rat) < 2 powi (exponent_of x + 1)" "(2 powi exponent_of x :: rat) < 2 powi (e + 1)"
    using assms b by (blast intro: le_less_trans)+
  then have "e < exponent_of x + 1" "exponent_of x < e + 1" by (blast intro: powi_less_imp)+
  then show ?thesis by simp
qed

text \<open>Scaled by the unit in the last place of its binade, a number lies in \<open>[2 ^ 52, 2 ^ 53)\<close>.\<close>

lemma scaled_bounds:
  assumes "2 powi e \<le> x" and "x < 2 powi (e + 1)"
  shows "2 ^ 52 \<le> x / 2 powi (e - 52)" and "x / 2 powi (e - 52) < (2 ^ 53 :: rat)"
proof -
  have "(2 powi e :: rat) = 2 ^ 52 * 2 powi (e - 52)" "(2 powi (e + 1) :: rat) = 2 ^ 53 * 2 powi (e - 52)"
    by (simp_all add: power_int_add power_int_diff)
  then show "2 ^ 52 \<le> x / 2 powi (e - 52)" and "x / 2 powi (e - 52) < (2 ^ 53 :: rat)"
    using assms by (simp_all add: pos_le_divide_eq pos_divide_less_eq)
qed

lemma round_positive_at:
  assumes "2 powi e \<le> x" and "x < 2 powi (e + 1)"
  shows "round_positive x = of_int (round_half_even (x / 2 powi (e - 52))) * 2 powi (e - 52)"
    and "2 powi e \<le> round_positive x" and "round_positive x \<le> 2 powi (e + 1)"
proof -
  let ?u = "2 powi (e - 52) :: rat"
  let ?k = "round_half_even (x / ?u)"
  show r: "round_positive x = of_int ?k * ?u"
    using exponent_of_unique [OF assms] by (simp add: round_positive_def Let_def)
  have "round_half_even (of_int (2 ^ 52)) \<le> ?k" "?k \<le> round_half_even (of_int (2 ^ 53))"
    using scaled_bounds [OF assms] by (intro round_half_even_mono; simp)+
  then have "2 ^ 52 \<le> ?k" "?k \<le> 2 ^ 53" by (simp_all only: round_half_even_int)
  then have "(of_int (2 ^ 52) :: rat) \<le> of_int ?k" "(of_int ?k :: rat) \<le> of_int (2 ^ 53)"
    by (simp_all only: of_int_le_iff)
  then have "2 ^ 52 * ?u \<le> of_int ?k * ?u" "of_int ?k * ?u \<le> 2 ^ 53 * ?u"
    by (simp_all add: mult_right_mono)
  moreover have "(2 powi e :: rat) = 2 ^ 52 * ?u" "(2 powi (e + 1) :: rat) = 2 ^ 53 * ?u"
    by (simp_all add: power_int_add power_int_diff)
  ultimately show "2 powi e \<le> round_positive x" and "round_positive x \<le> 2 powi (e + 1)"
    unfolding r by simp_all
qed

lemma round_positive_pos: "0 < x \<Longrightarrow> 0 < round_positive x"
  using round_positive_at(2) [OF exponent_of_bounds] by (meson less_le_trans zero_less_power_int zero_less_numeral)

lemma round_positive_mono:
  assumes "0 < x" and "x \<le> y"
  shows "round_positive x \<le> round_positive y"
proof -
  have y: "0 < y" using assms by simp
  note bx = exponent_of_bounds [OF assms(1)] and ey = exponent_of_bounds [OF y]
  show ?thesis
  proof (cases "exponent_of x = exponent_of y")
    case True
    let ?u = "2 powi (exponent_of y - 52) :: rat"
    have "round_half_even (x / ?u) \<le> round_half_even (y / ?u)"
      using assms(2) by (intro round_half_even_mono divide_right_mono) simp_all
    then show ?thesis
      using True round_positive_at(1) [OF bx] round_positive_at(1) [OF ey] by (simp add: mult_right_mono)
  next
    case False
    have "(2 powi exponent_of x :: rat) < 2 powi (exponent_of y + 1)"
      using bx(1) assms(2) ey(2) by linarith
    then have "exponent_of x + 1 \<le> exponent_of y" using False powi_less_imp by fastforce
    then have "(2 powi (exponent_of x + 1) :: rat) \<le> 2 powi exponent_of y" by (simp add: power_int_increasing)
    then show ?thesis using round_positive_at(3) [OF bx] round_positive_at(2) [OF ey] by linarith
  qed
qed

text \<open>A number with a 53-bit significand is not changed.\<close>

lemma round_positive_exact:
  assumes "2 powi e \<le> x" and "x < 2 powi (e + 1)" and "x = of_int k * 2 powi (e - 52)"
  shows "round_positive x = x"
  using round_positive_at(1) [OF assms(1,2)] assms(3) by simp

lemma round_positive_idem:
  assumes "0 < x"
  shows "round_positive (round_positive x) = round_positive x"
proof -
  note b = exponent_of_bounds [OF assms]
  let ?e = "exponent_of x"
  note r = round_positive_at [OF b]
  show ?thesis
  proof (cases "round_positive x < 2 powi (?e + 1)")
    case True
    then show ?thesis using round_positive_exact [OF r(2)] r(1) by blast
  next
    case False
    then have eq: "round_positive x = 2 powi (?e + 1)" using r(3) by simp
    show ?thesis unfolding eq
      by (rule round_positive_exact [of "?e + 1" _ "2 ^ 52"]) (simp_all add: power_int_add power_int_diff)
  qed
qed

lemma round_positive_of_int:
  assumes "0 < n" and "n \<le> 2 ^ 53"
  shows "round_positive (of_int n) = of_int n"
proof -
  let ?e = "exponent_of (of_int n)"
  have b: "2 powi ?e \<le> (of_int n :: rat)" "(of_int n :: rat) < 2 powi (?e + 1)"
    using exponent_of_bounds [of "of_int n"] assms(1) by simp_all
  show ?thesis
  proof (cases "?e \<le> 52")
    case True
    have "(of_int n :: rat) = of_int (n * 2 ^ nat (52 - ?e)) * 2 powi (?e - 52)"
      using True by (simp add: power_int_def nat_diff_distrib power_diff field_simps flip: power_add)
    then show ?thesis by (rule round_positive_exact [OF b])
  next
    case False
    have "(of_int n :: rat) \<le> 2 ^ 53" using assms(2) by (metis of_int_le_iff of_int_numeral of_int_power)
    then have "(2 powi ?e :: rat) \<le> 2 powi 53" using b(1) by (simp add: power_int_def)
    also have "\<dots> < 2 powi 54" by (simp add: power_int_def)
    finally have e: "?e = 53" using False powi_less_imp by fastforce
    then have "n = 2 ^ 53" using b(1) assms(2) by (simp add: power_int_def)
    then show ?thesis using round_positive_exact [OF b, of "2 ^ 52"] e by (simp add: power_int_def)
  qed
qed

section \<open>The contract of the rounding\<close>

locale ieee_rounding =
  fixes rnd :: "rat \<Rightarrow> rat"
  assumes rnd_mono: "x \<le> y \<Longrightarrow> rnd x \<le> rnd y"
    and rnd_idem: "rnd (rnd x) = rnd x"
    and rnd_int: "\<bar>n\<bar> \<le> 2 ^ 53 \<Longrightarrow> rnd (of_int n) = of_int n"
begin

lemma rnd_ge: "rnd c = c \<Longrightarrow> c \<le> x \<Longrightarrow> c \<le> rnd x"
  using rnd_mono [of c x] by simp

lemma rnd_le: "rnd c = c \<Longrightarrow> x \<le> c \<Longrightarrow> rnd x \<le> c"
  using rnd_mono [of x c] by simp

lemma rnd_zero [simp]: "rnd 0 = 0"
  using rnd_int [of 0] by simp

lemma rnd_nonneg: "0 \<le> x \<Longrightarrow> 0 \<le> rnd x"
  by (rule rnd_ge) simp_all

lemma rnd_add_ge: "rnd x = x \<Longrightarrow> 0 \<le> y \<Longrightarrow> x \<le> rnd (x + y)"
  by (rule rnd_ge) simp_all

lemma rnd_scale_le: "rnd x = x \<Longrightarrow> 0 \<le> x \<Longrightarrow> f \<le> 1 \<Longrightarrow> rnd (x * f) \<le> x"
  by (rule rnd_le) (simp_all add: mult_left_le)

end

lemma double_round_mono:
  assumes "x \<le> y"
  shows "double_round x \<le> double_round y"
proof -
  have "0 < z \<Longrightarrow> 0 < round_positive z" for z by (rule round_positive_pos)
  then have nn: "0 < z \<Longrightarrow> 0 \<le> round_positive z" for z by (simp add: less_imp_le)
  consider "0 < x" | "x \<le> 0" "0 \<le> y" | "y < 0" by linarith
  then show ?thesis
  proof cases
    case 1
    then show ?thesis using round_positive_mono [OF 1 assms] assms by (simp add: double_round_def)
  next
    case 2
    then have "double_round x \<le> 0" "0 \<le> double_round y" using nn [of "- x"] nn [of y] by (auto simp: double_round_def)
    then show ?thesis by linarith
  next
    case 3
    then show ?thesis using round_positive_mono [of "- y" "- x"] assms by (simp add: double_round_def)
  qed
qed

interpretation dbl: ieee_rounding double_round
proof
  show "double_round x \<le> double_round y" if "x \<le> y" for x y using that by (rule double_round_mono)
  show "double_round (double_round x) = double_round x" for x
    using round_positive_pos [of x] round_positive_pos [of "- x"] round_positive_idem [of x] round_positive_idem [of "- x"]
    by (auto simp: double_round_def)
  show "double_round (of_int n) = of_int n" if "\<bar>n\<bar> \<le> 2 ^ 53" for n
  proof -
    consider "n = 0" | "0 < n" | "n < 0" by linarith
    then show ?thesis
      using that round_positive_of_int [of n] round_positive_of_int [of "- n"]
      by cases (simp_all add: double_round_def)
  qed
qed

end
