(* ===== verification/Zdt_Congestion.thy ===== *)
theory Zdt_Congestion
  imports Zdt_Wire Double_Round
begin

text \<open>
  The round-trip estimator and the congestion window of the datagram transport,
  \<open>backends/zdt/zdt_congestion.h\<close> and \<open>zdt_congestion.cc\<close>. Times and durations of the steady
  clock are integers in nanoseconds, \<open>std::chrono::milliseconds\<close> integers in
  milliseconds, and every \<open>double\<close> operation is rounded by \<open>double_round\<close>.
\<close>

section \<open>Constants\<close>

type_synonym TimePoint = int

definition kZDTRttMinWindowMs :: int where "kZDTRttMinWindowMs = 10000"
definition kZDTQueueingRttRatio :: rat where "kZDTQueueingRttRatio = double_round (125 / 100)"
definition kZDTQueueingBackoff :: rat where "kZDTQueueingBackoff = double_round (85 / 100)"
definition kZDTQueueingTimeoutBackoff :: rat where "kZDTQueueingTimeoutBackoff = double_round (5 / 10)"
definition kZDTLossTimeoutBackoff :: rat where "kZDTLossTimeoutBackoff = double_round (9 / 10)"
definition kZDTMinWindow :: rat where "kZDTMinWindow = 2"
definition kZDTQueueingWindowFloorMs :: int where "kZDTQueueingWindowFloorMs = 10"
definition kZDTTailProbeFloorMs :: int where "kZDTTailProbeFloorMs = 10"

definition ns_per_ms :: int where "ns_per_ms = 1000000"

definition Clamp :: "'a::linorder \<Rightarrow> 'a \<Rightarrow> 'a \<Rightarrow> 'a" where
  "Clamp v lo hi = (if v < lo then lo else if hi < v then hi else v)"

section \<open>Round-trip estimator\<close>

record ZDTRttEstimator =
  rtt_srtt_ms :: rat
  rtt_rttvar_ms :: rat
  rtt_rtt_min_ms :: rat
  rtt_rtt_min_stamp :: TimePoint
  rtt_window_min_ms :: rat
  rtt_collecting_min_ms :: rat
  rtt_window_start :: TimePoint
  rtt_has_rtt :: bool
  rtt_rto :: int

definition ZDTRttEstimator_init :: ZDTRttEstimator where
  "ZDTRttEstimator_init = \<lparr>rtt_srtt_ms = 0, rtt_rttvar_ms = 0, rtt_rtt_min_ms = 0,
     rtt_rtt_min_stamp = 0, rtt_window_min_ms = 0, rtt_collecting_min_ms = 0,
     rtt_window_start = 0, rtt_has_rtt = False, rtt_rto = 200\<rparr>"

definition Rtt_Reset :: "int \<Rightarrow> ZDTRttEstimator \<Rightarrow> ZDTRttEstimator" where
  "Rtt_Reset rto r = r\<lparr>rtt_rto := rto\<rparr>"

definition IsQueueing :: "ZDTRttEstimator \<Rightarrow> bool" where
  "IsQueueing r \<longleftrightarrow> rtt_has_rtt r \<and> rtt_rtt_min_ms r > 0 \<and> rtt_window_min_ms r > 0
     \<and> rtt_window_min_ms r > double_round (rtt_rtt_min_ms r * kZDTQueueingRttRatio)"

text \<open>\<open>duration<double, std::milli>\<close> of a nanosecond count, and its comparison with one.\<close>

definition ms_of_ns :: "int \<Rightarrow> rat" where
  "ms_of_ns d = double_round (double_round (of_int d) / of_int ns_per_ms)"

definition ns_at_least_ms :: "int \<Rightarrow> rat \<Rightarrow> bool" where
  "ns_at_least_ms d ms \<longleftrightarrow> double_round (of_int d) \<ge> double_round (ms * of_int ns_per_ms)"

definition OnSample_first :: "rat \<Rightarrow> TimePoint \<Rightarrow> ZDTRttEstimator \<Rightarrow> ZDTRttEstimator" where
  "OnSample_first ms now r = r\<lparr>rtt_has_rtt := True, rtt_srtt_ms := ms,
     rtt_rttvar_ms := double_round (ms / 2), rtt_rtt_min_ms := ms, rtt_rtt_min_stamp := now,
     rtt_collecting_min_ms := ms, rtt_window_start := now\<rparr>"

definition OnSample_next :: "rat \<Rightarrow> TimePoint \<Rightarrow> ZDTRttEstimator \<Rightarrow> ZDTRttEstimator" where
  "OnSample_next ms now r =
     (let stale = now - rtt_rtt_min_stamp r > kZDTRttMinWindowMs * ns_per_ms;
          r = (if ms < rtt_rtt_min_ms r \<or> rtt_rtt_min_ms r \<le> 0 \<or> stale
               then r\<lparr>rtt_rtt_min_ms := ms, rtt_rtt_min_stamp := now\<rparr> else r);
          rttvar = double_round (double_round (3 / 4 * rtt_rttvar_ms r)
                     + double_round (1 / 4 * \<bar>double_round (rtt_srtt_ms r - ms)\<bar>));
          srtt = double_round (double_round (7 / 8 * rtt_srtt_ms r) + double_round (1 / 8 * ms));
          r = r\<lparr>rtt_rttvar_ms := rttvar, rtt_srtt_ms := srtt\<rparr>;
          window_ms = max (double_round (2 * srtt)) (of_int kZDTQueueingWindowFloorMs)
      in if ns_at_least_ms (now - rtt_window_start r) window_ms
         then r\<lparr>rtt_window_min_ms := rtt_collecting_min_ms r, rtt_collecting_min_ms := ms,
                rtt_window_start := now\<rparr>
         else if ms < rtt_collecting_min_ms r then r\<lparr>rtt_collecting_min_ms := ms\<rparr> else r)"

text \<open>\<open>static_cast<long long>\<close> truncates towards zero.\<close>

definition truncate_toward_zero :: "rat \<Rightarrow> int" where
  "truncate_toward_zero x = (if 0 \<le> x then \<lfloor>x\<rfloor> else \<lceil>x\<rceil>)"

definition OnSample :: "int \<Rightarrow> TimePoint \<Rightarrow> int \<Rightarrow> int \<Rightarrow> ZDTRttEstimator \<Rightarrow> ZDTRttEstimator" where
  "OnSample sample now rto_min rto_max r =
     (let ms = ms_of_ns sample
      in if ms < 0 then r
         else let r = (if \<not> rtt_has_rtt r then OnSample_first ms now r else OnSample_next ms now r);
                  rto = truncate_toward_zero
                          (double_round (rtt_srtt_ms r + double_round (4 * rtt_rttvar_ms r)))
              in r\<lparr>rtt_rto := Clamp rto rto_min rto_max\<rparr>)"

section \<open>Congestion window\<close>

record ZDTCongestionController =
  cc_cwnd :: rat
  cc_ssthresh :: rat
  cc_loss_recovery_until :: WireSeq
  cc_in_loss_recovery :: bool

definition ZDTCongestionController_init :: ZDTCongestionController where
  "ZDTCongestionController_init = \<lparr>cc_cwnd = 10, cc_ssthresh = 1000000000,
     cc_loss_recovery_until = 0, cc_in_loss_recovery = False\<rparr>"

definition OnAckArrived :: "WireSeq \<Rightarrow> ZDTCongestionController \<Rightarrow> ZDTCongestionController" where
  "OnAckArrived peer_ack c =
     (if cc_in_loss_recovery c \<and> \<not> SeqLess peer_ack (cc_loss_recovery_until c)
      then c\<lparr>cc_in_loss_recovery := False\<rparr> else c)"

definition Reduce :: "rat \<Rightarrow> WireSeq \<Rightarrow> ZDTCongestionController \<Rightarrow> ZDTCongestionController" where
  "Reduce factor next_seq c =
     (if cc_in_loss_recovery c then c
      else let cwnd = double_round (cc_cwnd c * factor)
           in c\<lparr>cc_in_loss_recovery := True, cc_loss_recovery_until := next_seq,
                cc_ssthresh := cc_cwnd c,
                cc_cwnd := (if cwnd < kZDTMinWindow then kZDTMinWindow else cwnd)\<rparr>)"

definition OnAcked ::
  "int \<Rightarrow> ZDTRttEstimator \<Rightarrow> WireSeq \<Rightarrow> int \<Rightarrow> ZDTCongestionController \<Rightarrow> ZDTCongestionController" where
  "OnAcked acked_datagrams rtt next_seq cap c =
     (if acked_datagrams \<le> 0 then c
      else if IsQueueing rtt \<and> cc_cwnd c > double_round (2 * kZDTMinWindow)
      then Reduce kZDTQueueingBackoff next_seq c
      else let cwnd = (if cc_cwnd c < cc_ssthresh c
                       then double_round (cc_cwnd c + of_int acked_datagrams)
                       else double_round (cc_cwnd c + double_round (of_int acked_datagrams / cc_cwnd c)));
               cap_d = of_int cap
           in c\<lparr>cc_cwnd := (if cwnd > cap_d then cap_d else cwnd)\<rparr>)"

definition OnRetransmitTimeout ::
  "ZDTRttEstimator \<Rightarrow> WireSeq \<Rightarrow> ZDTCongestionController \<Rightarrow> ZDTCongestionController" where
  "OnRetransmitTimeout rtt next_seq c =
     Reduce (if IsQueueing rtt then kZDTQueueingTimeoutBackoff else kZDTLossTimeoutBackoff) next_seq c"

definition Window :: "int \<Rightarrow> ZDTCongestionController \<Rightarrow> int" where
  "Window cap c = (let w = truncate_toward_zero (cc_cwnd c) in if w > cap then cap else w)"

section \<open>Invariants\<close>

text \<open>The window is a \<open>double\<close>, at least two datagrams and at most the cap (or the initial ten).\<close>

definition cc_ok :: "int \<Rightarrow> ZDTCongestionController \<Rightarrow> bool" where
  "cc_ok cap c \<longleftrightarrow> double_round (cc_cwnd c) = cc_cwnd c \<and> kZDTMinWindow \<le> cc_cwnd c
     \<and> cc_cwnd c \<le> of_int (max 10 cap)"

lemma double_round_small_int: "double_round (of_int n) = of_int n" if "\<bar>n\<bar> \<le> 2 ^ 31" for n
proof -
  have "\<bar>n\<bar> \<le> 2 ^ 53" using that by (rule order_trans) simp
  then show ?thesis by (rule dbl.rnd_int)
qed

lemma double_round_numerals [simp]: "double_round 2 = 2" "double_round 10 = 10" "double_round 4 = 4" "double_round 1 = 1"
  using double_round_small_int [of 2] double_round_small_int [of 10] double_round_small_int [of 4]
    double_round_small_int [of 1] by simp_all

lemma backoff_le_one:
  "kZDTQueueingBackoff \<le> 1" "kZDTQueueingTimeoutBackoff \<le> 1" "kZDTLossTimeoutBackoff \<le> 1"
  by (simp_all add: kZDTQueueingBackoff_def kZDTQueueingTimeoutBackoff_def kZDTLossTimeoutBackoff_def dbl.rnd_le)

lemma cc_ok_init: "cc_ok cap ZDTCongestionController_init"
  by (simp add: cc_ok_def ZDTCongestionController_init_def kZDTMinWindow_def)

lemma Reduce_bounds:
  assumes "cc_ok cap c" and "f \<le> 1"
  shows "cc_ok cap (Reduce f next_seq c)" and "cc_cwnd (Reduce f next_seq c) \<le> cc_cwnd c"
proof -
  have "double_round (cc_cwnd c * f) \<le> cc_cwnd c"
    using assms by (intro dbl.rnd_scale_le) (auto simp: cc_ok_def kZDTMinWindow_def)
  then show "cc_ok cap (Reduce f next_seq c)" and "cc_cwnd (Reduce f next_seq c) \<le> cc_cwnd c"
    using assms(1) by (auto simp: cc_ok_def Reduce_def Let_def kZDTMinWindow_def dbl.rnd_idem)
qed

lemma OnAcked_grow:
  assumes "cc_ok cap c" and "2 \<le> cap" and "cap \<le> 2 ^ 31" and "0 < n"
    and "\<not> (IsQueueing rtt \<and> cc_cwnd c > double_round (2 * kZDTMinWindow))"
  shows "cc_ok cap (OnAcked n rtt next_seq cap c)"
    and "cc_cwnd c \<le> of_int cap \<Longrightarrow> cc_cwnd c \<le> cc_cwnd (OnAcked n rtt next_seq cap c)"
    and "cc_cwnd (OnAcked n rtt next_seq cap c) \<le> of_int cap"
proof -
  let ?g = "if cc_cwnd c < cc_ssthresh c then double_round (cc_cwnd c + of_int n)
            else double_round (cc_cwnd c + double_round (of_int n / cc_cwnd c))"
  have c: "double_round (cc_cwnd c) = cc_cwnd c" "2 \<le> cc_cwnd c"
    using assms(1) by (simp_all add: cc_ok_def kZDTMinWindow_def)
  have n: "\<not> n \<le> 0" using assms(4) by simp
  have r: "cc_cwnd (OnAcked n rtt next_seq cap c) = (if ?g > of_int cap then of_int cap else ?g)"
    unfolding OnAcked_def if_not_P [OF n] if_not_P [OF assms(5)] Let_def by simp
  have cap: "double_round (of_int cap) = of_int cap" using assms(2,3) by (intro double_round_small_int) simp
  have "0 \<le> double_round (of_int n / cc_cwnd c)" using c assms(4) by (intro dbl.rnd_nonneg) simp
  then have g: "cc_cwnd c \<le> ?g" using c(1) assms(4) by (auto intro!: dbl.rnd_add_ge)
  then show "cc_cwnd c \<le> of_int cap \<Longrightarrow> cc_cwnd c \<le> cc_cwnd (OnAcked n rtt next_seq cap c)"
    and "cc_cwnd (OnAcked n rtt next_seq cap c) \<le> of_int cap" unfolding r by simp_all
  have "2 \<le> ?g" using g c(2) by linarith
  then show "cc_ok cap (OnAcked n rtt next_seq cap c)"
    using assms(2) cap unfolding cc_ok_def r
    by (auto simp: dbl.rnd_idem kZDTMinWindow_def)
qed

lemma cc_ok_OnAcked:
  assumes "cc_ok cap c" and "2 \<le> cap" and "cap \<le> 2 ^ 31"
  shows "cc_ok cap (OnAcked n rtt next_seq cap c)"
proof (cases "n \<le> 0 \<or> (IsQueueing rtt \<and> cc_cwnd c > double_round (2 * kZDTMinWindow))")
  case True
  then show ?thesis using assms Reduce_bounds(1) [OF assms(1) backoff_le_one(1)] by (auto simp: OnAcked_def)
next
  case False
  then show ?thesis using OnAcked_grow(1) [OF assms] by simp
qed

lemma OnAcked_in_recovery:
  assumes "cc_ok cap c" and "2 \<le> cap" and "cap \<le> 2 ^ 31" and "cc_in_loss_recovery c" and "cc_cwnd c \<le> of_int cap"
  shows "cc_cwnd c \<le> cc_cwnd (OnAcked n rtt next_seq cap c)"
    and "cc_cwnd (OnAcked n rtt next_seq cap c) \<le> of_int cap"
proof -
  have "cc_cwnd c \<le> cc_cwnd (OnAcked n rtt next_seq cap c) \<and> cc_cwnd (OnAcked n rtt next_seq cap c) \<le> of_int cap"
  proof (cases "n \<le> 0 \<or> (IsQueueing rtt \<and> cc_cwnd c > double_round (2 * kZDTMinWindow))")
    case True
    then show ?thesis using assms(4,5) by (auto simp: OnAcked_def Reduce_def)
  next
    case False
    then show ?thesis using OnAcked_grow(2,3) [OF assms(1-3)] assms(5) by simp
  qed
  then show "cc_cwnd c \<le> cc_cwnd (OnAcked n rtt next_seq cap c)"
    and "cc_cwnd (OnAcked n rtt next_seq cap c) \<le> of_int cap" by simp_all
qed

lemma OnAcked_recovery_fields:
  "cc_in_loss_recovery c \<Longrightarrow> cc_in_loss_recovery (OnAcked n rtt next_seq cap c)
     \<and> cc_loss_recovery_until (OnAcked n rtt next_seq cap c) = cc_loss_recovery_until c"
  by (simp add: OnAcked_def Reduce_def Let_def)

section \<open>Sequences of events\<close>

datatype cc_event =
  AckArrived WireSeq | Acked int ZDTRttEstimator WireSeq | RetransmitTimeout ZDTRttEstimator WireSeq

fun cc_step :: "int \<Rightarrow> ZDTCongestionController \<Rightarrow> cc_event \<Rightarrow> ZDTCongestionController" where
  "cc_step cap c (AckArrived s) = OnAckArrived s c"
| "cc_step cap c (Acked n rtt s) = OnAcked n rtt s cap c"
| "cc_step cap c (RetransmitTimeout rtt s) = OnRetransmitTimeout rtt s c"

lemma cc_ok_step: "cc_ok cap c \<Longrightarrow> 2 \<le> cap \<Longrightarrow> cap \<le> 2 ^ 31 \<Longrightarrow> cc_ok cap (cc_step cap c ev)"
  by (cases ev)
    (auto simp: OnRetransmitTimeout_def intro!: cc_ok_OnAcked Reduce_bounds(1) backoff_le_one,
     simp add: OnAckArrived_def cc_ok_def)

lemma cc_ok_run: "cc_ok cap c \<Longrightarrow> 2 \<le> cap \<Longrightarrow> cap \<le> 2 ^ 31 \<Longrightarrow> cc_ok cap (foldl (cc_step cap) c evs)"
  by (induction evs arbitrary: c) (simp_all add: cc_ok_step)

text \<open>
  C18. The congestion window always permits progress and never exceeds its cap. Whatever acks,
  round trips and timeouts occur in whatever order, the number of datagrams allowed in flight
  stays between 2 and the cap (for any cap from 2 up).
\<close>

theorem congestion_window_bounds:
  assumes "2 \<le> cap" and "cap \<le> 2 ^ 31"
  shows "2 \<le> Window cap (foldl (cc_step cap) ZDTCongestionController_init evs)
     \<and> Window cap (foldl (cc_step cap) ZDTCongestionController_init evs) \<le> cap"
proof -
  have "cc_ok cap (foldl (cc_step cap) ZDTCongestionController_init evs)"
    using cc_ok_run [OF cc_ok_init assms] .
  then have "2 \<le> truncate_toward_zero (cc_cwnd (foldl (cc_step cap) ZDTCongestionController_init evs))"
    by (simp add: cc_ok_def kZDTMinWindow_def truncate_toward_zero_def le_floor_iff)
  then show ?thesis using assms(1) by (simp add: Window_def Let_def)
qed

theorem congestion_window_bounds_witness:
  "2 \<le> Window 1024 (foldl (cc_step 1024) ZDTCongestionController_init
        [RetransmitTimeout ZDTRttEstimator_init 5, AckArrived 9, Acked 3 ZDTRttEstimator_init 10])
   \<and> Window 1024 (foldl (cc_step 1024) ZDTCongestionController_init
        [RetransmitTimeout ZDTRttEstimator_init 5, AckArrived 9, Acked 3 ZDTRttEstimator_init 10]) \<le> 1024"
  by (rule congestion_window_bounds) simp_all

lemma recovery_step:
  assumes "cc_ok cap c" and "2 \<le> cap" and "cap \<le> 2 ^ 31" and "cc_in_loss_recovery c"
    and "cc_cwnd c \<le> of_int cap" and "\<And>s. ev = AckArrived s \<Longrightarrow> SeqLess s (cc_loss_recovery_until c)"
  shows "cc_in_loss_recovery (cc_step cap c ev)
    \<and> cc_loss_recovery_until (cc_step cap c ev) = cc_loss_recovery_until c
    \<and> cc_cwnd c \<le> cc_cwnd (cc_step cap c ev) \<and> cc_cwnd (cc_step cap c ev) \<le> of_int cap"
  using assms OnAcked_in_recovery [OF assms(1-5)] OnAcked_recovery_fields [OF assms(4)]
  by (cases ev) (auto simp: OnAckArrived_def OnRetransmitTimeout_def Reduce_def)

lemma recovery_run:
  assumes "cc_ok cap c" and "2 \<le> cap" and "cap \<le> 2 ^ 31" and "cc_in_loss_recovery c"
    and "cc_cwnd c \<le> of_int cap" and "\<forall>s. AckArrived s \<in> set evs \<longrightarrow> SeqLess s (cc_loss_recovery_until c)"
  shows "cc_in_loss_recovery (foldl (cc_step cap) c evs) \<and> cc_cwnd c \<le> cc_cwnd (foldl (cc_step cap) c evs)"
  using assms
proof (induction evs arbitrary: c)
  case Nil
  then show ?case by simp
next
  case (Cons ev evs)
  have s: "cc_in_loss_recovery (cc_step cap c ev)
    \<and> cc_loss_recovery_until (cc_step cap c ev) = cc_loss_recovery_until c
    \<and> cc_cwnd c \<le> cc_cwnd (cc_step cap c ev) \<and> cc_cwnd (cc_step cap c ev) \<le> of_int cap"
    using Cons.prems by (intro recovery_step) auto
  have "cc_ok cap (cc_step cap c ev)" using Cons.prems by (intro cc_ok_step)
  from Cons.IH [OF this Cons.prems(2,3)] s Cons.prems(6) show ?case by (fastforce intro: order_trans)
qed

text \<open>
  C19. One burst of loss costs one reduction. Once a loss epoch is open (with the window within
  its cap), no further timeout or queueing signal reduces the window until the peer
  acknowledges something sent after the epoch opened.
\<close>

theorem one_reduction_per_epoch:
  assumes "cc_ok cap c" and "2 \<le> cap" and "cap \<le> 2 ^ 31" and "cc_in_loss_recovery c"
    and "cc_cwnd c \<le> of_int cap" and "\<forall>s. AckArrived s \<in> set evs \<longrightarrow> SeqLess s (cc_loss_recovery_until c)"
  shows "cc_cwnd c \<le> cc_cwnd (foldl (cc_step cap) c evs)"
  using recovery_run [OF assms] by blast

theorem one_reduction_per_epoch_witness:
  "let c = Reduce kZDTLossTimeoutBackoff 5 ZDTCongestionController_init
   in cc_cwnd c \<le> cc_cwnd (foldl (cc_step 1024) c [RetransmitTimeout ZDTRttEstimator_init 6, AckArrived 4])"
proof -
  let ?c = "Reduce kZDTLossTimeoutBackoff 5 ZDTCongestionController_init"
  note b = Reduce_bounds [OF cc_ok_init [of 1024] backoff_le_one(3), of 5]
  have "cc_cwnd ?c \<le> of_int 1024" using b(2) by (simp add: ZDTCongestionController_init_def)
  moreover have "cc_in_loss_recovery ?c" "cc_loss_recovery_until ?c = 5"
    by (simp_all add: Reduce_def Let_def ZDTCongestionController_init_def)
  moreover have "SeqLess 4 5" by (simp add: SeqLess_def)
  ultimately show ?thesis
    using one_reduction_per_epoch [OF b(1), of "[RetransmitTimeout ZDTRttEstimator_init 6, AckArrived 4]"]
    by (simp add: Let_def)
qed

lemma Clamp_bounds: "lo \<le> hi \<Longrightarrow> lo \<le> Clamp v lo hi \<and> Clamp v lo hi \<le> hi"
  by (auto simp: Clamp_def)

lemma OnSample_rto:
  assumes "rto_min \<le> rto_max" and "rto_min \<le> rtt_rto r \<and> rtt_rto r \<le> rto_max"
  shows "rto_min \<le> rtt_rto (OnSample sample now rto_min rto_max r) \<and> rtt_rto (OnSample sample now rto_min rto_max r) \<le> rto_max"
proof (cases "ms_of_ns sample < 0")
  case True
  then show ?thesis using assms(2) by (simp add: OnSample_def)
next
  case False
  then obtain v where "rtt_rto (OnSample sample now rto_min rto_max r) = Clamp v rto_min rto_max"
    unfolding OnSample_def Let_def by simp
  then show ?thesis using Clamp_bounds [OF assms(1)] by simp
qed

text \<open>
  C20. The retransmit timeout stays within its configured bounds: after any number of round-trip
  samples, valid or not, it is between \<open>rto_min\<close> and \<open>rto_max\<close>, if it was reset to a value in
  that range.
\<close>

theorem rto_bounds:
  assumes "rto_min \<le> rto0" and "rto0 \<le> rto_max"
  shows "let r = foldl (\<lambda>r (sample, now). OnSample sample now rto_min rto_max r)
                   (Rtt_Reset rto0 ZDTRttEstimator_init) samples
     in rto_min \<le> rtt_rto r \<and> rtt_rto r \<le> rto_max"
proof -
  have "rto_min \<le> rtt_rto (foldl (\<lambda>r (sample, now). OnSample sample now rto_min rto_max r) r samples)
      \<and> rtt_rto (foldl (\<lambda>r (sample, now). OnSample sample now rto_min rto_max r) r samples) \<le> rto_max"
    if "rto_min \<le> rtt_rto r \<and> rtt_rto r \<le> rto_max" for r
    using that
  proof (induction samples arbitrary: r)
    case (Cons x samples)
    have "rto_min \<le> rto_max" using assms by simp
    from Cons.IH [OF OnSample_rto [OF this Cons.prems]] show ?case by (cases x) simp
  qed simp
  then show ?thesis using assms by (simp add: Rtt_Reset_def Let_def)
qed

theorem rto_bounds_witness:
  "let r = foldl (\<lambda>r (sample, now). OnSample sample now 100 3000 r) (Rtt_Reset 200 ZDTRttEstimator_init)
             [(25000000, 1), (-5, 2), (9000000000, 3)]
     in 100 \<le> rtt_rto r \<and> rtt_rto r \<le> 3000"
  by (rule rto_bounds) simp_all

end
