(* ===== verification/Mpsc_Queue.thy ===== *)
theory Mpsc_Queue
  imports Prelude
begin

text \<open>
  The bounded many-producer, one-consumer ring of \<open>mpsc_queue.h\<close>. Cursors and sequence
  numbers are \<open>size_t\<close> values. The operations are given twice: as the functions a caller
  that runs alone sees, and as a step relation in which producers claim a position, and
  later store and publish into it, while the consumer takes items, in any interleaving.
  Each step is one access of the shared cursors or of a cell; the loads before a
  successful compare-exchange are one step with it, because the exchange fails when the
  cursor moved in between. Executions are sequentially consistent and have fewer than
  \<open>2 ^ 62\<close> pushes.

  The ring alone is shown to implement the interface \<open>fifo_queue\<close>; the
  interleavings are shown to hand out exactly the claimed values, in claim order.
\<close>

section \<open>The ring\<close>

record 'a Cell =
  cell_sequence :: nat
  cell_value :: "'a option"

record 'a MpscQueue =
  mq_cells :: "'a Cell list"
  mq_mask :: nat
  mq_enqueue :: nat
  mq_dequeue :: nat

definition kBehind :: nat where
  "kBehind = size_max div 2"

function round_up_from :: "nat \<Rightarrow> nat \<Rightarrow> nat" where
  "round_up_from v slots =
     (if slots < v \<and> slots < size_max div 2 + 1 \<and> 0 < slots then round_up_from v (slots * 2) else slots)"
  by pat_completeness auto
termination
  by (relation "measure (\<lambda>(v, slots). v - slots)") auto

declare round_up_from.simps [simp del]

definition RoundUpPowerOfTwo :: "nat \<Rightarrow> nat" where
  "RoundUpPowerOfTwo v = round_up_from v 2"

definition MpscQueue_new :: "nat \<Rightarrow> 'a MpscQueue" where
  "MpscQueue_new capacity =
     (let slots = RoundUpPowerOfTwo capacity
      in \<lparr>mq_cells = map (\<lambda>i. \<lparr>cell_sequence = i, cell_value = None\<rparr>) [0..<slots],
          mq_mask = slots - 1, mq_enqueue = 0, mq_dequeue = 0\<rparr>)"

definition cell_index :: "'a MpscQueue \<Rightarrow> nat \<Rightarrow> nat" where
  "cell_index q pos = pos AND mq_mask q"

definition cell_at :: "'a MpscQueue \<Rightarrow> nat \<Rightarrow> 'a Cell" where
  "cell_at q pos = mq_cells q ! cell_index q pos"

definition set_cell :: "nat \<Rightarrow> 'a Cell \<Rightarrow> 'a MpscQueue \<Rightarrow> 'a MpscQueue" where
  "set_cell pos c q = q\<lparr>mq_cells := (mq_cells q)[cell_index q pos := c]\<rparr>"

definition capacity :: "'a MpscQueue \<Rightarrow> nat" where
  "capacity q = mq_mask q + 1"

definition mpsc_size :: "'a MpscQueue \<Rightarrow> nat" where
  "mpsc_size q = (if mq_enqueue q > mq_dequeue q then mq_enqueue q - mq_dequeue q else 0)"

definition mpsc_Empty :: "'a MpscQueue \<Rightarrow> bool" where
  "mpsc_Empty q \<longleftrightarrow> mq_enqueue q = mq_dequeue q"

text \<open>
  One round of the loop of \<open>Push\<close>: the value was stored (with the number of items queued
  ahead, \<open>out_queued\<close>), the ring is full, or the cursor has to be loaded again. A producer
  that runs alone never sees the last.
\<close>

datatype PushResult = Pushed nat | Full | Retry

definition Push :: "'a \<Rightarrow> 'a MpscQueue \<Rightarrow> PushResult \<times> 'a MpscQueue" where
  "Push v q =
     (let pos = mq_enqueue q;
          distance = sz_sub (cell_sequence (cell_at q pos)) pos
      in if distance = 0 then
           (Pushed (sz_sub pos (mq_dequeue q)),
            set_cell pos \<lparr>cell_sequence = sz_add pos 1, cell_value = Some v\<rparr>
              (q\<lparr>mq_enqueue := sz_add pos 1\<rparr>))
         else if distance > kBehind then (Full, q) else (Retry, q))"

definition NextReadable :: "'a MpscQueue \<Rightarrow> 'a Cell option" where
  "NextReadable q =
     (let pos = mq_dequeue q; cell = cell_at q pos
      in if cell_sequence cell \<noteq> sz_add pos 1 then None else Some cell)"

definition ReleaseRead :: "'a MpscQueue \<Rightarrow> 'a MpscQueue" where
  "ReleaseRead q =
     (let pos = mq_dequeue q
      in (set_cell pos \<lparr>cell_sequence = sz_add (sz_add pos (mq_mask q)) 1, cell_value = None\<rparr> q)
           \<lparr>mq_dequeue := sz_add pos 1\<rparr>)"

definition Pop :: "'a MpscQueue \<Rightarrow> 'a option \<times> 'a MpscQueue" where
  "Pop q = (case NextReadable q of
      None \<Rightarrow> (None, q)
    | Some cell \<Rightarrow> (cell_value cell, ReleaseRead q))"

primrec drain_with :: "('q \<Rightarrow> 'a option \<times> 'q) \<Rightarrow> nat \<Rightarrow> 'q \<Rightarrow> 'a list \<times> 'q" where
  "drain_with pop 0 q = ([], q)"
| "drain_with pop (Suc n) q = (case pop q of
      (None, q') \<Rightarrow> ([], q')
    | (Some x, q') \<Rightarrow> (let (xs, q'') = drain_with pop n q' in (x # xs, q'')))"

text \<open>
  \<open>DrainTo\<close> runs until \<open>NextReadable\<close> has nothing. A consumer that is not overtaken releases
  each cell of the ring once, so the capacity bounds its rounds (\<open>DrainTo_drains\<close> below).
\<close>

definition DrainTo :: "'a MpscQueue \<Rightarrow> 'a list \<times> 'a MpscQueue" where
  "DrainTo q = drain_with Pop (capacity q) q"

section \<open>Interleaved producers\<close>

text \<open>
  \<open>ms_claimed\<close> are the positions claimed but not yet stored into, with the value their
  producer holds; \<open>ms_history\<close> lists every value in the order its position was claimed, and
  \<open>ms_taken\<close> every value the consumer took.
\<close>

record 'a mpsc_state =
  ms_queue :: "'a MpscQueue"
  ms_claimed :: "nat \<rightharpoonup> 'a"
  ms_history :: "'a list"
  ms_taken :: "'a list"

definition mpsc_init :: "nat \<Rightarrow> 'a mpsc_state" where
  "mpsc_init cap = \<lparr>ms_queue = MpscQueue_new cap, ms_claimed = Map.empty, ms_history = [], ms_taken = []\<rparr>"

inductive mpsc_step :: "'a mpsc_state \<Rightarrow> 'a mpsc_state \<Rightarrow> bool" where
  claim:
    "pos = mq_enqueue (ms_queue s) \<Longrightarrow>
     sz_sub (cell_sequence (cell_at (ms_queue s) pos)) pos = 0 \<Longrightarrow>
     mpsc_step s (s\<lparr>ms_queue := (ms_queue s)\<lparr>mq_enqueue := sz_add pos 1\<rparr>,
                    ms_claimed := (ms_claimed s)(pos \<mapsto> v), ms_history := ms_history s @ [v]\<rparr>)"
| publish:
    "ms_claimed s pos = Some v \<Longrightarrow>
     mpsc_step s (s\<lparr>ms_queue := set_cell pos \<lparr>cell_sequence = sz_add pos 1, cell_value = Some v\<rparr> (ms_queue s),
                    ms_claimed := (ms_claimed s)(pos := None)\<rparr>)"
| take_one:
    "NextReadable (ms_queue s) = Some cell \<Longrightarrow> cell_value cell = Some v \<Longrightarrow>
     mpsc_step s (s\<lparr>ms_queue := ReleaseRead (ms_queue s), ms_taken := ms_taken s @ [v]\<rparr>)"

inductive mpsc_reachable :: "nat \<Rightarrow> 'a mpsc_state \<Rightarrow> bool" for cap where
  start: "mpsc_reachable cap (mpsc_init cap)"
| step: "mpsc_reachable cap s \<Longrightarrow> mpsc_step s s' \<Longrightarrow> mpsc_reachable cap s'"

section \<open>Powers of two\<close>

lemma round_up_from_power:
  assumes "slots = 2 ^ k" and "0 < k" and "k \<le> 63"
  shows "\<exists>j. round_up_from v slots = 2 ^ j \<and> 0 < j \<and> j \<le> 63"
  using assms
proof (induction v slots arbitrary: k rule: round_up_from.induct)
  case (1 v slots)
  show ?case
  proof (cases "slots < v \<and> slots < size_max div 2 + 1 \<and> 0 < slots")
    case True
    have "(2::nat) ^ k < 2 ^ 63" using True 1(2) by (simp add: size_max_def)
    then have "k < 63" using power_less_imp_less_exp [of 2 k 63] by simp
    then show ?thesis
      using 1(1) [OF True, of "Suc k"] 1(2) True by (subst round_up_from.simps) simp
  next
    case False
    then show ?thesis using 1(2-4) by (subst round_up_from.simps) auto
  qed
qed

lemma RoundUpPowerOfTwo_power: "\<exists>j. RoundUpPowerOfTwo v = 2 ^ j \<and> 0 < j \<and> j \<le> 63"
  unfolding RoundUpPowerOfTwo_def by (rule round_up_from_power [of _ 1]) simp_all

lemma and_mask_mod: "(pos :: nat) AND (2 ^ k - 1) = pos mod 2 ^ k"
proof -
  have "pos AND mask k = pos mod 2 ^ k" by (simp flip: take_bit_eq_mask add: take_bit_eq_mod)
  then show ?thesis by (simp only: mask_eq_exp_minus_1)
qed

lemma mod_window:
  assumes "p < (r::nat)" and "r < p + n"
  shows "p mod n \<noteq> r mod n"
proof
  assume "p mod n = r mod n"
  then have "n dvd r - p" using assms(1) by (metis mod_eq_dvd_iff_nat less_imp_le)
  then show False using assms by (auto dest: dvd_imp_le)
qed

section \<open>The ring invariant\<close>

text \<open>
  \<open>ring_ok n q hist out\<close>: positions from the read cursor to the claim cursor hold the values
  of \<open>hist\<close>, except those in \<open>out\<close> whose producer has not stored yet; the rest of the lap is free.
\<close>

definition ring_ok :: "nat \<Rightarrow> 'a MpscQueue \<Rightarrow> 'a list \<Rightarrow> nat set \<Rightarrow> bool" where
  "ring_ok n q hist out \<longleftrightarrow> (\<exists>k. n = 2 ^ k \<and> 0 < k \<and> k \<le> 63) \<and> length (mq_cells q) = n \<and> mq_mask q = n - 1
     \<and> length hist = mq_enqueue q \<and> mq_enqueue q < 2 ^ 62
     \<and> mq_dequeue q \<le> mq_enqueue q \<and> mq_enqueue q \<le> mq_dequeue q + n
     \<and> (\<forall>p. mq_dequeue q \<le> p \<and> p < mq_enqueue q \<longrightarrow>
          (if p \<in> out then cell_sequence (cell_at q p) = p
           else cell_sequence (cell_at q p) = p + 1 \<and> cell_value (cell_at q p) = Some (hist ! p)))
     \<and> (\<forall>p. mq_enqueue q \<le> p \<and> p < mq_dequeue q + n \<longrightarrow> cell_sequence (cell_at q p) = p)"

lemma ring_okD:
  assumes "ring_ok n q hist out"
  shows "1 < n" and "n \<le> 2 ^ 63" and "length (mq_cells q) = n" and "mq_mask q = n - 1"
    and "length hist = mq_enqueue q" and "mq_enqueue q < 2 ^ 62"
    and "mq_dequeue q \<le> mq_enqueue q" and "mq_enqueue q \<le> mq_dequeue q + n"
    and "\<And>p. mq_dequeue q \<le> p \<Longrightarrow> p < mq_enqueue q \<Longrightarrow> p \<in> out \<Longrightarrow> cell_sequence (cell_at q p) = p"
    and "\<And>p. mq_dequeue q \<le> p \<Longrightarrow> p < mq_enqueue q \<Longrightarrow> p \<notin> out \<Longrightarrow>
           cell_sequence (cell_at q p) = p + 1 \<and> cell_value (cell_at q p) = Some (hist ! p)"
    and "\<And>p. mq_enqueue q \<le> p \<Longrightarrow> p < mq_dequeue q + n \<Longrightarrow> cell_sequence (cell_at q p) = p"
    and "cell_index q p = p mod n"
proof -
  obtain k where k: "n = 2 ^ k" "0 < k" "k \<le> 63" using assms by (auto simp: ring_ok_def)
  show "1 < n" using k by (metis one_less_numeral_iff one_less_power semiring_norm(76))
  show "n \<le> 2 ^ 63" using k by (metis one_le_numeral power_increasing)
  show "cell_index q p = p mod n"
    using assms k and_mask_mod [of p k] by (simp add: ring_ok_def cell_index_def)
qed (use assms in \<open>auto simp: ring_ok_def\<close>)

lemma ring_set_cell:
  assumes "ring_ok n q hist out"
  shows "cell_at (set_cell p c q) r = (if r mod n = p mod n then c else cell_at q r)"
proof -
  note d = ring_okD [OF assms]
  have "cell_index (set_cell p c q) r = r mod n" using d(12) by (simp add: cell_index_def set_cell_def)
  moreover have "p mod n < length (mq_cells q)" using d(1,3) by simp
  ultimately show ?thesis using d(12) by (simp add: cell_at_def set_cell_def nth_list_update)
qed

lemma cell_at_cursors [simp]:
  "cell_at (q\<lparr>mq_enqueue := x\<rparr>) p = cell_at q p" "cell_at (q\<lparr>mq_dequeue := x\<rparr>) p = cell_at q p"
  by (simp_all add: cell_at_def cell_index_def)

lemma set_cell_fields [simp]:
  "mq_enqueue (set_cell p c q) = mq_enqueue q" "mq_dequeue (set_cell p c q) = mq_dequeue q"
  "mq_mask (set_cell p c q) = mq_mask q" "length (mq_cells (set_cell p c q)) = length (mq_cells q)"
  by (simp_all add: set_cell_def)

lemma sz_sub_zero: "a < 2 ^ 64 \<Longrightarrow> b < 2 ^ 64 \<Longrightarrow> sz_sub a b = 0 \<longleftrightarrow> a = b"
proof -
  assume ab: "a < 2 ^ 64" "b < 2 ^ 64"
  show "sz_sub a b = 0 \<longleftrightarrow> a = b"
  proof (cases "b \<le> a")
    case True
    then obtain d where d: "a = b + d" using le_Suc_ex by blast
    then have "(a + 2 ^ 64 - b) mod 2 ^ 64 = d" using ab by simp
    then show ?thesis using d by (simp add: sz_sub_def)
  next
    case False
    then have "(a + 2 ^ 64 - b) mod 2 ^ 64 = a + 2 ^ 64 - b" using ab by simp
    then show ?thesis using False ab by (simp add: sz_sub_def)
  qed
qed

lemma ring_sequence_small:
  assumes "ring_ok n q hist out"
  shows "cell_sequence (cell_at q (mq_enqueue q)) < 2 ^ 64"
    and "mq_enqueue q = mq_dequeue q + n \<Longrightarrow> cell_sequence (cell_at q (mq_enqueue q)) \<le> mq_dequeue q + 1"
proof -
  note d = ring_okD [OF assms]
  have full: "cell_sequence (cell_at q (mq_enqueue q)) \<le> mq_dequeue q + 1" if "mq_enqueue q = mq_dequeue q + n"
  proof -
    have "cell_at q (mq_enqueue q) = cell_at q (mq_dequeue q)" using d(12) that by (simp add: cell_at_def)
    then show ?thesis using d(9,10) [of "mq_dequeue q"] d(1) that by (cases "mq_dequeue q \<in> out") simp_all
  qed
  then show "mq_enqueue q = mq_dequeue q + n \<Longrightarrow> cell_sequence (cell_at q (mq_enqueue q)) \<le> mq_dequeue q + 1" .
  show "cell_sequence (cell_at q (mq_enqueue q)) < 2 ^ 64"
  proof (cases "mq_enqueue q = mq_dequeue q + n")
    case True
    then show ?thesis using full d(6,7) by simp
  next
    case False
    then show ?thesis using d(6,8) d(11) [of "mq_enqueue q"] by simp
  qed
qed

lemma ring_claimable:
  assumes "ring_ok n q hist out"
  shows "sz_sub (cell_sequence (cell_at q (mq_enqueue q))) (mq_enqueue q) = 0 \<longleftrightarrow> mq_enqueue q < mq_dequeue q + n"
proof -
  note d = ring_okD [OF assms]
  have "sz_sub (cell_sequence (cell_at q (mq_enqueue q))) (mq_enqueue q) = 0
      \<longleftrightarrow> cell_sequence (cell_at q (mq_enqueue q)) = mq_enqueue q"
    using ring_sequence_small(1) [OF assms] d(6) by (intro sz_sub_zero) simp_all
  also have "\<dots> \<longleftrightarrow> mq_enqueue q < mq_dequeue q + n"
    using ring_sequence_small(2) [OF assms] d(1,8) d(11) [of "mq_enqueue q"]
    by (cases "mq_enqueue q = mq_dequeue q + n") auto
  finally show ?thesis .
qed

lemma ring_claim:
  assumes "ring_ok n q hist out" and "mq_enqueue q < mq_dequeue q + n" and "Suc (mq_enqueue q) < 2 ^ 62"
  shows "ring_ok n (q\<lparr>mq_enqueue := sz_add (mq_enqueue q) 1\<rparr>) (hist @ [v]) (insert (mq_enqueue q) out)"
proof -
  note d = ring_okD [OF assms(1)]
  have sz: "sz_add (mq_enqueue q) 1 = Suc (mq_enqueue q)" using assms(3) by simp
  show ?thesis
    unfolding ring_ok_def sz
    using assms d(5,7) d(9,10,11)
    by (auto simp: ring_ok_def nth_append less_Suc_eq)
qed

lemma ring_publish:
  assumes "ring_ok n q hist out" and "mq_dequeue q \<le> p" and "p < mq_enqueue q"
  shows "ring_ok n (set_cell p \<lparr>cell_sequence = sz_add p 1, cell_value = Some (hist ! p)\<rparr> q) hist (out - {p})"
proof -
  note d = ring_okD [OF assms(1)]
  have sz: "sz_add p 1 = p + 1" using assms(3) d(6) by simp
  have ne: "r mod n \<noteq> p mod n" if "mq_dequeue q \<le> r" "r < mq_dequeue q + n" "r \<noteq> p" for r
    using mod_window [of r p n] mod_window [of p r n] that assms(2,3) d(8) by (cases "r < p") auto
  have at: "cell_at (set_cell p \<lparr>cell_sequence = sz_add p 1, cell_value = Some (hist ! p)\<rparr> q) r
      = (if r = p then \<lparr>cell_sequence = p + 1, cell_value = Some (hist ! p)\<rparr> else cell_at q r)"
    if "mq_dequeue q \<le> r" "r < mq_dequeue q + n" for r
    using ne [of r] that ring_set_cell [OF assms(1)] sz by simp
  have lt: "r < mq_dequeue q + n" if "r < mq_enqueue q" for r using that d(8) by linarith
  have "mq_dequeue q \<le> r" if "mq_enqueue q \<le> r" for r using that d(7) by linarith
  with assms(1-3) at lt show ?thesis
    unfolding ring_ok_def set_cell_fields by (simp split del: if_split) (auto split: if_splits)
qed

lemma ring_take:
  assumes "ring_ok n q hist out" and "NextReadable q = Some cell"
  shows "mq_dequeue q < mq_enqueue q" and "mq_dequeue q \<notin> out"
    and "cell_value cell = Some (hist ! mq_dequeue q)" and "ring_ok n (ReleaseRead q) hist out"
    and "mq_dequeue (ReleaseRead q) = Suc (mq_dequeue q)" and "mq_enqueue (ReleaseRead q) = mq_enqueue q"
proof -
  note d = ring_okD [OF assms(1)]
  let ?p = "mq_dequeue q"
  have sz: "sz_add ?p 1 = ?p + 1" "sz_add (sz_add ?p (mq_mask q)) 1 = ?p + n"
    using d(1,2,4,6,7) by (simp_all add: sz_add_def)
  note sz = sz sz(1) [simplified] sz(2) [unfolded One_nat_def]
  have c: "cell = cell_at q ?p" "cell_sequence (cell_at q ?p) = ?p + 1"
    using assms(2) sz(1) by (auto simp: NextReadable_def Let_def split: if_splits)
  show lt: "?p < mq_enqueue q" using c(2) d(1,7) d(11) [of ?p] by (cases "?p = mq_enqueue q") auto
  show out: "?p \<notin> out" using c(2) d(9) [of ?p] lt by auto
  show "cell_value cell = Some (hist ! ?p)" using d(10) [of ?p] lt out c(1) by simp
  have ne: "r mod n \<noteq> ?p mod n" if "?p < r" "r < ?p + n" for r using mod_window [of ?p r n] that by auto
  have last: "(?p + n) mod n = ?p mod n" by simp
  show "mq_dequeue (ReleaseRead q) = Suc ?p" "mq_enqueue (ReleaseRead q) = mq_enqueue q"
    by (simp_all add: ReleaseRead_def Let_def sz)
  have at: "cell_at (ReleaseRead q) r = (if r mod n = ?p mod n
      then \<lparr>cell_sequence = ?p + n, cell_value = None\<rparr> else cell_at q r)" for r
    using ring_set_cell [OF assms(1)] by (simp add: ReleaseRead_def Let_def sz)
  have f: "mq_dequeue (ReleaseRead q) = Suc ?p" "mq_enqueue (ReleaseRead q) = mq_enqueue q"
    "mq_mask (ReleaseRead q) = mq_mask q" "length (mq_cells (ReleaseRead q)) = length (mq_cells q)"
    by (simp_all add: ReleaseRead_def Let_def sz)
  have busy: "cell_at (ReleaseRead q) r = cell_at q r" if "Suc ?p \<le> r" "r < mq_enqueue q" for r
    using at ne [of r] that d(8) by simp
  have free: "cell_sequence (cell_at (ReleaseRead q) r) = r" if "mq_enqueue q \<le> r" "r < Suc ?p + n" for r
    using at [of r] ne [of r] last that lt d(11) [of r] by (cases "r = ?p + n") auto
  show "ring_ok n (ReleaseRead q) hist out"
    using assms(1) lt busy free unfolding ring_ok_def f by auto
qed

lemma ring_new: "ring_ok (RoundUpPowerOfTwo cap) (MpscQueue_new cap) [] {}"
proof -
  obtain k where k: "RoundUpPowerOfTwo cap = 2 ^ k" "0 < k" "k \<le> 63"
    using RoundUpPowerOfTwo_power by blast
  then have "p AND (2 ^ k - Suc 0) = p" if "p < 2 ^ k" for p :: nat
    using and_mask_mod [of p k] that by simp
  with k show ?thesis
    by (auto simp: ring_ok_def MpscQueue_new_def Let_def cell_at_def cell_index_def)
qed

section \<open>A queue\<close>

text \<open>
  What a single caller sees of a queue: the answers to a sequence of calls. \<open>run_list\<close> is the
  specification, a list that holds at most \<open>c\<close> items.
\<close>

datatype 'a queue_call = DoPush 'a | DoPop

fun run_queue :: "('a \<Rightarrow> 'q \<Rightarrow> PushResult \<times> 'q) \<Rightarrow> ('q \<Rightarrow> 'a option \<times> 'q)
    \<Rightarrow> 'a queue_call list \<Rightarrow> 'q \<Rightarrow> (PushResult + 'a option) list" where
  "run_queue push pop [] q = []"
| "run_queue push pop (DoPush v # ops) q = (let (r, q') = push v q in Inl r # run_queue push pop ops q')"
| "run_queue push pop (DoPop # ops) q = (let (r, q') = pop q in Inr r # run_queue push pop ops q')"

fun run_list :: "nat \<Rightarrow> 'a queue_call list \<Rightarrow> 'a list \<Rightarrow> (PushResult + 'a option) list" where
  "run_list c [] xs = []"
| "run_list c (DoPush v # ops) xs =
     (if length xs < c then Inl (Pushed (length xs)) # run_list c ops (xs @ [v])
      else Inl Full # run_list c ops xs)"
| "run_list c (DoPop # ops) xs =
     (case xs of [] \<Rightarrow> Inr None # run_list c ops [] | x # xs' \<Rightarrow> Inr (Some x) # run_list c ops xs')"

text \<open>
  The contract of a bounded queue of which \<open>abs q\<close> is the content, oldest first, and \<open>ok q k\<close>
  that it can take \<open>k\<close> more pushes in its lifetime.
\<close>

locale fifo_queue =
  fixes push :: "'a \<Rightarrow> 'q \<Rightarrow> PushResult \<times> 'q"
    and pop :: "'q \<Rightarrow> 'a option \<times> 'q"
    and abs :: "'q \<Rightarrow> 'a list"
    and cap :: "'q \<Rightarrow> nat"
    and ok :: "'q \<Rightarrow> nat \<Rightarrow> bool"
  assumes push_room: "ok q (Suc k) \<Longrightarrow> length (abs q) < cap q \<Longrightarrow>
      fst (push v q) = Pushed (length (abs q)) \<and> abs (snd (push v q)) = abs q @ [v]
      \<and> ok (snd (push v q)) k \<and> cap (snd (push v q)) = cap q"
    and push_full: "ok q k \<Longrightarrow> \<not> length (abs q) < cap q \<Longrightarrow> push v q = (Full, q)"
    and pop_nil: "ok q k \<Longrightarrow> abs q = [] \<Longrightarrow> pop q = (None, q)"
    and pop_cons: "ok q k \<Longrightarrow> abs q = x # xs \<Longrightarrow> fst (pop q) = Some x \<and> abs (snd (pop q)) = xs
      \<and> ok (snd (pop q)) k \<and> cap (snd (pop q)) = cap q"
    and ok_less: "ok q (Suc k) \<Longrightarrow> ok q k"
begin

text \<open>Whatever one caller does to the queue, it answers as the bounded list does.\<close>

lemma runs_as_list:
  "ok q (length ops) \<Longrightarrow> run_queue push pop ops q = run_list (cap q) ops (abs q)"
proof (induction ops arbitrary: q)
  case Nil
  then show ?case by simp
next
  case (Cons c ops)
  show ?case
  proof (cases c)
    case (DoPush v)
    show ?thesis
    proof (cases "length (abs q) < cap q")
      case True
      then obtain q' where "push v q = (Pushed (length (abs q)), q')" "abs q' = abs q @ [v]"
          "ok q' (length ops)" "cap q' = cap q"
        using push_room [of q "length ops" v] Cons.prems by (cases "push v q") auto
      then show ?thesis using Cons.IH [of q'] True DoPush by simp
    next
      case False
      then have "push v q = (Full, q)" using push_full Cons.prems by blast
      moreover have "ok q (length ops)" using ok_less Cons.prems by auto
      ultimately show ?thesis using Cons.IH [of q] False DoPush by simp
    qed
  next
    case DoPop
    have o: "ok q (length ops)" using ok_less Cons.prems by auto
    show ?thesis
    proof (cases "abs q")
      case Nil
      then show ?thesis using pop_nil [OF o Nil] Cons.IH [OF o] DoPop by simp
    next
      case (Cons x xs)
      then obtain q' where "pop q = (Some x, q')" "abs q' = xs" "ok q' (length ops)" "cap q' = cap q"
        using pop_cons [OF o Cons] by (cases "pop q") auto
      then show ?thesis using Cons.IH [of q'] Cons DoPop by simp
    qed
  qed
qed

text \<open>A drain of at most \<open>n\<close> items takes the oldest ones, in order, and leaves the others.\<close>

lemma drain_take:
  "ok q k \<Longrightarrow> fst (drain_with pop n q) = take n (abs q) \<and> abs (snd (drain_with pop n q)) = drop n (abs q)
     \<and> ok (snd (drain_with pop n q)) k"
proof (induction n arbitrary: q)
  case 0
  then show ?case by simp
next
  case (Suc n)
  show ?case
  proof (cases "abs q")
    case Nil
    then show ?thesis using pop_nil [OF Suc.prems(1) Nil] Suc.prems(1) by simp
  next
    case (Cons x xs)
    then obtain q' where "pop q = (Some x, q')" "abs q' = xs" "ok q' k"
      using pop_cons [OF Suc.prems(1) Cons] by (cases "pop q") auto
    then show ?thesis using Suc.IH [of q'] Cons by (auto split: prod.splits)
  qed
qed

end

definition mpsc_contents :: "'a MpscQueue \<Rightarrow> 'a list" where
  "mpsc_contents q = map (\<lambda>p. the (cell_value (cell_at q p))) [mq_dequeue q..<mq_enqueue q]"

definition mpsc_ok :: "'a MpscQueue \<Rightarrow> nat \<Rightarrow> bool" where
  "mpsc_ok q k \<longleftrightarrow> (\<exists>n hist. ring_ok n q hist {}) \<and> mq_enqueue q + k < 2 ^ 62"

lemma ring_contents:
  assumes "ring_ok n q hist {}"
  shows "mpsc_contents q = drop (mq_dequeue q) hist"
  using ring_okD(5,7,10) [OF assms]
  by (intro nth_equalityI) (auto simp: mpsc_contents_def)

lemma mpsc_capacity: "ring_ok n q hist out \<Longrightarrow> capacity q = n"
  using ring_okD(1,4) [of n q hist out] by (simp add: capacity_def)

lemma mpsc_ok_new: "k < 2 ^ 62 \<Longrightarrow> mpsc_ok (MpscQueue_new cap) k"
  using ring_new [of cap] by (auto simp: mpsc_ok_def MpscQueue_new_def Let_def)

lemma mpsc_contents_new [simp]: "mpsc_contents (MpscQueue_new cap) = []"
  by (simp add: mpsc_contents_def MpscQueue_new_def Let_def)

lemma Push_full:
  assumes "ring_ok n q hist {}" and "\<not> mq_enqueue q < mq_dequeue q + n"
  shows "Push v q = (Full, q)"
proof -
  note d = ring_okD [OF assms(1)]
  have e: "mq_enqueue q = mq_dequeue q + n" using d(8) assms(2) by linarith
  have "cell_at q (mq_enqueue q) = cell_at q (mq_dequeue q)" using d(12) e by (simp add: cell_at_def)
  then have s: "cell_sequence (cell_at q (mq_enqueue q)) = mq_dequeue q + 1"
    using d(10) [of "mq_dequeue q"] e d(1) by simp
  have "mq_dequeue q + 1 + 2 ^ 64 - (mq_dequeue q + n) = 2 ^ 64 - (n - 1)" using d(1,2) by simp
  then have "sz_sub (mq_dequeue q + 1) (mq_dequeue q + n) = 2 ^ 64 - (n - 1)"
    using d(1,2) by (simp add: sz_sub_def)
  then show ?thesis using s e d(1,2) by (simp add: Push_def Let_def kBehind_def size_max_def)
qed

lemma Push_room:
  assumes "ring_ok n q hist {}" and "mq_enqueue q < mq_dequeue q + n" and "Suc (mq_enqueue q) < 2 ^ 62"
  shows "fst (Push v q) = Pushed (mq_enqueue q - mq_dequeue q)"
    and "ring_ok n (snd (Push v q)) (hist @ [v]) {}"
    and "mq_enqueue (snd (Push v q)) = Suc (mq_enqueue q)" and "mq_dequeue (snd (Push v q)) = mq_dequeue q"
proof -
  note d = ring_okD [OF assms(1)]
  have z: "sz_sub (cell_sequence (cell_at q (mq_enqueue q))) (mq_enqueue q) = 0"
    using ring_claimable [OF assms(1)] assms(2) by simp
  have sz: "sz_add (mq_enqueue q) 1 = Suc (mq_enqueue q)" using assms(3) by simp
  have h: "(hist @ [v]) ! mq_enqueue q = v" using d(5) by (simp add: nth_append)
  have p: "snd (Push v q) = set_cell (mq_enqueue q) \<lparr>cell_sequence = sz_add (mq_enqueue q) 1, cell_value = Some v\<rparr>
      (q\<lparr>mq_enqueue := sz_add (mq_enqueue q) 1\<rparr>)" using z by (simp add: Push_def Let_def)
  obtain t where "mq_enqueue q = mq_dequeue q + t" using d(7) le_Suc_ex by blast
  then have "sz_sub (mq_enqueue q) (mq_dequeue q) = mq_enqueue q - mq_dequeue q" using d(6) by (simp add: sz_sub_def)
  then show "fst (Push v q) = Pushed (mq_enqueue q - mq_dequeue q)" using z by (simp add: Push_def Let_def)
  show "mq_enqueue (snd (Push v q)) = Suc (mq_enqueue q)" "mq_dequeue (snd (Push v q)) = mq_dequeue q"
    using sz by (simp_all add: p)
  have "mq_dequeue (q\<lparr>mq_enqueue := sz_add (mq_enqueue q) 1\<rparr>) \<le> mq_enqueue q"
    "mq_enqueue q < mq_enqueue (q\<lparr>mq_enqueue := sz_add (mq_enqueue q) 1\<rparr>)" using d(7) sz by simp_all
  from ring_publish [OF ring_claim [OF assms, of v] this] h
  show "ring_ok n (snd (Push v q)) (hist @ [v]) {}" by (simp add: p)
qed

lemma mpsc_push_room:
  assumes ok: "mpsc_ok q (Suc k)" and l: "length (mpsc_contents q) < capacity q"
  shows "fst (Push v q) = Pushed (length (mpsc_contents q)) \<and> mpsc_contents (snd (Push v q)) = mpsc_contents q @ [v]
    \<and> mpsc_ok (snd (Push v q)) k \<and> capacity (snd (Push v q)) = capacity q"
proof -
  obtain n hist where r: "ring_ok n q hist {}" and b: "mq_enqueue q + Suc k < 2 ^ 62"
    using ok unfolding mpsc_ok_def by blast
  note d = ring_okD [OF r]
  have lt: "mq_enqueue q < mq_dequeue q + n" using l mpsc_capacity [OF r] d(7) by (simp add: mpsc_contents_def)
  have s: "Suc (mq_enqueue q) < 2 ^ 62" using b by linarith
  note p = Push_room [OF r lt s, of v]
  have "mpsc_contents (snd (Push v q)) = mpsc_contents q @ [v]"
    using d(5,7) by (simp add: ring_contents [OF r] ring_contents [OF p(2)] p(4))
  moreover have "mpsc_ok (snd (Push v q)) k" unfolding mpsc_ok_def p(3) using p(2) b by (metis add_Suc_shift)
  moreover have "capacity (snd (Push v q)) = capacity q" by (simp only: mpsc_capacity [OF r] mpsc_capacity [OF p(2)])
  moreover have "length (mpsc_contents q) = mq_enqueue q - mq_dequeue q" by (simp add: mpsc_contents_def)
  ultimately show ?thesis using p(1) by simp
qed

lemma mpsc_push_full:
  assumes ok: "mpsc_ok q k" and l: "\<not> length (mpsc_contents q) < capacity q"
  shows "Push v q = (Full, q)"
proof -
  obtain n hist where r: "ring_ok n q hist {}" using ok unfolding mpsc_ok_def by blast
  have "\<not> mq_enqueue q < mq_dequeue q + n"
    using l mpsc_capacity [OF r] ring_okD(7) [OF r] by (simp add: mpsc_contents_def)
  then show ?thesis by (rule Push_full [OF r])
qed

lemma mpsc_pop_nil:
  assumes ok: "mpsc_ok q k" and nil: "mpsc_contents q = []"
  shows "NextReadable q = None" and "Pop q = (None, q)"
proof -
  obtain n hist where r: "ring_ok n q hist {}" using ok unfolding mpsc_ok_def by blast
  have "\<not> mq_dequeue q < mq_enqueue q" using nil by (auto simp: mpsc_contents_def)
  then show "NextReadable q = None" using ring_take(1) [OF r] by (cases "NextReadable q") simp_all
  then show "Pop q = (None, q)" by (simp add: Pop_def)
qed

lemma mpsc_pop_cons:
  assumes ok: "mpsc_ok q k" and c: "mpsc_contents q = x # xs"
  shows "fst (Pop q) = Some x \<and> mpsc_contents (snd (Pop q)) = xs \<and> mpsc_ok (snd (Pop q)) k
    \<and> capacity (snd (Pop q)) = capacity q"
proof -
  obtain n hist where r: "ring_ok n q hist {}" and b: "mq_enqueue q + k < 2 ^ 62"
    using ok unfolding mpsc_ok_def by blast
  note d = ring_okD [OF r]
  have lt: "mq_dequeue q < mq_enqueue q"
    using c by (cases "mq_dequeue q < mq_enqueue q") (simp_all add: mpsc_contents_def)
  have "sz_add (mq_dequeue q) 1 = mq_dequeue q + 1" using lt d(6) by (intro sz_add_small) simp
  moreover have "cell_sequence (cell_at q (mq_dequeue q)) = mq_dequeue q + 1" using d(10) lt by blast
  ultimately have n: "NextReadable q = Some (cell_at q (mq_dequeue q))"
    by (simp only: NextReadable_def Let_def simp_thms if_False)
  note t = ring_take [OF r n]
  have "drop (mq_dequeue q) hist = x # xs" using ring_contents [OF r] c by simp
  then have x: "hist ! mq_dequeue q = x" "drop (Suc (mq_dequeue q)) hist = xs"
    using lt d(5) by (simp_all flip: Cons_nth_drop_Suc)
  have "mpsc_contents (ReleaseRead q) = xs" using ring_contents [OF t(4)] t(5) x(2) by simp
  moreover have "capacity (ReleaseRead q) = capacity q" by (simp only: mpsc_capacity [OF r] mpsc_capacity [OF t(4)])
  moreover have "mpsc_ok (ReleaseRead q) k" unfolding mpsc_ok_def t(6) using t(4) b by blast
  moreover have "Pop q = (Some x, ReleaseRead q)" using t(3) x(1) n by (simp add: Pop_def)
  ultimately show ?thesis by simp
qed

interpretation mpsc: fifo_queue Push Pop mpsc_contents capacity mpsc_ok
proof (unfold_locales, goal_cases)
  case 5
  then show ?case by (auto simp: mpsc_ok_def)
qed (fact mpsc_push_room mpsc_push_full mpsc_pop_nil(2) mpsc_pop_cons)+

lemma mpsc_contents_bounded:
  assumes "mpsc_ok q k"
  shows "length (mpsc_contents q) \<le> capacity q"
proof -
  obtain n hist where r: "ring_ok n q hist {}" using assms unfolding mpsc_ok_def by blast
  then show ?thesis using ring_okD(8) [OF r] mpsc_capacity [OF r] by (simp add: mpsc_contents_def)
qed

lemma DrainTo_drains:
  assumes "mpsc_ok q k"
  shows "fst (DrainTo q) = mpsc_contents q" and "NextReadable (snd (DrainTo q)) = None"
    and "mpsc_contents (snd (DrainTo q)) = []" and "mpsc_ok (snd (DrainTo q)) k"
proof -
  note t = mpsc.drain_take [OF assms, of "capacity q"] and b = mpsc_contents_bounded [OF assms]
  show "fst (DrainTo q) = mpsc_contents q" and nil: "mpsc_contents (snd (DrainTo q)) = []"
    and ok: "mpsc_ok (snd (DrainTo q)) k"
    using t b by (simp_all add: DrainTo_def)
  show "NextReadable (snd (DrainTo q)) = None" by (rule mpsc_pop_nil [OF ok nil])
qed

section \<open>Every interleaving\<close>

text \<open>
  \<open>mpsc_inv\<close> ties a state of the interleaved producers to the ring invariant: the positions
  still out are those claimed, each holding the value its producer brought, and the consumer
  has taken exactly the values before the read cursor.
\<close>

definition mpsc_inv :: "nat \<Rightarrow> 'a mpsc_state \<Rightarrow> bool" where
  "mpsc_inv n s \<longleftrightarrow> ring_ok n (ms_queue s) (ms_history s) (dom (ms_claimed s))
     \<and> (\<forall>p v. ms_claimed s p = Some v \<longrightarrow>
          mq_dequeue (ms_queue s) \<le> p \<and> p < mq_enqueue (ms_queue s) \<and> ms_history s ! p = v)
     \<and> ms_taken s = take (mq_dequeue (ms_queue s)) (ms_history s)"

inductive_cases mpsc_stepE: "mpsc_step s s'"

lemma mpsc_step_inv:
  assumes "mpsc_step s s'" and "mpsc_inv n s" and "length (ms_history s') < 2 ^ 62"
  shows "mpsc_inv n s'"
  using assms
proof (cases rule: mpsc_step.cases)
  case (claim pos v)
  have r: "ring_ok n (ms_queue s) (ms_history s) (dom (ms_claimed s))" using assms(2) by (simp add: mpsc_inv_def)
  note d = ring_okD [OF r]
  have "mq_enqueue (ms_queue s) < mq_dequeue (ms_queue s) + n"
    using claim(2,3) ring_claimable [OF r] by simp
  moreover have "Suc (mq_enqueue (ms_queue s)) < 2 ^ 62" using assms(3) claim(1) d(5) by simp
  ultimately have "ring_ok n ((ms_queue s)\<lparr>mq_enqueue := sz_add pos 1\<rparr>) (ms_history s @ [v]) (insert pos (dom (ms_claimed s)))"
    using ring_claim [OF r, of v] claim(2) by simp
  moreover have "sz_add pos 1 = Suc pos" using d(6) claim(2) by (subst sz_add_small) simp_all
  ultimately show ?thesis
    using assms(2) d(5,7) claim(2) unfolding mpsc_inv_def claim(1)
    by (auto simp: nth_append dom_fun_upd less_Suc_eq)
next
  case (publish pos v)
  have r: "ring_ok n (ms_queue s) (ms_history s) (dom (ms_claimed s))" using assms(2) by (simp add: mpsc_inv_def)
  have p: "mq_dequeue (ms_queue s) \<le> pos" "pos < mq_enqueue (ms_queue s)" "ms_history s ! pos = v"
    using assms(2) publish(2) by (auto simp: mpsc_inv_def)
  show ?thesis
    using ring_publish [OF r p(1,2)] assms(2) p(3) unfolding mpsc_inv_def publish(1) by auto
next
  case (take_one cell v)
  have r: "ring_ok n (ms_queue s) (ms_history s) (dom (ms_claimed s))" using assms(2) by (simp add: mpsc_inv_def)
  note t = ring_take [OF r take_one(2)]
  have "ms_taken s @ [v] = take (Suc (mq_dequeue (ms_queue s))) (ms_history s)"
    using assms(2) t(1,3) take_one(3) ring_okD(5) [OF r] by (simp add: mpsc_inv_def take_Suc_conv_app_nth)
  moreover have "Suc (mq_dequeue (ms_queue s)) \<le> p" if "ms_claimed s p = Some w" for p w
  proof -
    have "mq_dequeue (ms_queue s) \<noteq> p" using that t(2) by auto
    moreover have "mq_dequeue (ms_queue s) \<le> p" using that assms(2) by (auto simp: mpsc_inv_def)
    ultimately show ?thesis by simp
  qed
  ultimately show ?thesis
    using assms(2) t(4-6) unfolding mpsc_inv_def take_one(1) by simp
qed

lemma mpsc_history_grows: "mpsc_step s s' \<Longrightarrow> length (ms_history s) \<le> length (ms_history s')"
  by (auto elim: mpsc_stepE)

lemma mpsc_reachable_inv:
  assumes "mpsc_reachable cap s" and "length (ms_history s) < 2 ^ 62"
  shows "mpsc_inv (RoundUpPowerOfTwo cap) s"
  using assms
proof (induction rule: mpsc_reachable.induct)
  case start
  show ?case using ring_new [of cap] by (simp add: mpsc_inv_def mpsc_init_def MpscQueue_new_def Let_def)
next
  case (step s s')
  then show ?case using mpsc_step_inv mpsc_history_grows le_less_trans by blast
qed

section \<open>Properties\<close>


text \<open>Two producers claim in turn and only the second has stored: nothing is taken yet.\<close>

definition mpsc_example :: "nat mpsc_state" where
  "mpsc_example =
     (let s = mpsc_init 2; q = ms_queue s
      in \<lparr>ms_queue = set_cell 1 \<lparr>cell_sequence = Suc (Suc 0), cell_value = Some 8\<rparr> (q\<lparr>mq_enqueue := Suc (Suc 0)\<rparr>),
          ms_claimed = [0 \<mapsto> 7](1 := None), ms_history = [7, 8], ms_taken = []\<rparr>)"

lemma mpsc_example_reachable: "mpsc_reachable 2 mpsc_example"
proof -
  let ?s0 = "mpsc_init 2 :: nat mpsc_state"
  let ?s1 = "?s0\<lparr>ms_queue := (ms_queue ?s0)\<lparr>mq_enqueue := 1\<rparr>, ms_claimed := [0 \<mapsto> 7], ms_history := [7]\<rparr>"
  let ?s2 = "?s0\<lparr>ms_queue := (ms_queue ?s0)\<lparr>mq_enqueue := Suc (Suc 0)\<rparr>, ms_claimed := [0 \<mapsto> 7, 1 \<mapsto> 8], ms_history := [7, 8]\<rparr>"
  note c = mpsc_init_def MpscQueue_new_def RoundUpPowerOfTwo_def round_up_from.simps size_max_def
    cell_at_def cell_index_def sz_sub_def Let_def upt_rec
  have "mpsc_step ?s0 ?s1" using mpsc_step.claim [of 0 ?s0 7] by (simp add: c)
  moreover have "mpsc_step ?s1 ?s2" using mpsc_step.claim [of 1 ?s1 8] by (simp add: c sz_add_def)
  moreover have "mpsc_step ?s2 mpsc_example"
    using mpsc_step.publish [of ?s2 1 8] by (simp add: mpsc_example_def c set_cell_def)
  ultimately show ?thesis by (meson mpsc_reachable.intros)
qed


text \<open>
  C8: A queue built for \<open>cap\<close> items answers every sequence of up to 2^62 calls of one
  thread as a list bounded by the rounded-up capacity does.
\<close>

theorem mpsc_queue_refines_list:
  assumes "length ops < 2 ^ 62"
  shows "run_queue Push Pop ops (MpscQueue_new cap) = run_list (RoundUpPowerOfTwo cap) ops []"
  using mpsc.runs_as_list [OF mpsc_ok_new [OF assms, of cap]]
  by (simp add: mpsc_capacity [OF ring_new])

theorem mpsc_queue_refines_list_witness:
  "run_queue Push Pop [DoPush (1::nat), DoPush 2, DoPush 3, DoPop] (MpscQueue_new 2)
     = [Inl (Pushed 0), Inl (Pushed 1), Inl Full, Inr (Some 1)]"
  using mpsc_queue_refines_list [of "[DoPush (1::nat), DoPush 2, DoPush 3, DoPop]" 2]
  by (simp add: RoundUpPowerOfTwo_def round_up_from.simps size_max_def)

end
