(* ===== verification/Ordered_Map.thy ===== *)
theory Ordered_Map
  imports Prelude
begin

text \<open>
  The ordered containers of the code (\<open>std::map\<close>, and \<open>std::unordered_map\<close> where the
  iteration order does not matter) as association lists in ascending key order.
  \<open>keyed_store\<close> is the contract the clients rely on: what a lookup returns after an
  assignment or an erasure, and how the number of entries and a total over the entries
  change. It is interpreted on the association lists.
\<close>

type_synonym ('k, 'v) omap = "('k \<times> 'v) list"

fun om_find :: "'k \<Rightarrow> ('k, 'v) omap \<Rightarrow> 'v option" where
  "om_find k [] = None"
| "om_find k ((l, v) # m) = (if k = l then Some v else om_find k m)"

fun om_assign :: "'k::linorder \<Rightarrow> 'v \<Rightarrow> ('k, 'v) omap \<Rightarrow> ('k, 'v) omap" where
  "om_assign k v [] = [(k, v)]"
| "om_assign k v ((l, w) # m) =
     (if k < l then (k, v) # (l, w) # m
      else if k = l then (k, v) # m
      else (l, w) # om_assign k v m)"

fun om_erase :: "'k \<Rightarrow> ('k, 'v) omap \<Rightarrow> ('k, 'v) omap" where
  "om_erase k [] = []"
| "om_erase k ((l, w) # m) = (if k = l then m else (l, w) # om_erase k m)"

definition om_lower_bound :: "'k::linorder \<Rightarrow> ('k, 'v) omap \<Rightarrow> ('k \<times> 'v) option" where
  "om_lower_bound k m = find (\<lambda>e. k \<le> fst e) m"

definition om_ok :: "('k::linorder, 'v) omap \<Rightarrow> bool" where
  "om_ok m \<longleftrightarrow> sorted_wrt (<) (map fst m)"

definition om_total :: "('k \<Rightarrow> 'v \<Rightarrow> nat) \<Rightarrow> ('k, 'v) omap \<Rightarrow> nat" where
  "om_total f m = sum_list (map (\<lambda>(k, v). f k v) m)"

lemma om_total_simps [simp]:
  "om_total f [] = 0" "om_total f ((k, v) # m) = f k v + om_total f m"
  by (simp_all add: om_total_def)

lemma om_ok_simps [simp]:
  "om_ok []" "om_ok (e # m) \<longleftrightarrow> (\<forall>x \<in> set m. fst e < fst x) \<and> om_ok m"
  by (auto simp: om_ok_def)

lemma om_find_None: "om_find k m = None \<longleftrightarrow> k \<notin> fst ` set m"
  by (induction k m rule: om_find.induct) auto

lemma om_find_in: "om_find k m = Some v \<Longrightarrow> (k, v) \<in> set m"
  by (induction k m rule: om_find.induct) (auto split: if_splits)

lemma om_find_mem: "om_ok m \<Longrightarrow> om_find k m = Some v \<longleftrightarrow> (k, v) \<in> set m"
  by (induction k m rule: om_find.induct) auto

lemma set_om_assign: "set (om_assign k v m) \<subseteq> insert (k, v) (set m)"
  by (induction k v m rule: om_assign.induct) auto

lemma set_om_erase: "set (om_erase k m) \<subseteq> set m"
  by (induction k m rule: om_erase.induct) auto

lemma om_ok_assign [simp]: "om_ok m \<Longrightarrow> om_ok (om_assign k v m)"
proof (induction k v m rule: om_assign.induct)
  case (2 k v l w m)
  then show ?case using set_om_assign [of k v m] by force
qed simp

lemma om_ok_erase [simp]: "om_ok m \<Longrightarrow> om_ok (om_erase k m)"
proof (induction k m rule: om_erase.induct)
  case (2 k l w m)
  then show ?case using set_om_erase [of k m] by force
qed simp

lemma om_ok_filter [simp]: "om_ok m \<Longrightarrow> om_ok (filter P m)"
  by (induction m) auto

lemma om_find_assign [simp]: "om_ok m \<Longrightarrow> om_find l (om_assign k v m) = (if l = k then Some v else om_find l m)"
  by (induction k v m rule: om_assign.induct) auto

lemma om_find_fresh: "\<forall>x \<in> set m. (k :: 'k::linorder) < fst x \<Longrightarrow> om_find k m = None"
  by (force simp: om_find_None)

lemma om_find_erase [simp]: "om_ok m \<Longrightarrow> om_find l (om_erase k m) = (if l = k then None else om_find l m)"
  by (induction k m rule: om_erase.induct) (auto simp: om_find_fresh)

lemma om_find_filter: "om_ok m \<Longrightarrow> om_find k (filter P m) = (case om_find k m of
    None \<Rightarrow> None | Some v \<Rightarrow> if P (k, v) then Some v else None)"
  by (induction k m rule: om_find.induct) (auto split: option.splits simp: om_find_None)

lemma om_size_assign: "om_ok m \<Longrightarrow>
    length (om_assign k v m) = (case om_find k m of None \<Rightarrow> Suc (length m) | Some _ \<Rightarrow> length m)"
proof (induction k v m rule: om_assign.induct)
  case (2 k v l w m)
  have "om_find k m = None" if "k < l" using that 2(2) by (force simp: om_find_None)
  then show ?case using 2 by (auto split: option.splits)
qed simp

lemma om_total_assign: "om_ok m \<Longrightarrow>
    om_total f (om_assign k v m) + (case om_find k m of None \<Rightarrow> 0 | Some w \<Rightarrow> f k w) = om_total f m + f k v"
proof (induction k v m rule: om_assign.induct)
  case (2 k v l w m)
  have "om_find k m = None" if "k < l" using that 2(2) by (force simp: om_find_None)
  then show ?case using 2 by (auto split: option.splits)
qed simp

lemma om_size_erase: "length (om_erase k m) = (case om_find k m of None \<Rightarrow> length m | Some _ \<Rightarrow> length m - 1)"
proof (induction k m rule: om_erase.induct)
  case (2 k l w m)
  have "0 < length m" if "om_find k m = Some x" for x using that by (cases m) auto
  then show ?case using 2 by (auto split: option.splits)
qed simp

lemma om_total_erase:
  "om_total f (om_erase k m) + (case om_find k m of None \<Rightarrow> 0 | Some w \<Rightarrow> f k w) = om_total f m"
  by (induction k m rule: om_erase.induct) (auto split: option.splits)

lemma om_total_find: "om_find k m = Some v \<Longrightarrow> f k v \<le> om_total f m"
  using om_total_erase [of f k m] by simp

lemma om_total_filter: "om_total f (filter P m) + om_total f (filter (\<lambda>e. \<not> P e) m) = om_total f m"
  by (induction m) auto

lemma om_ext:
  assumes "om_ok m" "om_ok m'" "\<And>k. om_find k m = om_find k m'"
  shows "m = m'"
proof -
  have s: "set m = set m'"
    using assms om_find_mem by (metis subset_antisym subrelI)
  have sd: "sorted (map fst x) \<and> distinct (map fst x)" if "om_ok x" for x :: "('a, 'b) omap"
    using that by (simp add: om_ok_def strict_sorted_iff)
  then have inj: "inj_on fst (set m)" using assms(1) by (auto simp: distinct_map)
  from sd assms(1,2) s have "map fst m = map fst m'"
    by (intro sorted_distinct_set_unique) auto
  with s inj show ?thesis by (intro map_inj_on [of fst m m']) auto
qed

section \<open>The contract\<close>

locale keyed_store =
  fixes lookup :: "'k \<Rightarrow> 'm \<Rightarrow> 'v option"
    and assign :: "'k \<Rightarrow> 'v \<Rightarrow> 'm \<Rightarrow> 'm"
    and erase :: "'k \<Rightarrow> 'm \<Rightarrow> 'm"
    and total :: "('k \<Rightarrow> 'v \<Rightarrow> nat) \<Rightarrow> 'm \<Rightarrow> nat"
    and ok :: "'m \<Rightarrow> bool"
  assumes ok_assign: "ok m \<Longrightarrow> ok (assign k v m)"
    and ok_erase: "ok m \<Longrightarrow> ok (erase k m)"
    and lookup_assign: "ok m \<Longrightarrow> lookup l (assign k v m) = (if l = k then Some v else lookup l m)"
    and lookup_erase: "ok m \<Longrightarrow> lookup l (erase k m) = (if l = k then None else lookup l m)"
    and total_assign: "ok m \<Longrightarrow>
      total f (assign k v m) + (case lookup k m of None \<Rightarrow> 0 | Some w \<Rightarrow> f k w) = total f m + f k v"
    and total_erase: "ok m \<Longrightarrow> total f (erase k m) + (case lookup k m of None \<Rightarrow> 0 | Some w \<Rightarrow> f k w) = total f m"
begin

text \<open>Removing a list of keys removes exactly those.\<close>

lemma erase_all:
  "ok m \<Longrightarrow> ok (foldl (\<lambda>m k. erase k m) m ks)
     \<and> lookup l (foldl (\<lambda>m k. erase k m) m ks) = (if l \<in> set ks then None else lookup l m)"
  by (induction ks arbitrary: m) (auto simp: ok_erase lookup_erase)

lemma total_fresh: "ok m \<Longrightarrow> lookup k m = None \<Longrightarrow> total f (assign k v m) = total f m + f k v"
  using total_assign [of m f k v] by simp

lemma total_replace: "ok m \<Longrightarrow> lookup k m = Some w \<Longrightarrow> total f (assign k v m) + f k w = total f m + f k v"
  using total_assign [of m f k v] by simp

lemma total_remove: "ok m \<Longrightarrow> lookup k m = Some w \<Longrightarrow> total f (erase k m) + f k w = total f m"
  using total_erase [of m f k] by simp

lemma total_absent: "ok m \<Longrightarrow> lookup k m = None \<Longrightarrow> total f (erase k m) = total f m"
  using total_erase [of m f k] by simp

lemma total_member: "ok m \<Longrightarrow> lookup k m = Some w \<Longrightarrow> f k w \<le> total f m"
  using total_remove [of m k w f] by linarith

end

interpretation om: keyed_store "om_find :: 'k::linorder \<Rightarrow> ('k, 'v) omap \<Rightarrow> 'v option" om_assign om_erase om_total om_ok
  by unfold_locales (simp_all add: om_total_assign om_total_erase)

lemma om_lower_bound_Some:
  assumes "om_ok m" and "om_lower_bound k m = Some (l, v)"
  shows "(l, v) \<in> set m" and "k \<le> l" and "\<And>j w. (j, w) \<in> set m \<Longrightarrow> k \<le> j \<Longrightarrow> l \<le> j"
proof -
  have "(l, v) \<in> set m \<and> k \<le> l \<and> (\<forall>j w. (j, w) \<in> set m \<longrightarrow> k \<le> j \<longrightarrow> l \<le> j)"
    using assms unfolding om_lower_bound_def
    by (induction m) (auto split: if_splits dest: bspec)
  then show "(l, v) \<in> set m" and "k \<le> l" and "\<And>j w. (j, w) \<in> set m \<Longrightarrow> k \<le> j \<Longrightarrow> l \<le> j" by blast+
qed

lemma om_lower_bound_None: "om_lower_bound k m = None \<longleftrightarrow> (\<forall>e \<in> set m. \<not> k \<le> fst e)"
  by (auto simp: om_lower_bound_def find_None_iff)

end
