(* ===== verification/Send_Options.thy ===== *)
theory Send_Options
  imports Prelude
begin

text \<open>
  Per-message delivery options (\<open>send_options.h\<close>): which of the three options the caller
  set is a bit of \<open>so_bitmask\<close>, so that a transport can tell a value that was chosen from
  one that was left to its default. A key is represented by its id and its field.
\<close>

record SendOptions =
  so_bitmask :: u32
  so_reliable :: bool
  so_ordered :: bool
  so_channel :: u8

record SendOptionsInit =
  init_reliable :: bool
  init_ordered :: bool
  init_channel :: u8

definition ReliableKey :: nat where "ReliableKey = 0"
definition OrderedKey :: nat where "OrderedKey = 1"
definition ChannelKey :: nat where "ChannelKey = 2"

lemmas send_keys = ReliableKey_def OrderedKey_def ChannelKey_def

definition SendOptions_default :: SendOptions where
  "SendOptions_default = \<lparr>so_bitmask = 0, so_reliable = True, so_ordered = True, so_channel = 0\<rparr>"

definition SendOptions_of :: "SendOptionsInit \<Rightarrow> SendOptions" where
  "SendOptions_of init =
     \<lparr>so_bitmask = push_bit ReliableKey 1 OR push_bit OrderedKey 1 OR push_bit ChannelKey 1,
      so_reliable = init_reliable init, so_ordered = init_ordered init, so_channel = init_channel init\<rparr>"

definition Reliable :: "bool \<Rightarrow> SendOptions \<Rightarrow> SendOptions" where
  "Reliable v opts = opts\<lparr>so_bitmask := so_bitmask opts OR push_bit ReliableKey 1, so_reliable := v\<rparr>"

definition Ordered :: "bool \<Rightarrow> SendOptions \<Rightarrow> SendOptions" where
  "Ordered v opts = opts\<lparr>so_bitmask := so_bitmask opts OR push_bit OrderedKey 1, so_ordered := v\<rparr>"

definition Channel :: "u8 \<Rightarrow> SendOptions \<Rightarrow> SendOptions" where
  "Channel v opts = opts\<lparr>so_bitmask := so_bitmask opts OR push_bit ChannelKey 1, so_channel := v\<rparr>"

definition Has :: "nat \<Rightarrow> SendOptions \<Rightarrow> bool" where
  "Has key opts \<longleftrightarrow> so_bitmask opts AND push_bit key 1 \<noteq> 0"

definition GetOr :: "nat \<Rightarrow> (SendOptions \<Rightarrow> 'v) \<Rightarrow> 'v \<Rightarrow> SendOptions \<Rightarrow> 'v" where
  "GetOr key field def opts = (if Has key opts then field opts else def)"

definition GetOr_reliable :: "SendOptions \<Rightarrow> bool" where
  "GetOr_reliable = GetOr ReliableKey so_reliable True"

definition GetOr_ordered :: "SendOptions \<Rightarrow> bool" where
  "GetOr_ordered = GetOr OrderedKey so_ordered True"

definition GetOr_channel :: "SendOptions \<Rightarrow> u8" where
  "GetOr_channel = GetOr ChannelKey so_channel 0"

lemma Has_iff: "Has key opts \<longleftrightarrow> bit (so_bitmask opts) key"
proof -
  have "so_bitmask opts AND push_bit key 1 = (if bit (so_bitmask opts) key then push_bit key 1 else 0)"
    by (rule bit_word_eqI) (auto simp: bit_simps)
  moreover have "push_bit key (1 :: u32) \<noteq> 0" if "bit (so_bitmask opts) key"
  proof -
    have "key < 32" using bit_imp_le_length [OF that] by simp
    then show ?thesis by simp
  qed
  ultimately show ?thesis by (auto simp: Has_def)
qed

lemmas send_getters = GetOr_reliable_def GetOr_ordered_def GetOr_channel_def GetOr_def Has_iff send_keys

text \<open>A builder sets its own option and leaves what the others report.\<close>

lemma GetOr_builders [simp]:
  "GetOr_reliable (Reliable v opts) = v"
  "GetOr_reliable (Ordered v opts) = GetOr_reliable opts"
  "GetOr_reliable (Channel c opts) = GetOr_reliable opts"
  "GetOr_ordered (Ordered v opts) = v"
  "GetOr_ordered (Reliable v opts) = GetOr_ordered opts"
  "GetOr_ordered (Channel c opts) = GetOr_ordered opts"
  "GetOr_channel (Channel c opts) = c"
  "GetOr_channel (Reliable v opts) = GetOr_channel opts"
  "GetOr_channel (Ordered v opts) = GetOr_channel opts"
  by (simp_all add: send_getters Reliable_def Ordered_def Channel_def bit_simps)

lemma GetOr_default [simp]:
  "GetOr_reliable SendOptions_default" "GetOr_ordered SendOptions_default"
  "GetOr_channel SendOptions_default = 0"
  by (simp_all add: send_getters SendOptions_default_def)

lemma GetOr_of [simp]:
  "GetOr_reliable (SendOptions_of i) = init_reliable i"
  "GetOr_ordered (SendOptions_of i) = init_ordered i"
  "GetOr_channel (SendOptions_of i) = init_channel i"
  by (simp_all add: send_getters SendOptions_of_def bit_simps)

end
