(* ===== verification/Znet_Options.thy ===== *)
theory Znet_Options
  imports Send_Options
begin

text \<open>
  The option structures of \<open>options.h\<close> with their defaults, and the result codes of
  \<open>types.h\<close>. Durations are integers in the unit of the field (milliseconds, or seconds for
  the cookie rotation); an \<open>int\<close> of the source is an \<open>int\<close> here. The two socket buffer
  sizes of \<open>ZDTOptions\<close> are only handed to the operating system and are left out.
\<close>

datatype Result =
    Success | Failure | AlreadyStopped | AlreadyClosed | AlreadyDisconnected | CannotBind | NotBound
  | InvalidAddress | InvalidRemoteAddress | CannotCreateSocket | CannotListen | AlreadyConnectedResult
  | AlreadyListening | NotInitialized | AlreadyBound | InvalidBackend | InvalidTransport | Timeout
  | CannotConnect | NotConnected | IncompatibleVersion | ConnectionRefused | ServerFull | PeerNotFound
  | NotReady | QueueFull | InvalidArgument

datatype CompressionType = CompressionNone | Zstandard | CompressionDefault | CompressionValue u8

definition ZNET_MAX_BUFFER_SIZE :: nat where
  "ZNET_MAX_BUFFER_SIZE = 4096"

record MTULadder =
  ladder_rungs :: "u16 list"
  ladder_count :: u8

definition MTULadder_capacity :: nat where
  "MTULadder_capacity = 4"

definition MTULadder_default :: MTULadder where
  "MTULadder_default = \<lparr>ladder_rungs = [1492, 1200, 576, 0], ladder_count = 3\<rparr>"

fun ladder_set :: "u16 list \<Rightarrow> MTULadder \<Rightarrow> MTULadder" where
  "ladder_set [] l = l"
| "ladder_set (v # vs) l =
     (if unat (ladder_count l) = MTULadder_capacity then l
      else ladder_set vs (l\<lparr>ladder_rungs := (ladder_rungs l)[unat (ladder_count l) := v],
                            ladder_count := ladder_count l + 1\<rparr>))"

definition MTULadder_Set :: "u16 list \<Rightarrow> MTULadder \<Rightarrow> MTULadder" where
  "MTULadder_Set vs l = ladder_set vs (l\<lparr>ladder_count := 0\<rparr>)"

definition ladder_front :: "MTULadder \<Rightarrow> u16" where
  "ladder_front l = ladder_rungs l ! 0"

definition ladder_back :: "MTULadder \<Rightarrow> u16" where
  "ladder_back l = ladder_rungs l ! (if ladder_count l \<noteq> 0 then unat (ladder_count l) - 1 else 0)"

definition ladder_empty :: "MTULadder \<Rightarrow> bool" where
  "ladder_empty l \<longleftrightarrow> ladder_count l = 0"

record ZDTOptions =
  mtu_ladder :: MTULadder
  rto_min :: int
  rto_max :: int
  max_retries :: int
  max_datagrams_in_flight :: int
  max_messages_in_flight :: int
  handshake_retransmit :: int
  handshake_retries_per_rung :: int
  cookie_secret_rotation :: int
  zdt_max_connections :: int
  per_source_handshake_rate :: int
  enable_connection_migration :: bool
  reassembly_timeout :: int
  max_reassembly_bytes :: nat
  max_inbox_datagrams :: nat
  outbound_queue_capacity :: nat
  max_reassemblies :: nat

definition ZDTOptions_default :: ZDTOptions where
  "ZDTOptions_default = \<lparr>mtu_ladder = MTULadder_default, rto_min = 100, rto_max = 2000,
     max_retries = 10, max_datagrams_in_flight = 512, max_messages_in_flight = 4096,
     handshake_retransmit = 250, handshake_retries_per_rung = 4, cookie_secret_rotation = 120,
     zdt_max_connections = 4096, per_source_handshake_rate = 20, enable_connection_migration = False,
     reassembly_timeout = 5000, max_reassembly_bytes = 16 * 1024 * 1024, max_inbox_datagrams = 4096,
     outbound_queue_capacity = 4096, max_reassemblies = 256\<rparr>"

record CommonOptions =
  idle_timeout :: int
  keepalive_interval :: int
  opt_encryption :: bool
  opt_compression :: CompressionType
  compression_threshold :: nat
  send_queue_capacity :: nat
  dump_on_decode_failure :: bool
  max_invalid_frames :: u32

definition CommonOptions_default :: CommonOptions where
  "CommonOptions_default = \<lparr>idle_timeout = 10000, keepalive_interval = 1000, opt_encryption = True,
     opt_compression = CompressionDefault, compression_threshold = 128, send_queue_capacity = 512,
     dump_on_decode_failure = False, max_invalid_frames = 16\<rparr>"

text \<open>Setting the ladder keeps at most its capacity of rungs, in order.\<close>

lemma ladder_set_rungs:
  assumes "length (ladder_rungs l) = MTULadder_capacity" and "unat (ladder_count l) \<le> MTULadder_capacity"
  shows "take (unat (ladder_count (ladder_set vs l))) (ladder_rungs (ladder_set vs l))
      = take (unat (ladder_count l)) (ladder_rungs l) @ take (MTULadder_capacity - unat (ladder_count l)) vs
    \<and> length (ladder_rungs (ladder_set vs l)) = MTULadder_capacity
    \<and> unat (ladder_count (ladder_set vs l)) = min MTULadder_capacity (unat (ladder_count l) + length vs)"
  using assms
proof (induction vs l rule: ladder_set.induct)
  case (1 l)
  then show ?case by simp
next
  case (2 v vs l)
  show ?case
  proof (cases "unat (ladder_count l) = MTULadder_capacity")
    case True
    then show ?thesis using 2(2) by simp
  next
    case False
    let ?l = "l\<lparr>ladder_rungs := (ladder_rungs l)[unat (ladder_count l) := v], ladder_count := ladder_count l + 1\<rparr>"
    have c: "unat (ladder_count l + 1) = Suc (unat (ladder_count l))"
      using 2(3) False unat_add_lem [of "ladder_count l" 1] by (simp add: MTULadder_capacity_def)
    have t: "take (Suc (unat (ladder_count l))) ((ladder_rungs l)[unat (ladder_count l) := v])
        = take (unat (ladder_count l)) (ladder_rungs l) @ [v]"
      using 2(2,3) False by (simp add: take_Suc_conv_app_nth)
    have d: "MTULadder_capacity - unat (ladder_count l) = Suc (MTULadder_capacity - Suc (unat (ladder_count l)))"
      using 2(3) False by simp
    have "unat (ladder_count ?l) \<le> MTULadder_capacity" using c 2(3) False by simp
    with 2(1) [OF False] 2(2) show ?thesis using False c t d by auto
  qed
qed

end
