(* ===== verification/Zdt_State.thy ===== *)
theory Zdt_State
  imports Zdt_Wire Ack_History Zdt_Congestion Mpsc_Queue Ordered_Map Znet_Options
    "HOL-Library.Product_Lexorder"
begin

text \<open>
  The state of the per-peer ZDT transport: the structures of \<open>zdt_transport.h\<close>, its inbox
  (\<open>zdt_net.cc\<close>) and the connection parameters (\<open>zdt_connection.h\<close>). The operations are in
  \<open>Zdt_Receive\<close> (delivery and reassembly), \<open>Zdt_Send\<close> (packing, acknowledgments and
  retransmission) and \<open>Zdt_Transport\<close> (the tick).

  Every member function of \<open>ZDTTransportLayer\<close> is a function of the record
  \<open>ZDTTransport\<close>. The members are grouped: what names the network path (\<open>ZDTNet\<close>), what
  the receiving half owns (\<open>ZDTReceiver\<close>) and the rest. A call to the socket is an entry of
  \<open>net_wire\<close>, and the datagrams the socket hands up are an argument. Every function that
  reads the clock takes the reading as its argument \<open>now\<close>. A shared buffer is not changed
  after it was queued, so a \<open>shared_ptr\<close> to it is the buffer, and a pointer into it is the
  list of bytes from there on. Metrics and log lines are not modelled.
\<close>

section \<open>Data\<close>

record ZDTConnection =
  conn_mtu :: u16
  conn_local_guid :: u64
  conn_remote_guid :: u64
  conn_migration_enabled :: bool
  conn_relay_channel :: u32

definition ZDTConnection_default :: ZDTConnection where
  "ZDTConnection_default = \<lparr>conn_mtu = 1200, conn_local_guid = 0, conn_remote_guid = 0,
     conn_migration_enabled = False, conn_relay_channel = 0\<rparr>"

record ZDTInbound =
  in_datagram :: Buffer
  in_arrival :: TimePoint

record ZDTInbox =
  inbox_queue :: "ZDTInbound list"
  inbox_dropped :: nat

definition inbox_Push :: "TimePoint \<Rightarrow> Buffer \<Rightarrow> nat \<Rightarrow> ZDTInbox \<Rightarrow> bool \<times> ZDTInbox" where
  "inbox_Push now datagram limit i =
     (if length (inbox_queue i) \<ge> limit
      then (False, i\<lparr>inbox_dropped := sz_add (inbox_dropped i) 1\<rparr>)
      else (True, i\<lparr>inbox_queue := inbox_queue i @ [\<lparr>in_datagram = datagram, in_arrival = now\<rparr>]\<rparr>))"

definition inbox_Drain :: "ZDTInbox \<Rightarrow> ZDTInbound list \<times> ZDTInbox" where
  "inbox_Drain i = (inbox_queue i, i\<lparr>inbox_queue := []\<rparr>)"

datatype MsgKey =
  MsgKey (key_channel: u8) (key_reliable: bool) (key_frag_index: u8) (key_message_seq: SequenceId)

definition key_tie :: "MsgKey \<Rightarrow> u8 \<times> bool \<times> SequenceId \<times> u8" where
  "key_tie k = (key_channel k, key_reliable k, key_message_seq k, key_frag_index k)"

lemma key_tie_inject: "key_tie a = key_tie b \<longleftrightarrow> a = b"
  by (cases a; cases b) (auto simp: key_tie_def)

instantiation MsgKey :: linorder
begin

definition less_eq_MsgKey :: "MsgKey \<Rightarrow> MsgKey \<Rightarrow> bool" where
  "less_eq_MsgKey a b \<longleftrightarrow> key_tie a \<le> key_tie b"

definition less_MsgKey :: "MsgKey \<Rightarrow> MsgKey \<Rightarrow> bool" where
  "less_MsgKey a b \<longleftrightarrow> key_tie a < key_tie b"

instance
  by standard (auto simp: less_eq_MsgKey_def less_MsgKey_def key_tie_inject [symmetric])

end

record TransmissionLog =
  log_items :: "WireSeq list"
  log_count :: nat
  log_next :: nat

definition log_capacity :: nat where "log_capacity = 16"

definition TransmissionLog_empty :: TransmissionLog where
  "TransmissionLog_empty = \<lparr>log_items = replicate log_capacity 0, log_count = 0, log_next = 0\<rparr>"

definition log_Add :: "WireSeq \<Rightarrow> TransmissionLog \<Rightarrow> TransmissionLog" where
  "log_Add seq l = l\<lparr>log_items := (log_items l)[log_next l := seq],
     log_next := (log_next l + 1) mod log_capacity,
     log_count := (if log_count l < log_capacity then log_count l + 1 else log_count l)\<rparr>"

definition log_entries :: "TransmissionLog \<Rightarrow> WireSeq list" where
  "log_entries l = take (log_count l) (log_items l)"

definition MakeLog :: "WireSeq \<Rightarrow> TransmissionLog" where
  "MakeLog seq = log_Add seq TransmissionLog_empty"

record SentInfo =
  si_send_time :: TimePoint
  si_keys :: "MsgKey list"

definition si_kMaxKeys :: nat where "si_kMaxKeys = 64"

definition si_Add :: "MsgKey \<Rightarrow> SentInfo \<Rightarrow> SentInfo" where
  "si_Add key info = (if length (si_keys info) < si_kMaxKeys
     then info\<lparr>si_keys := si_keys info @ [key]\<rparr> else info)"

record PendingRecord =
  pr_record :: ZDTRecord
  pr_owner :: Buffer
  pr_payload :: "bytes option"
  pr_payload_len :: nat
  pr_reliable :: bool
  pr_key :: MsgKey

record QueuedOut =
  qo_payload :: Buffer
  qo_options :: SendOptions

record OutReliable =
  or_message :: Buffer
  or_offset :: nat
  or_length :: nat
  or_channel :: u8
  or_message_seq :: WireSeq
  or_frag_index :: u8
  or_frag_count :: u8
  or_data_flags :: u8
  or_last_send :: TimePoint
  or_send_count :: int
  or_packets :: TransmissionLog

record Reassembly =
  ra_frag_count :: u8
  ra_fragments :: "(u8, bytes) omap"
  ra_first_seen :: TimePoint

record ChannelState =
  rel_send :: SequenceId
  unrel_send :: SequenceId
  rel_expected :: SequenceId
  rel_reorder :: "(SequenceId, Buffer) omap"
  rel_delivered_ahead :: "SequenceId list"
  unrel_last :: SequenceId
  unrel_started :: bool

definition ChannelState_init :: ChannelState where
  "ChannelState_init = \<lparr>rel_send = 0, unrel_send = 0, rel_expected = 0, rel_reorder = [],
     rel_delivered_ahead = [], unrel_last = 0, unrel_started = False\<rparr>"

record StagedLane =
  lane_channel :: u8
  lane_messages :: "QueuedOut list"

record ZDTReceiver =
  rx_ready :: "Buffer list"
  rx_channels :: "u8 \<Rightarrow> ChannelState"
  rx_reassembly :: "(MsgKey, Reassembly) omap"
  rx_reassembly_bytes :: nat

record ZDTNet =
  net_socket :: "nat option"
  net_peer :: "InetAddress option"
  net_pending_peer :: "InetAddress option"
  net_pending_socket :: "nat option"
  net_drains_own_socket :: bool
  net_wire :: "(nat \<times> InetAddress \<times> bytes) list"
  net_shut :: "nat list"

record ZDTTransport =
  zt_net :: ZDTNet
  zt_config :: ZDTOptions
  zt_inbox :: ZDTInbox
  zt_connection :: ZDTConnection
  zt_next_packet_seq :: WireSeq
  zt_rx :: ZDTReceiver
  zt_outbound :: "QueuedOut MpscQueue"
  zt_staged :: "StagedLane list"
  zt_staged_count :: nat
  zt_staged_cursor :: nat
  zt_send_scratch :: Buffer
  zt_is_closed :: bool
  zt_keepalive_interval :: int
  zt_idle_timeout :: int
  zt_last_recv :: TimePoint
  zt_last_send :: TimePoint
  zt_rtt :: ZDTRttEstimator
  zt_sent_packets :: "(WireSeq, SentInfo) omap"
  zt_in_flight_datagrams :: nat
  zt_unacked :: "(MsgKey, OutReliable) omap"
  zt_next_retransmit_scan :: TimePoint
  zt_tail_probe_at :: TimePoint
  zt_tail_probes_fired :: int
  zt_ack_history :: ZDTAckHistory
  zt_congestion :: ZDTCongestionController
  zt_needs_ack :: bool

definition TimePoint_min :: TimePoint where "TimePoint_min = - (2 ^ 63)"
definition TimePoint_max :: TimePoint where "TimePoint_max = 2 ^ 63 - 1"

definition size_of_int :: "int \<Rightarrow> nat" where
  "size_of_int v = nat (v mod 2 ^ 64)"

definition inet_ipv :: "InetAddress \<Rightarrow> InetProtocolVersion" where
  "inet_ipv a = (case a of InetAddressIPv4 _ _ \<Rightarrow> IPv4 | InetAddressIPv6 _ _ \<Rightarrow> IPv6
     | InetAddressUnix _ \<Rightarrow> Unix)"

definition ZDTTransport_new ::
  "TimePoint \<Rightarrow> nat option \<Rightarrow> InetAddress option \<Rightarrow> ZDTOptions \<Rightarrow> bool \<Rightarrow> ZDTInbox option
     \<Rightarrow> ZDTConnection \<Rightarrow> CommonOptions \<Rightarrow> ZDTTransport" where
  "ZDTTransport_new now socket peer config drains_own_socket inbox connection common =
     \<lparr>zt_net = \<lparr>net_socket = socket, net_peer = peer, net_pending_peer = None, net_pending_socket = None,
        net_drains_own_socket = drains_own_socket, net_wire = [], net_shut = []\<rparr>,
      zt_config = config,
      zt_inbox = (case inbox of Some i \<Rightarrow> i | None \<Rightarrow> \<lparr>inbox_queue = [], inbox_dropped = 0\<rparr>),
      zt_connection = connection, zt_next_packet_seq = 1,
      zt_rx = \<lparr>rx_ready = [], rx_channels = (\<lambda>_. ChannelState_init), rx_reassembly = [],
        rx_reassembly_bytes = 0\<rparr>,
      zt_outbound = MpscQueue_new (outbound_queue_capacity config),
      zt_staged = [], zt_staged_count = 0, zt_staged_cursor = 0, zt_send_scratch = Buffer_new BigEndian,
      zt_is_closed = False, zt_keepalive_interval = keepalive_interval common,
      zt_idle_timeout = idle_timeout common, zt_last_recv = now, zt_last_send = now,
      zt_rtt = Rtt_Reset (Clamp 200 (rto_min config) (rto_max config)) ZDTRttEstimator_init,
      zt_sent_packets = [], zt_in_flight_datagrams = 0, zt_unacked = [],
      zt_next_retransmit_scan = TimePoint_min, zt_tail_probe_at = TimePoint_max,
      zt_tail_probes_fired = 0, zt_ack_history = ZDTAckHistory_init,
      zt_congestion = ZDTCongestionController_init, zt_needs_ack = False\<rparr>"

end
