(* ===== verification/Zdt_Delivery.thy ===== *)
theory Zdt_Delivery
  imports Zdt_Receive
begin

text \<open>
  What the delivery modes promise. Messages are numbered from 0; \<open>m i\<close> is the payload of
  message \<open>i\<close>, and a list of numbers is the order in which they arrive, with losses,
  repetitions and reordering. \<open>mex S\<close> is the first number missing from the set \<open>S\<close> of those
  that have arrived.
\<close>

section \<open>The first missing number\<close>

definition mex :: "nat set \<Rightarrow> nat" where
  "mex S = (LEAST k. k \<notin> S)"

lemma mex_notin: "finite S \<Longrightarrow> mex S \<notin> S"
  unfolding mex_def by (rule LeastI_ex) (metis ex_new_if_finite infinite_UNIV_nat)

lemma below_mex: "i < mex S \<Longrightarrow> i \<in> S"
  unfolding mex_def using not_less_Least by blast

lemma mexI: "k \<notin> S \<Longrightarrow> (\<And>i. i < k \<Longrightarrow> i \<in> S) \<Longrightarrow> mex S = k"
  unfolding mex_def by (metis Least_equality not_le)

lemma mex_empty [simp]: "mex {} = 0"
  by (rule mexI) simp_all

lemma mex_le: "S \<subseteq> {..<n} \<Longrightarrow> mex S \<le> n"
  unfolding mex_def by (rule Least_le) auto

lemma mex_insert_other: "finite S \<Longrightarrow> i \<noteq> mex S \<Longrightarrow> mex (insert i S) = mex S"
  by (rule mexI) (auto simp: mex_notin below_mex)

lemma Suc_le_iff: "Suc k \<le> i \<longleftrightarrow> k \<le> i \<and> i \<noteq> k"
  by auto

section \<open>Records and windows\<close>

definition wire_record :: "u8 \<Rightarrow> u8 \<Rightarrow> nat \<Rightarrow> ZDTRecord" where
  "wire_record flags c i = ZDTRecord_init\<lparr>rec_flags := flags, rec_channel := c, rec_message_seq := word_of_nat i\<rparr>"

definition near :: "nat \<Rightarrow> nat \<Rightarrow> bool" where
  "near k i \<longleftrightarrow> k \<le> i + 32768 \<and> i < k + 32768"

lemma unat_word64: "i < 2 ^ 63 \<Longrightarrow> unat (word_of_nat i :: u64) = i"
  by (rule unat_of_nat_small) simp

lemma word64_less: "i < 2 ^ 63 \<Longrightarrow> j < 2 ^ 63 \<Longrightarrow> (word_of_nat i :: u64) < word_of_nat j \<longleftrightarrow> i < j"
  by (simp add: word_less_nat_alt unat_word64)

lemma word64_eq: "i < 2 ^ 63 \<Longrightarrow> j < 2 ^ 63 \<Longrightarrow> (word_of_nat i :: u64) = word_of_nat j \<longleftrightarrow> i = j"
  by (metis unat_word64)

lemma word64_Suc: "(word_of_nat i :: u64) + 1 = word_of_nat (Suc i)"
  by simp

lemma reconstruct_near:
  assumes "k < 2 ^ 63" and "i < 2 ^ 63" and "near k i"
  shows "ReconstructSeq (word_of_nat i) (word_of_nat k) = word_of_nat i"
proof -
  have "(word_of_nat i :: u16) = ucast (word_of_nat i :: u64)"
    using assms(2) by (simp add: word_unat_eq_iff unsigned_ucast_eq unsigned_of_nat take_bit_eq_mod)
  then show ?thesis
    using ReconstructSeq_correct [of "word_of_nat k" "word_of_nat i"] assms by (simp add: unat_word64 near_def)
qed

section \<open>Reliable and ordered\<close>

definition holds_above :: "(nat \<Rightarrow> Buffer) \<Rightarrow> nat set \<Rightarrow> nat \<Rightarrow> (SequenceId, Buffer) omap \<Rightarrow> bool" where
  "holds_above m S k mp \<longleftrightarrow> om_ok mp
     \<and> (\<forall>w. om_find w mp = (if unat w \<in> S \<and> k \<le> unat w then Some (m (unat w)) else None))"

lemma holds_above_step:
  assumes "holds_above m S k mp" and "k < 2 ^ 63"
  shows "holds_above m S (Suc k) (om_erase (word_of_nat k) mp)"
proof -
  have "Suc k \<le> unat w \<longleftrightarrow> k \<le> unat w \<and> w \<noteq> word_of_nat k" for w :: u64
    using unat_word64 [OF assms(2)] by (auto simp: word_unat_eq_iff)
  then show ?thesis using assms(1) by (simp add: holds_above_def)
qed

lemma holds_above_insert:
  assumes "holds_above m S k mp" and "i < 2 ^ 63" and "k \<le> i"
  shows "holds_above m (insert i S) k
    (case om_find (word_of_nat i) mp of None \<Rightarrow> om_assign (word_of_nat i) (m i) mp | Some _ \<Rightarrow> mp)"
proof (cases "i \<in> S")
  case True
  then show ?thesis using assms unat_word64 [OF assms(2)] by (simp add: holds_above_def insert_absorb)
next
  case False
  have "w = word_of_nat i \<longleftrightarrow> unat w = i" for w :: u64
    using unat_word64 [OF assms(2)] by (auto simp: word_unat_eq_iff)
  then show ?thesis using assms False unat_word64 [OF assms(2)] by (auto simp: holds_above_def)
qed

lemma release_run_spec:
  assumes "holds_above m S k (rel_reorder ch)" and "rel_expected ch = word_of_nat k"
    and "S \<subseteq> {..<2 ^ 62}" and "k \<le> 2 ^ 62"
  shows "\<exists>k' mp. k \<le> k' \<and> k' \<notin> S \<and> (\<forall>i. k \<le> i \<and> i < k' \<longrightarrow> i \<in> S) \<and> holds_above m S k' mp
     \<and> release_run ch ready = (ch\<lparr>rel_expected := word_of_nat k', rel_reorder := mp\<rparr>, ready @ map m [k..<k'])"
  using assms
proof (induction ch ready arbitrary: k rule: release_run.induct)
  case (1 ch ready)
  have u: "unat (word_of_nat k :: u64) = k" using 1(5) by (intro unat_word64) simp
  show ?case
  proof (cases "k \<in> S")
    case False
    then have "om_find (rel_expected ch) (rel_reorder ch) = None"
      using 1(2,3) u by (simp add: holds_above_def)
    then have "release_run ch ready = (ch, ready)" by (subst release_run.simps) simp
    moreover have "ch = ch\<lparr>rel_expected := word_of_nat k, rel_reorder := rel_reorder ch\<rparr>" using 1(3) by simp
    ultimately show ?thesis using False 1(2) by (intro exI [of _ k]) auto
  next
    case True
    let ?ch = "ch\<lparr>rel_reorder := om_erase (rel_expected ch) (rel_reorder ch), rel_expected := rel_expected ch + 1\<rparr>"
    have f: "om_find (rel_expected ch) (rel_reorder ch) = Some (m k)"
      using 1(2,3) u True by (simp add: holds_above_def)
    have "k < 2 ^ 62" using True 1(4) by auto
    then have h: "holds_above m S (Suc k) (rel_reorder ?ch)" using holds_above_step [OF 1(2)] 1(3) by simp
    have e: "rel_expected ?ch = word_of_nat (Suc k)" using 1(3) by simp
    obtain k' mp where k': "Suc k \<le> k'" "k' \<notin> S" "\<forall>i. Suc k \<le> i \<and> i < k' \<longrightarrow> i \<in> S" "holds_above m S k' mp"
        "release_run ?ch (ready @ [m k]) = (?ch\<lparr>rel_expected := word_of_nat k', rel_reorder := mp\<rparr>,
           (ready @ [m k]) @ map m [Suc k..<k'])"
      using 1(1) [OF f h e 1(4)] \<open>k < 2 ^ 62\<close> by auto
    have "release_run ch ready = release_run ?ch (ready @ [m k])" using f by (subst release_run.simps) simp
    moreover have "map m [k..<k'] = m k # map m [Suc k..<k']" using k'(1) by (simp add: upt_rec [of k])
    moreover have "\<forall>i. k \<le> i \<and> i < k' \<longrightarrow> i \<in> S" using k'(3) True by (metis le_neq_implies_less Suc_leI)
    ultimately show ?thesis using k' by (intro exI [of _ k'] exI [of _ mp]) simp
  qed
qed

definition ordered_ok :: "(nat \<Rightarrow> Buffer) \<Rightarrow> nat set \<Rightarrow> ChannelState \<Rightarrow> bool" where
  "ordered_ok m S ch \<longleftrightarrow> finite S \<and> S \<subseteq> {..<2 ^ 62} \<and> rel_expected ch = word_of_nat (mex S)
     \<and> holds_above m S (mex S) (rel_reorder ch)"

lemma flags_reliable_ordered [simp]:
  "has_flag (kRecReliable OR kRecOrdered) kRecReliable" "has_flag (kRecReliable OR kRecOrdered) kRecOrdered"
  "has_flag kRecReliable kRecReliable" "\<not> has_flag kRecReliable kRecOrdered"
  "\<not> has_flag kRecOrdered kRecReliable" "has_flag kRecOrdered kRecOrdered"
  by (simp_all add: has_flag_def kRecReliable_def kRecOrdered_def)

lemma wire_record_fields [simp]:
  "rec_flags (wire_record flags c i) = flags" "rec_channel (wire_record flags c i) = c"
  "rec_message_seq (wire_record flags c i) = word_of_nat i"
  by (simp_all add: wire_record_def)

lemma ordered_step:
  assumes "ordered_ok m S (rx_channels rx c)" and "i < 2 ^ 62" and "near (mex S) i"
  defines "rx' \<equiv> DeliverMessage (wire_record (kRecReliable OR kRecOrdered) c i) (m i) rx"
  shows "ordered_ok m (insert i S) (rx_channels rx' c)"
    and "rx_ready rx' = rx_ready rx @ map m [mex S..<mex (insert i S)]"
proof -
  let ?ch = "rx_channels rx c"
  have fin: "finite S" and sub: "S \<subseteq> {..<2 ^ 62}" and e: "rel_expected ?ch = word_of_nat (mex S)"
    and h: "holds_above m S (mex S) (rel_reorder ?ch)" using assms(1) by (simp_all add: ordered_ok_def)
  have k: "mex S \<le> 2 ^ 62" by (rule mex_le [OF sub])
  then have k63: "mex S < 2 ^ 63" by simp
  have i63: "i < 2 ^ 63" using assms(2) by simp
  have seq: "ReconstructSeqFor (wire_record (kRecReliable OR kRecOrdered) c i) rx = word_of_nat i"
    using reconstruct_near [OF k63 i63 assms(3)] e by (simp add: ReconstructSeqFor_def Let_def)
  note simps = DeliverMessage_def Let_def seq e word64_less [OF i63 k63] word64_eq [OF i63 k63]
  consider "i < mex S" | "i = mex S" | "mex S < i" by linarith
  then have "ordered_ok m (insert i S) (rx_channels rx' c)
      \<and> rx_ready rx' = rx_ready rx @ map m [mex S..<mex (insert i S)]"
  proof cases
    case 1
    then have "insert i S = S" using below_mex by blast
    moreover have "rx' = rx" using 1 by (simp add: rx'_def simps)
    ultimately show ?thesis using assms(1) by simp
  next
    case 3
    have "mex (insert i S) = mex S" using 3 fin by (simp add: mex_insert_other)
    moreover have "rel_reorder (rx_channels rx' c) = (case om_find (word_of_nat i) (rel_reorder ?ch) of
        None \<Rightarrow> om_assign (word_of_nat i) (m i) (rel_reorder ?ch) | Some _ \<Rightarrow> rel_reorder ?ch)"
      "rel_expected (rx_channels rx' c) = word_of_nat (mex S)" "rx_ready rx' = rx_ready rx"
      using 3 by (simp_all add: rx'_def simps set_channel_def)
    moreover have "holds_above m (insert i S) (mex S) (case om_find (word_of_nat i) (rel_reorder ?ch) of
        None \<Rightarrow> om_assign (word_of_nat i) (m i) (rel_reorder ?ch) | Some _ \<Rightarrow> rel_reorder ?ch)"
      using holds_above_insert [OF h i63] 3 by simp
    ultimately show ?thesis using fin sub assms(2) by (simp add: ordered_ok_def)
  next
    case 2
    let ?c1 = "?ch\<lparr>rel_expected := rel_expected ?ch + 1\<rparr>"
    have "holds_above m (insert i S) (Suc i) (rel_reorder ?c1)"
      using h 2 mex_notin [OF fin] by (auto simp: holds_above_def Suc_le_iff)
    moreover have "insert i S \<subseteq> {..<2 ^ 62}" "Suc i \<le> 2 ^ 62" using sub assms(2) by auto
    moreover have "rel_expected ?c1 = word_of_nat (Suc i)" using e 2 by simp
    ultimately obtain k' mp where k': "Suc i \<le> k'" "k' \<notin> insert i S"
        "\<forall>j. Suc i \<le> j \<and> j < k' \<longrightarrow> j \<in> insert i S" "holds_above m (insert i S) k' mp"
        "release_run ?c1 (rx_ready rx @ [m i]) = (?c1\<lparr>rel_expected := word_of_nat k', rel_reorder := mp\<rparr>,
           (rx_ready rx @ [m i]) @ map m [Suc i..<k'])"
      using release_run_spec [of m "insert i S" "Suc i" ?c1 "rx_ready rx @ [m i]"] by blast
    have "mex (insert i S) = k'"
      using k'(1,2,3) 2 below_mex [of _ S] by (intro mexI) (auto, metis Suc_leI nat_neq_iff)
    moreover have "map m [i..<k'] = m i # map m [Suc i..<k']" using k'(1) by (simp add: upt_rec [of i])
    ultimately show ?thesis
      using 2 k'(4,5) fin sub assms(2) by (simp add: rx'_def simps seq [unfolded 2] set_channel_def ordered_ok_def)
  qed
  then show "ordered_ok m (insert i S) (rx_channels rx' c)"
    and "rx_ready rx' = rx_ready rx @ map m [mex S..<mex (insert i S)]" by blast+
qed

fun ordered_window :: "nat set \<Rightarrow> nat list \<Rightarrow> bool" where
  "ordered_window S [] \<longleftrightarrow> True"
| "ordered_window S (i # is) \<longleftrightarrow> i < 2 ^ 62 \<and> near (mex S) i \<and> ordered_window (insert i S) is"

definition arrive :: "u8 \<Rightarrow> u8 \<Rightarrow> (nat \<Rightarrow> Buffer) \<Rightarrow> nat list \<Rightarrow> ZDTReceiver \<Rightarrow> ZDTReceiver" where
  "arrive flags c m is rx = foldl (\<lambda>rx i. DeliverMessage (wire_record flags c i) (m i) rx) rx is"

lemma arrive_simps [simp]:
  "arrive flags c m [] rx = rx"
  "arrive flags c m (i # is) rx = arrive flags c m is (DeliverMessage (wire_record flags c i) (m i) rx)"
  by (simp_all add: arrive_def)

lemma mex_mono: "finite T \<Longrightarrow> S \<subseteq> T \<Longrightarrow> mex S \<le> mex T"
  using mex_notin [of T] below_mex [of "mex T" S] by (metis not_le subsetD)

lemma ordered_arrive:
  assumes "ordered_ok m S (rx_channels rx c)" and "ordered_window S is"
  defines "rx' \<equiv> arrive (kRecReliable OR kRecOrdered) c m is rx"
  shows "ordered_ok m (S \<union> set is) (rx_channels rx' c)
    \<and> rx_ready rx' = rx_ready rx @ map m [mex S..<mex (S \<union> set is)]"
  unfolding rx'_def using assms(1,2)
proof (induction "is" arbitrary: S rx)
  case Nil
  then show ?case by simp
next
  case (Cons i "is")
  let ?rx = "DeliverMessage (wire_record (kRecReliable OR kRecOrdered) c i) (m i) rx"
  note st = ordered_step [OF Cons.prems(1), of i]
  have ok: "ordered_ok m (insert i S) (rx_channels ?rx c)"
    and rd: "rx_ready ?rx = rx_ready rx @ map m [mex S..<mex (insert i S)]"
    using st Cons.prems(2) by simp_all
  have fin: "finite (insert i (S \<union> set is))" using Cons.prems(1) by (simp add: ordered_ok_def)
  have "mex S \<le> mex (insert i S)" "mex (insert i S) \<le> mex (insert i (S \<union> set is))"
    using fin by (auto intro!: mex_mono)
  then have "[mex S..<mex (insert i (S \<union> set is))]
      = [mex S..<mex (insert i S)] @ [mex (insert i S)..<mex (insert i (S \<union> set is))]"
    by (metis le_add_diff_inverse upt_add_eq_append)
  then show ?case using Cons.IH [OF ok] Cons.prems(2) rd by simp
qed

lemma ordered_ok_init: "rel_expected ch = 0 \<Longrightarrow> rel_reorder ch = [] \<Longrightarrow> ordered_ok m {} ch"
  by (simp add: ordered_ok_def holds_above_def)

section \<open>Reliable and unordered\<close>

definition unordered_ok :: "nat set \<Rightarrow> ChannelState \<Rightarrow> bool" where
  "unordered_ok S ch \<longleftrightarrow> finite S \<and> S \<subseteq> {..<2 ^ 62} \<and> rel_expected ch = word_of_nat (mex S)
     \<and> (\<forall>w. w \<in> set (rel_delivered_ahead ch) \<longleftrightarrow> unat w \<in> S \<and> mex S \<le> unat w)"

lemma absorb_ahead_spec:
  assumes "\<forall>w. w \<in> set (rel_delivered_ahead ch) \<longleftrightarrow> unat w \<in> S \<and> k \<le> unat w"
    and "rel_expected ch = word_of_nat k" and "S \<subseteq> {..<2 ^ 62}" and "k \<le> 2 ^ 62"
  shows "\<exists>k'. k \<le> k' \<and> k' \<notin> S \<and> (\<forall>i. k \<le> i \<and> i < k' \<longrightarrow> i \<in> S) \<and> rel_expected (absorb_ahead ch) = word_of_nat k'
     \<and> (\<forall>w. w \<in> set (rel_delivered_ahead (absorb_ahead ch)) \<longleftrightarrow> unat w \<in> S \<and> k' \<le> unat w)"
  using assms
proof (induction ch arbitrary: k rule: absorb_ahead.induct)
  case (1 ch)
  have u: "unat (word_of_nat k :: u64) = k" using 1(5) by (intro unat_word64) simp
  show ?case
  proof (cases "k \<in> S")
    case False
    then have "absorb_ahead ch = ch" using 1(2,3) u by (subst absorb_ahead.simps) simp
    then show ?thesis using False 1(2,3) by (intro exI [of _ k]) auto
  next
    case True
    let ?ch = "ch\<lparr>rel_delivered_ahead := removeAll (rel_expected ch) (rel_delivered_ahead ch),
                  rel_expected := rel_expected ch + 1\<rparr>"
    have f: "rel_expected ch \<in> set (rel_delivered_ahead ch)" using 1(2,3) u True by simp
    have "k < 2 ^ 62" using True 1(4) by auto
    have "w = word_of_nat k \<longleftrightarrow> unat w = k" for w :: u64 using u by (auto simp: word_unat_eq_iff)
    then have "\<forall>w. w \<in> set (rel_delivered_ahead ?ch) \<longleftrightarrow> unat w \<in> S \<and> Suc k \<le> unat w"
      using 1(2,3) by (auto simp: Suc_le_iff)
    moreover have "rel_expected ?ch = word_of_nat (Suc k)" using 1(3) by simp
    ultimately obtain k' where k': "Suc k \<le> k'" "k' \<notin> S" "\<forall>i. Suc k \<le> i \<and> i < k' \<longrightarrow> i \<in> S"
        "rel_expected (absorb_ahead ?ch) = word_of_nat k'"
        "\<forall>w. w \<in> set (rel_delivered_ahead (absorb_ahead ?ch)) \<longleftrightarrow> unat w \<in> S \<and> k' \<le> unat w"
      using 1(1) [OF f] 1(4) \<open>k < 2 ^ 62\<close> by (metis Suc_leI)
    have "absorb_ahead ch = absorb_ahead ?ch" using f by (subst absorb_ahead.simps) simp
    moreover have "\<forall>i. k \<le> i \<and> i < k' \<longrightarrow> i \<in> S" using k'(3) True by (metis le_neq_implies_less Suc_leI)
    ultimately show ?thesis using k' by (intro exI [of _ k']) auto
  qed
qed

lemma unordered_step:
  fixes m :: "nat \<Rightarrow> Buffer"
  assumes "unordered_ok S (rx_channels rx c)" and "i < 2 ^ 62" and "near (mex S) i"
  defines "rx' \<equiv> DeliverMessage (wire_record kRecReliable c i) (m i) rx"
  shows "unordered_ok (insert i S) (rx_channels rx' c)"
    and "rx_ready rx' = rx_ready rx @ (if i \<in> S then [] else [m i])"
proof -
  let ?ch = "rx_channels rx c"
  have fin: "finite S" and sub: "S \<subseteq> {..<2 ^ 62}" and e: "rel_expected ?ch = word_of_nat (mex S)"
    and h: "\<forall>w. w \<in> set (rel_delivered_ahead ?ch) \<longleftrightarrow> unat w \<in> S \<and> mex S \<le> unat w"
    using assms(1) by (simp_all add: unordered_ok_def)
  have k: "mex S \<le> 2 ^ 62" by (rule mex_le [OF sub])
  then have k63: "mex S < 2 ^ 63" by simp
  have i63: "i < 2 ^ 63" using assms(2) by simp
  have seq: "ReconstructSeqFor (wire_record kRecReliable c i) rx = word_of_nat i"
    using reconstruct_near [OF k63 i63 assms(3)] e by (simp add: ReconstructSeqFor_def Let_def)
  have u: "w = word_of_nat i \<longleftrightarrow> unat w = i" for w :: u64 using unat_word64 [OF i63] by (auto simp: word_unat_eq_iff)
  have dup: "word_of_nat i < rel_expected ?ch \<or> word_of_nat i \<in> set (rel_delivered_ahead ?ch) \<longleftrightarrow> i \<in> S"
    using h below_mex [of i S] by (auto simp: e word64_less [OF i63 k63] unat_word64 [OF i63])
  note simps = DeliverMessage_def Let_def seq dup set_channel_def rx_push_def
  have "unordered_ok (insert i S) (rx_channels rx' c) \<and> rx_ready rx' = rx_ready rx @ (if i \<in> S then [] else [m i])"
  proof (cases "i \<in> S")
    case True
    then have "rx' = rx" by (simp add: rx'_def simps)
    then show ?thesis using True assms(1) by (simp add: insert_absorb)
  next
    case False
    let ?c1 = "?ch\<lparr>rel_delivered_ahead := List.insert (word_of_nat i) (rel_delivered_ahead ?ch)\<rparr>"
    have "mex S \<le> i" using False below_mex [of i S] by (metis not_le)
    then have "\<forall>w. w \<in> set (rel_delivered_ahead ?c1) \<longleftrightarrow> unat w \<in> insert i S \<and> mex S \<le> unat w"
      using h u by (auto simp: unat_word64 [OF i63])
    moreover have "rel_expected ?c1 = word_of_nat (mex S)" "insert i S \<subseteq> {..<2 ^ 62}" using e sub assms(2) by auto
    ultimately obtain k' where k': "mex S \<le> k'" "k' \<notin> insert i S" "\<forall>j. mex S \<le> j \<and> j < k' \<longrightarrow> j \<in> insert i S"
        "rel_expected (absorb_ahead ?c1) = word_of_nat k'"
        "\<forall>w. w \<in> set (rel_delivered_ahead (absorb_ahead ?c1)) \<longleftrightarrow> unat w \<in> insert i S \<and> k' \<le> unat w"
      using absorb_ahead_spec [of ?c1 "insert i S" "mex S"] k by blast
    have "mex (insert i S) = k'" using k'(2,3) below_mex [of _ S] by (intro mexI) (auto, metis not_le)
    moreover have "rx' = set_channel c (absorb_ahead ?c1) (rx_push (m i) rx)" using False by (simp add: rx'_def simps)
    ultimately show ?thesis
      using k'(4,5) False fin sub assms(2) by (simp add: set_channel_def rx_push_def unordered_ok_def)
  qed
  then show "unordered_ok (insert i S) (rx_channels rx' c)"
    and "rx_ready rx' = rx_ready rx @ (if i \<in> S then [] else [m i])" by blast+
qed

text \<open>The first arrival of each message, in the order of arrival.\<close>

fun first_arrivals :: "nat set \<Rightarrow> nat list \<Rightarrow> nat list" where
  "first_arrivals S [] = []"
| "first_arrivals S (i # is) = (if i \<in> S then first_arrivals S is else i # first_arrivals (insert i S) is)"

lemma first_arrivals_once:
  "distinct (first_arrivals S is) \<and> set (first_arrivals S is) = set is - S"
  by (induction S "is" rule: first_arrivals.induct) auto

lemma unordered_arrive:
  assumes "unordered_ok S (rx_channels rx c)" and "ordered_window S is"
  shows "rx_ready (arrive kRecReliable c m is rx) = rx_ready rx @ map m (first_arrivals S is)"
  using assms
proof (induction "is" arbitrary: S rx)
  case (Cons i "is")
  let ?rx = "DeliverMessage (wire_record kRecReliable c i) (m i) rx"
  have ok: "unordered_ok (insert i S) (rx_channels ?rx c)"
    and rd: "rx_ready ?rx = rx_ready rx @ (if i \<in> S then [] else [m i])"
    using unordered_step [OF Cons.prems(1), of i] Cons.prems(2) by simp_all
  show ?case using Cons.IH [OF ok] Cons.prems(2) rd by (cases "i \<in> S") (simp_all add: insert_absorb)
qed simp

lemma unordered_ok_init: "rel_expected ch = 0 \<Longrightarrow> rel_delivered_ahead ch = [] \<Longrightarrow> unordered_ok {} ch"
  by (simp add: unordered_ok_def)

section \<open>Unreliable and sequenced\<close>

fun newer :: "nat option \<Rightarrow> nat list \<Rightarrow> nat list" where
  "newer l [] = []"
| "newer l (i # is) = (if (case l of None \<Rightarrow> True | Some k \<Rightarrow> k < i) then i # newer (Some i) is else newer l is)"

definition sequenced_ok :: "nat option \<Rightarrow> ChannelState \<Rightarrow> bool" where
  "sequenced_ok l ch \<longleftrightarrow> (case l of None \<Rightarrow> \<not> unrel_started ch
     | Some k \<Rightarrow> unrel_started ch \<and> k < 2 ^ 62 \<and> unrel_last ch = word_of_nat k)"

fun sequenced_window :: "nat option \<Rightarrow> nat list \<Rightarrow> bool" where
  "sequenced_window l [] \<longleftrightarrow> True"
| "sequenced_window l (i # is) \<longleftrightarrow> i < 2 ^ 62 \<and> near (case l of None \<Rightarrow> 0 | Some k \<Rightarrow> Suc k) i
     \<and> sequenced_window (if (case l of None \<Rightarrow> True | Some k \<Rightarrow> k < i) then Some i else l) is"

lemma newer_increasing:
  "sorted_wrt (<) (newer l is) \<and> (\<forall>i \<in> set (newer l is). case l of None \<Rightarrow> True | Some k \<Rightarrow> k < i) \<and> subseq (newer l is) is"
  by (induction l "is" rule: newer.induct) (auto split: option.splits if_splits, fastforce+)

lemma sequenced_step:
  fixes m :: "nat \<Rightarrow> Buffer"
  assumes "sequenced_ok l (rx_channels rx c)" and "i < 2 ^ 62" and "near (case l of None \<Rightarrow> 0 | Some k \<Rightarrow> Suc k) i"
  defines "rx' \<equiv> DeliverMessage (wire_record kRecOrdered c i) (m i) rx"
    and "new \<equiv> (case l of None \<Rightarrow> True | Some k \<Rightarrow> k < i)"
  shows "sequenced_ok (if new then Some i else l) (rx_channels rx' c)"
    and "rx_ready rx' = rx_ready rx @ (if new then [m i] else [])"
proof -
  let ?ch = "rx_channels rx c"
  have i63: "i < 2 ^ 63" using assms(2) by simp
  let ?x = "if unrel_started ?ch then unrel_last ?ch + 1 else 0"
  have "\<exists>k. (if unrel_started ?ch then unrel_last ?ch + 1 else 0) = word_of_nat k \<and> k < 2 ^ 63 \<and> near k i"
    using assms(1,3)
    by (cases l) (auto simp: sequenced_ok_def word64_Suc simp del: of_nat_Suc intro!: exI)
  then obtain k where "?x = word_of_nat k" "ReconstructSeq (word_of_nat i) (word_of_nat k) = word_of_nat i"
    using reconstruct_near [OF _ i63] by blast
  then have seq: "ReconstructSeqFor (wire_record kRecOrdered c i) rx = word_of_nat i"
    by (simp only: ReconstructSeqFor_def Let_def wire_record_fields flags_reliable_ordered if_False)
  have nw: "\<not> unrel_started ?ch \<or> unrel_last ?ch < word_of_nat i \<longleftrightarrow> new"
    using assms(1) by (auto simp: new_def sequenced_ok_def word64_less [OF _ i63] split: option.splits)
  have "rx' = (if new then rx_push (m i)
      (set_channel c (?ch\<lparr>unrel_started := True, unrel_last := word_of_nat i\<rparr>) rx) else rx)"
    by (simp add: rx'_def DeliverMessage_def Let_def seq flip: nw)
  then show "sequenced_ok (if new then Some i else l) (rx_channels rx' c)"
    and "rx_ready rx' = rx_ready rx @ (if new then [m i] else [])"
    using assms(1,2) by (simp_all add: rx_push_def set_channel_def sequenced_ok_def)
qed

lemma sequenced_arrive:
  assumes "sequenced_ok l (rx_channels rx c)" and "sequenced_window l is"
  shows "rx_ready (arrive kRecOrdered c m is rx) = rx_ready rx @ map m (newer l is)"
  using assms
proof (induction "is" arbitrary: l rx)
  case (Cons i "is")
  let ?new = "case l of None \<Rightarrow> True | Some k \<Rightarrow> k < i"
  let ?rx = "DeliverMessage (wire_record kRecOrdered c i) (m i) rx"
  have ok: "sequenced_ok (if ?new then Some i else l) (rx_channels ?rx c)"
    and rd: "rx_ready ?rx = rx_ready rx @ (if ?new then [m i] else [])"
    using sequenced_step [OF Cons.prems(1), of i] Cons.prems(2) by simp_all
  show ?case using Cons.IH [OF ok] Cons.prems(2) rd by (cases ?new) simp_all
qed simp

section \<open>Isolation\<close>

lemma absorb_ahead_frame:
  "rel_send (absorb_ahead ch) = rel_send ch \<and> unrel_send (absorb_ahead ch) = unrel_send ch
    \<and> rel_reorder (absorb_ahead ch) = rel_reorder ch
    \<and> unrel_last (absorb_ahead ch) = unrel_last ch \<and> unrel_started (absorb_ahead ch) = unrel_started ch"
  by (induction ch rule: absorb_ahead.induct) (subst (1 2 3 4 5) absorb_ahead.simps, simp)

lemma release_run_frame:
  "rel_send (fst (release_run ch ready)) = rel_send ch \<and> unrel_send (fst (release_run ch ready)) = unrel_send ch
    \<and> rel_delivered_ahead (fst (release_run ch ready)) = rel_delivered_ahead ch
    \<and> unrel_last (fst (release_run ch ready)) = unrel_last ch
    \<and> unrel_started (fst (release_run ch ready)) = unrel_started ch"
  by (induction ch ready rule: release_run.induct)
    (subst (1 2 3 4 5) release_run.simps, simp split: option.split)

text \<open>What a delivery leaves alone: other channels, the send counters, the other substream, reassembly.\<close>

definition isolated :: "ZDTRecord \<Rightarrow> ZDTReceiver \<Rightarrow> ZDTReceiver \<Rightarrow> bool" where
  "isolated r rx rx' \<longleftrightarrow> (let c = rec_channel r; ch = rx_channels rx c; ch' = rx_channels rx' c in
     rx_channels rx' = (rx_channels rx)(c := ch')
     \<and> rel_send ch' = rel_send ch \<and> unrel_send ch' = unrel_send ch
     \<and> (if has_flag (rec_flags r) kRecReliable
        then unrel_last ch' = unrel_last ch \<and> unrel_started ch' = unrel_started ch
        else rel_expected ch' = rel_expected ch \<and> rel_reorder ch' = rel_reorder ch
          \<and> rel_delivered_ahead ch' = rel_delivered_ahead ch)
     \<and> rx_reassembly rx' = rx_reassembly rx \<and> rx_reassembly_bytes rx' = rx_reassembly_bytes rx
     \<and> prefix (rx_ready rx) (rx_ready rx'))"

lemma release_run_prefix: "prefix ready (snd (release_run ch ready))"
proof (induction ch ready rule: release_run.induct)
  case (1 ch ready)
  then show ?case
    by (subst release_run.simps) (auto split: option.split dest: append_prefixD)
qed

lemma DeliverMessage_isolated: "isolated r rx (DeliverMessage r payload rx)"
proof -
  let ?ch = "rx_channels rx (rec_channel r)"
  let ?c1 = "?ch\<lparr>rel_expected := rel_expected ?ch + 1\<rparr>"
  obtain ch' ready' where run: "release_run ?c1 (rx_ready rx @ [payload]) = (ch', ready')" by fastforce
  have "prefix (rx_ready rx) ready'"
    using release_run_prefix [of "rx_ready rx @ [payload]" ?c1] run by (auto dest: append_prefixD)
  moreover note release_run_frame [of ?c1 "rx_ready rx @ [payload]", unfolded run]
  ultimately show ?thesis
    by (auto simp: isolated_def DeliverMessage_def Let_def rx_push_def set_channel_def run absorb_ahead_frame)
qed

section \<open>Properties\<close>

text \<open>
  C4: Reliable ordered delivery. On a fresh channel, whatever the order in which the messages arrive and however
  often each one does, the application receives exactly the messages 0, 1, ..., up to the first one that
  is still missing, in order and each once. The sequence number of an arrival has to be within
  half a wire period of the receiver's position.
\<close>

theorem ordered_delivery_exact:
  assumes "rel_expected (rx_channels rx c) = 0" and "rel_reorder (rx_channels rx c) = []"
    and "ordered_window {} is"
  shows "rx_ready (arrive (kRecReliable OR kRecOrdered) c m is rx) = rx_ready rx @ map m [0..<mex (set is)]"
  using ordered_arrive [OF ordered_ok_init [OF assms(1,2)] assms(3), of m] by simp

definition rx_fresh :: ZDTReceiver where
  "rx_fresh = \<lparr>rx_ready = [], rx_channels = (\<lambda>_. ChannelState_init), rx_reassembly = [], rx_reassembly_bytes = 0\<rparr>"

lemma rx_fresh_simps [simp]:
  "rx_ready rx_fresh = []" "rx_channels rx_fresh c = ChannelState_init"
  "rx_reassembly rx_fresh = []" "rx_reassembly_bytes rx_fresh = 0"
  by (simp_all add: rx_fresh_def)

lemma mex_examples [simp]: "mex {2} = 0" "mex {0, 2} = 1" "mex {Suc 0, 0, 2} = 3" "mex {0, Suc 0, 2} = 3" "mex {0} = 1"
  by (rule mexI; auto simp: numeral_3_eq_3 less_Suc_eq)+

lemma upt_three: "[0..<3] = [0, Suc 0, 2]"
  by (simp add: upt_rec numeral_2_eq_2)

definition sample_message :: "nat \<Rightarrow> Buffer" where
  "sample_message i = Buffer_of default_new [word_of_nat i] LittleEndian"

theorem ordered_delivery_exact_witness:
  "rx_ready (arrive (kRecReliable OR kRecOrdered) 5 sample_message [2, 0, 2, 1] rx_fresh) = [sample_message 0, sample_message 1, sample_message 2]"
  using ordered_delivery_exact [of rx_fresh 5 "[2, 0, 2, 1]" sample_message]
  by (simp add: ChannelState_init_def near_def insert_commute upt_three)

text \<open>
  C22: Reliable unordered delivery. On a fresh channel every message is handed up at its first arrival
  and never again: the application receives each message that arrived exactly once, in the
  order of the first arrivals.
\<close>

theorem unordered_delivery_once:
  assumes "rel_expected (rx_channels rx c) = 0" and "rel_delivered_ahead (rx_channels rx c) = []"
    and "ordered_window {} is"
  shows "rx_ready (arrive kRecReliable c m is rx) = rx_ready rx @ map m (first_arrivals {} is)
    \<and> distinct (first_arrivals {} is) \<and> set (first_arrivals {} is) = set is"
  using unordered_arrive [OF unordered_ok_init [OF assms(1,2)] assms(3), of m] first_arrivals_once [of "{}" "is"]
  by simp

theorem unordered_delivery_once_witness:
  "rx_ready (arrive kRecReliable 5 sample_message [2, 0, 2, 1] rx_fresh) = [sample_message 2, sample_message 0, sample_message 1]"
  using unordered_delivery_once [of rx_fresh 5 "[2, 0, 2, 1]" sample_message]
  by (simp add: ChannelState_init_def near_def insert_commute)

text \<open>
  C23: Unreliable ordered (sequenced) delivery. Starting from a channel with no unreliable traffic, the numbers of
  the messages handed up are strictly increasing and appear in the order of arrival: a message
  older than one already delivered is dropped.
\<close>

theorem sequenced_delivery_increasing:
  assumes "\<not> unrel_started (rx_channels rx c)" and "sequenced_window None is"
  shows "rx_ready (arrive kRecOrdered c m is rx) = rx_ready rx @ map m (newer None is)
    \<and> sorted_wrt (<) (newer None is) \<and> subseq (newer None is) is"
  using sequenced_arrive [of None rx c "is" m] newer_increasing [of None "is"] assms
  by (simp add: sequenced_ok_def)

theorem sequenced_delivery_increasing_witness:
  "rx_ready (arrive kRecOrdered 5 sample_message [1, 0, 4, 2, 5] rx_fresh) = [sample_message 1, sample_message 4, sample_message 5]"
  using sequenced_delivery_increasing [of rx_fresh 5 "[1, 0, 4, 2, 5]" sample_message]
  by (simp add: ChannelState_init_def near_def)


end
