(* ===== verification/Zdt_Send.thy ===== *)
theory Zdt_Send
  imports Zdt_State
begin

text \<open>
  The sending half of the ZDT transport: packing messages into datagrams, the record of what
  is in flight, acknowledgments and retransmission (\<open>zdt_transport.cc\<close>).
\<close>

section \<open>Datagrams\<close>

definition DatagramMTU :: "ZDTTransport \<Rightarrow> u16" where
  "DatagramMTU tr =
     (let conn = zt_connection tr;
          mtu = (if conn_mtu conn \<noteq> 0 then conn_mtu conn
                 else ZDTPayloadForLinkMTU (ladder_back (mtu_ladder (zt_config tr)))
                        (case net_peer (zt_net tr) of Some a \<Rightarrow> inet_ipv a | None \<Rightarrow> IPv4));
          overhead = (if conn_relay_channel conn \<noteq> 0 then kZDTRelayHeaderSize else 0)
                     + (if conn_migration_enabled conn then kZDTCidSize else 0)
      in if overhead < unat mtu then word_of_nat (unat mtu - overhead) else mtu)"

definition BeginDatagram :: "ZDTTransport \<Rightarrow> Buffer \<Rightarrow> Buffer" where
  "BeginDatagram tr b =
     (if conn_relay_channel (zt_connection tr) \<noteq> 0
      then WriteRelayHeader (conn_relay_channel (zt_connection tr)) b else b)"

definition SendWindowCap :: "ZDTTransport \<Rightarrow> int" where
  "SendWindowCap tr =
     (let cap = max_datagrams_in_flight (zt_config tr);
          cap = (if cap > int kZDTMaxDatagramsInFlight then int kZDTMaxDatagramsInFlight else cap)
      in if cap < 2 then 2 else cap)"

definition SendWindow :: "ZDTTransport \<Rightarrow> int" where
  "SendWindow tr = Window (SendWindowCap tr) (zt_congestion tr)"

definition RetireSentPacket :: "WireSeq \<Rightarrow> ZDTTransport \<Rightarrow> ZDTTransport" where
  "RetireSentPacket packet_seq tr =
     (case om_find packet_seq (zt_sent_packets tr) of
        None \<Rightarrow> tr
      | Some info \<Rightarrow>
          tr\<lparr>zt_in_flight_datagrams :=
               (if si_keys info \<noteq> [] \<and> zt_in_flight_datagrams tr > 0
                then zt_in_flight_datagrams tr - 1 else zt_in_flight_datagrams tr),
             zt_sent_packets := om_erase packet_seq (zt_sent_packets tr)\<rparr>)"

definition MakeRecord ::
  "Buffer \<Rightarrow> nat \<Rightarrow> nat \<Rightarrow> u8 \<Rightarrow> u8 \<Rightarrow> SequenceId \<Rightarrow> u8 \<Rightarrow> u8 \<Rightarrow> bool \<Rightarrow> PendingRecord" where
  "MakeRecord owner offset len flags channel message_seq frag_index frag_count reliable =
     \<lparr>pr_record = \<lparr>rec_flags = flags, rec_channel = channel, rec_message_seq = ucast message_seq,
        rec_frag_index = frag_index, rec_frag_count = frag_count, rec_length = word_of_nat len\<rparr>,
      pr_owner = owner, pr_payload = map_option (drop offset) (buf_data owner),
      pr_payload_len = len, pr_reliable = reliable,
      pr_key = MsgKey channel reliable frag_index message_seq\<rparr>"

definition record_bytes :: "PendingRecord list \<Rightarrow> nat" where
  "record_bytes batch = sum_list (map (\<lambda>p.
     ZDTRecordSize (has_flag (rec_flags (pr_record p)) kRecFragment) (pr_payload_len p)) batch)"

definition batch_header :: "u8 \<Rightarrow> PendingRecord list \<Rightarrow> ZDTTransport \<Rightarrow> ZDTHeader" where
  "batch_header extra_flags batch tr =
     (let conn = zt_connection tr;
          header = ZDTHeader_init\<lparr>hdr_flags := kFlagOnline OR extra_flags,
                                  hdr_packet_seq := zt_next_packet_seq tr\<rparr>;
          header = (if conn_migration_enabled conn
                    then header\<lparr>hdr_flags := hdr_flags header OR kFlagHasCid,
                                hdr_cid := conn_local_guid conn\<rparr> else header);
          mtu = unat (DatagramMTU tr);
          used = kZDTHeaderSize + (if conn_migration_enabled conn then kZDTCidSize else 0) + record_bytes batch;
          reportable = nat (SendWindowCap tr) + 64
      in Fill header (if mtu > used then (mtu - used) div kZDTAckBlockSize else 0) reportable
           (zt_ack_history tr))"

definition write_pending :: "Buffer \<Rightarrow> PendingRecord \<Rightarrow> Buffer" where
  "write_pending datagram p =
     (let datagram = WriteZDTRecord (pr_record p) datagram
      in case pr_payload p of
           Some bs \<Rightarrow> if pr_payload_len p > 0 then Write default_new (take (pr_payload_len p) bs) datagram
                      else datagram
         | None \<Rightarrow> datagram)"

definition batch_datagram :: "ZDTHeader \<Rightarrow> PendingRecord list \<Rightarrow> ZDTTransport \<Rightarrow> Buffer" where
  "batch_datagram header batch tr =
     foldl write_pending
       (WriteZDTHeader header (BeginDatagram tr (Buffer_Reset False (zt_send_scratch tr)))) batch"

definition buf_bytes :: "Buffer \<Rightarrow> bytes" where
  "buf_bytes b = (case buf_data b of None \<Rightarrow> [] | Some d \<Rightarrow> take (buf_write_cursor b) d)"

definition SendTo :: "nat \<Rightarrow> InetAddress \<Rightarrow> bytes \<Rightarrow> ZDTTransport \<Rightarrow> ZDTTransport" where
  "SendTo sock peer bs tr =
     tr\<lparr>zt_net := (zt_net tr)\<lparr>net_wire := net_wire (zt_net tr) @ [(sock, peer, bs)]\<rparr>\<rparr>"

definition next_seq :: "WireSeq \<Rightarrow> WireSeq" where
  "next_seq seq = (if seq + 1 = 0 then 1 else seq + 1)"

definition SendBatch :: "TimePoint \<Rightarrow> u8 \<Rightarrow> PendingRecord list \<Rightarrow> ZDTTransport \<Rightarrow> WireSeq \<times> ZDTTransport" where
  "SendBatch now extra_flags batch tr =
     (case (net_socket (zt_net tr), net_peer (zt_net tr)) of
        (Some sock, Some peer) \<Rightarrow>
          (let seq = zt_next_packet_seq tr;
               header = batch_header extra_flags batch tr;
               datagram = batch_datagram header batch tr;
               tr = tr\<lparr>zt_next_packet_seq := next_seq seq, zt_send_scratch := datagram\<rparr>;
               tr = RetireSentPacket seq tr;
               info = foldl (\<lambda>info p. if pr_reliable p then si_Add (pr_key p) info else info)
                        \<lparr>si_send_time = now, si_keys = []\<rparr> batch;
               tr = SendTo sock peer (buf_bytes datagram) tr
           in (seq, tr\<lparr>zt_sent_packets := om_assign seq info (zt_sent_packets tr),
                       zt_last_send := now, zt_needs_ack := False,
                       zt_in_flight_datagrams := zt_in_flight_datagrams tr
                         + (if si_keys info \<noteq> [] then 1 else 0)\<rparr>))
      | _ \<Rightarrow> (zt_next_packet_seq tr, tr))"

definition SendControl :: "TimePoint \<Rightarrow> u8 \<Rightarrow> ZDTTransport \<Rightarrow> ZDTTransport" where
  "SendControl now flags tr = snd (SendBatch now flags [] tr)"

definition Close :: "ZDTTransport \<Rightarrow> Result \<times> ZDTTransport" where
  "Close tr =
     (if zt_is_closed tr then (AlreadyDisconnected, tr)
      else let tr = tr\<lparr>zt_is_closed := True\<rparr>; conn = zt_connection tr;
               tr = (case (net_socket (zt_net tr), net_peer (zt_net tr)) of
                  (Some sock, Some peer) \<Rightarrow>
                    (let header = ZDTHeader_init\<lparr>hdr_flags := kFlagOnline OR kFlagFin\<rparr>;
                         header = (if conn_migration_enabled conn
                                   then header\<lparr>hdr_flags := hdr_flags header OR kFlagHasCid,
                                               hdr_cid := conn_local_guid conn\<rparr> else header);
                         datagram = WriteZDTHeader (header\<lparr>hdr_packet_seq := 0\<rparr>)
                                      (BeginDatagram tr (Buffer_new BigEndian))
                     in SendTo sock peer (buf_bytes datagram) tr)
                | _ \<Rightarrow> tr);
               tr = (case net_socket (zt_net tr) of
                  Some sock \<Rightarrow> if net_drains_own_socket (zt_net tr)
                    then tr\<lparr>zt_net := (zt_net tr)\<lparr>net_shut := net_shut (zt_net tr) @ [sock]\<rparr>\<rparr> else tr
                | None \<Rightarrow> tr)
           in (Success, tr))"

section \<open>Reliable messages\<close>

definition TailProbeDelay :: "ZDTTransport \<Rightarrow> int" where
  "TailProbeDelay tr =
     (let delay = truncate_toward_zero
                    (double_round (double_round (2 * rtt_srtt_ms (zt_rtt tr)) * of_int ns_per_ms));
          floor = kZDTTailProbeFloorMs * ns_per_ms;
          delay = (if delay < floor then floor else delay);
          fired = zt_tail_probes_fired tr;
          delay = delay * 2 ^ nat (if fired < 6 then fired else 6);
          ceiling = rto_max (zt_config tr) * ns_per_ms
      in if delay > ceiling then ceiling else delay)"

definition RearmTailProbe :: "TimePoint \<Rightarrow> ZDTTransport \<Rightarrow> ZDTTransport" where
  "RearmTailProbe now tr =
     (let tr = tr\<lparr>zt_tail_probes_fired := 0\<rparr>
      in tr\<lparr>zt_tail_probe_at := (if zt_unacked tr = [] then TimePoint_max else now + TailProbeDelay tr)\<rparr>)"

definition TrackReliable ::
  "PendingRecord \<Rightarrow> nat \<Rightarrow> TimePoint \<Rightarrow> TransmissionLog \<Rightarrow> ZDTTransport \<Rightarrow> ZDTTransport" where
  "TrackReliable pending offset now l tr =
     RearmTailProbe now
       (tr\<lparr>zt_next_retransmit_scan := min (zt_next_retransmit_scan tr) (now + rtt_rto (zt_rtt tr) * ns_per_ms),
           zt_unacked := om_assign (pr_key pending)
             \<lparr>or_message = pr_owner pending, or_offset = offset, or_length = pr_payload_len pending,
              or_channel = rec_channel (pr_record pending),
              or_message_seq = rec_message_seq (pr_record pending),
              or_frag_index = rec_frag_index (pr_record pending),
              or_frag_count = rec_frag_count (pr_record pending),
              or_data_flags = rec_flags (pr_record pending),
              or_last_send = now, or_send_count = 1, or_packets = l\<rparr> (zt_unacked tr)\<rparr>)"

text \<open>One more transmission of the message filed under \<open>key\<close>, logged with it.\<close>

definition ResendReliable :: "TimePoint \<Rightarrow> MsgKey \<Rightarrow> OutReliable \<Rightarrow> ZDTTransport \<Rightarrow> ZDTTransport" where
  "ResendReliable now key msg tr =
     (let pending = MakeRecord (or_message msg) (or_offset msg) (or_length msg) (or_data_flags msg)
                      (or_channel msg) (key_message_seq key) (or_frag_index msg) (or_frag_count msg) True;
          (packet, tr) = SendBatch now 0 [pending] tr
      in tr\<lparr>zt_unacked := om_assign key (msg\<lparr>or_packets := log_Add packet (or_packets msg)\<rparr>)
                (zt_unacked tr)\<rparr>)"

section \<open>Acknowledgments\<close>

definition nak_key :: "ZDTTransport \<Rightarrow> MsgKey \<Rightarrow> ZDTTransport" where
  "nak_key tr key =
     (case om_find key (zt_unacked tr) of
        None \<Rightarrow> tr
      | Some msg \<Rightarrow> tr\<lparr>zt_unacked := om_assign key (msg\<lparr>or_last_send := 0\<rparr>) (zt_unacked tr),
                      zt_next_retransmit_scan := TimePoint_min\<rparr>)"

definition OnNak :: "WireSeq \<Rightarrow> ZDTTransport \<Rightarrow> ZDTTransport" where
  "OnNak packet_seq tr =
     (case om_find packet_seq (zt_sent_packets tr) of
        None \<Rightarrow> tr
      | Some info \<Rightarrow> RetireSentPacket packet_seq (foldl nak_key tr (si_keys info)))"

definition ack_key :: "WireSeq \<Rightarrow> ZDTTransport \<Rightarrow> MsgKey \<Rightarrow> ZDTTransport" where
  "ack_key packet_seq tr key =
     (case om_find key (zt_unacked tr) of
        None \<Rightarrow> tr
      | Some msg \<Rightarrow>
          (let tr = foldl (\<lambda>tr seq. if seq \<noteq> packet_seq then RetireSentPacket seq tr else tr)
                      tr (log_entries (or_packets msg))
           in tr\<lparr>zt_unacked := om_erase key (zt_unacked tr)\<rparr>))"

definition AckPacket :: "WireSeq \<Rightarrow> TimePoint \<Rightarrow> ZDTTransport \<Rightarrow> bool \<times> ZDTTransport" where
  "AckPacket packet_seq arrival tr =
     (if packet_seq = 0 then (False, tr)
      else case om_find packet_seq (zt_sent_packets tr) of
        None \<Rightarrow> (False, tr)
      | Some info \<Rightarrow>
          (let config = zt_config tr;
               tr = tr\<lparr>zt_rtt := OnSample (arrival - si_send_time info) arrival
                        (rto_min config) (rto_max config) (zt_rtt tr)\<rparr>;
               tr = foldl (ack_key packet_seq) tr (si_keys info)
           in (True, RetireSentPacket packet_seq tr)))"

text \<open>
  The walk over the ack blocks: \<open>n\<close> acknowledged and then \<open>m\<close> missing packets per block,
  counted back from \<open>header.ack\<close>.
\<close>

primrec ack_run :: "nat \<Rightarrow> WireSeq \<Rightarrow> TimePoint \<Rightarrow> nat \<times> nat \<times> ZDTTransport \<Rightarrow> nat \<times> nat \<times> ZDTTransport" where
  "ack_run 0 ack arrival st = st"
| "ack_run (Suc n) ack arrival st =
     (let (newly, offset, tr) = st; (fresh, tr) = AckPacket (ack - word_of_nat offset) arrival tr
      in ack_run n ack arrival (newly + (if fresh then 1 else 0), offset + 1, tr))"

primrec nak_run :: "nat \<Rightarrow> WireSeq \<Rightarrow> nat \<times> nat \<times> ZDTTransport \<Rightarrow> nat \<times> nat \<times> ZDTTransport" where
  "nak_run 0 ack st = st"
| "nak_run (Suc n) ack st =
     (let (newly, offset, tr) = st
      in nak_run n ack (newly, offset + 1, OnNak (ack - word_of_nat offset) tr))"

fun ack_blocks :: "ZDTAckBlock list \<Rightarrow> WireSeq \<Rightarrow> TimePoint \<Rightarrow> nat \<times> nat \<times> ZDTTransport \<Rightarrow> nat \<times> nat \<times> ZDTTransport" where
  "ack_blocks [] ack arrival st = st"
| "ack_blocks (b # bs) ack arrival st =
     (if fst (snd st) < kZDTAckHistoryBits
      then ack_blocks bs ack arrival
             (nak_run (unat (num_nack b)) ack (ack_run (unat (num_ack b)) ack arrival st))
      else st)"

definition ProcessAcks :: "TimePoint \<Rightarrow> ZDTHeader \<Rightarrow> TimePoint \<Rightarrow> ZDTTransport \<Rightarrow> ZDTTransport" where
  "ProcessAcks now header arrival tr =
     (let tr = tr\<lparr>zt_congestion := OnAckArrived (hdr_ack header) (zt_congestion tr)\<rparr>;
          (newly_acked, offset, tr) =
            ack_blocks (take (unat (hdr_block_count header)) (hdr_blocks header)) (hdr_ack header) arrival (0, 0, tr)
      in if newly_acked > 0
         then RearmTailProbe now
                (tr\<lparr>zt_congestion := OnAcked (int newly_acked) (zt_rtt tr) (zt_next_packet_seq tr)
                       (SendWindowCap tr) (zt_congestion tr)\<rparr>)
         else tr)"

section \<open>Retransmission\<close>

definition resend_threshold :: "OutReliable \<Rightarrow> ZDTTransport \<Rightarrow> int" where
  "resend_threshold msg tr =
     (let backoff = nat (min (or_send_count msg - 1) 6)
      in min (rtt_rto (zt_rtt tr) * 2 ^ backoff) (rto_max (zt_config tr)) * ns_per_ms)"

text \<open>
  The scan over the unacknowledged messages in key order. It returns the soonest deadline and
  whether a timeout was seen, or nothing when a message ran out of retries and the connection
  was closed in the middle of the scan.
\<close>

fun retransmit_scan :: "TimePoint \<Rightarrow> MsgKey list \<Rightarrow> TimePoint \<Rightarrow> bool \<Rightarrow> ZDTTransport
    \<Rightarrow> (TimePoint \<times> bool) option \<times> ZDTTransport" where
  "retransmit_scan now [] earliest timed_out tr = (Some (earliest, timed_out), tr)"
| "retransmit_scan now (key # keys) earliest timed_out tr =
     (case om_find key (zt_unacked tr) of
        None \<Rightarrow> retransmit_scan now keys earliest timed_out tr
      | Some msg \<Rightarrow>
          (let nak_forced = (or_last_send msg = 0); threshold = resend_threshold msg tr
           in if now - or_last_send msg < threshold
              then retransmit_scan now keys (min earliest (or_last_send msg + threshold)) timed_out tr
              else if or_send_count msg \<ge> max_retries (zt_config tr) then (None, snd (Close tr))
              else
                let tr = ResendReliable now key msg tr;
                    tr = (case om_find key (zt_unacked tr) of
                            Some msg \<Rightarrow> tr\<lparr>zt_unacked := om_assign key
                              (msg\<lparr>or_last_send := now, or_send_count := or_send_count msg + 1\<rparr>)
                              (zt_unacked tr)\<rparr>
                          | None \<Rightarrow> tr);
                    tr = tr\<lparr>zt_tail_probe_at := now + TailProbeDelay tr\<rparr>
                in retransmit_scan now keys (min earliest (now + threshold))
                     (timed_out \<or> \<not> nak_forced) tr))"

definition RetransmitUnacked :: "TimePoint \<Rightarrow> ZDTTransport \<Rightarrow> ZDTTransport" where
  "RetransmitUnacked now tr =
     (if now < zt_next_retransmit_scan tr then tr
      else case retransmit_scan now (map fst (zt_unacked tr)) TimePoint_max False tr of
        (None, tr) \<Rightarrow> tr
      | (Some (earliest, timed_out), tr) \<Rightarrow>
          (let tr = (if timed_out
                     then tr\<lparr>zt_congestion := OnRetransmitTimeout (zt_rtt tr) (zt_next_packet_seq tr)
                               (zt_congestion tr)\<rparr> else tr)
           in tr\<lparr>zt_next_retransmit_scan := earliest\<rparr>))"

definition newest_unacked :: "(MsgKey, OutReliable) omap \<Rightarrow> MsgKey \<times> OutReliable" where
  "newest_unacked m = foldl (\<lambda>newest e. if or_last_send (snd e) \<ge> or_last_send (snd newest) then e else newest)
     (hd m) m"

definition MaybeTailProbe :: "TimePoint \<Rightarrow> ZDTTransport \<Rightarrow> ZDTTransport" where
  "MaybeTailProbe now tr =
     (if now < zt_tail_probe_at tr \<or> zt_unacked tr = [] then tr
      else let (key, msg) = newest_unacked (zt_unacked tr);
               tr = ResendReliable now key msg tr;
               tr = tr\<lparr>zt_tail_probes_fired := zt_tail_probes_fired tr + 1\<rparr>
           in tr\<lparr>zt_tail_probe_at := now + TailProbeDelay tr\<rparr>)"

definition PruneSentPackets :: "TimePoint \<Rightarrow> ZDTTransport \<Rightarrow> ZDTTransport" where
  "PruneSentPackets now tr =
     foldl (\<lambda>tr e. if now - si_send_time (snd e) > rto_max (zt_config tr) * 4 * ns_per_ms
                   then RetireSentPacket (fst e) tr else tr) tr (zt_sent_packets tr)"

end
