(* ===== verification/Zdt_Flush.thy ===== *)
theory Zdt_Flush
  imports Zdt_Send
begin

text \<open>
  Packing queued messages into datagrams: \<open>StageOutbound\<close> and \<open>FlushOutbound\<close> with its local
  functions \<open>flush_batch\<close> and \<open>pack_message\<close> (\<open>zdt_transport.cc\<close>). The datagram being filled
  is a pair of the pending records and the bytes they take.
\<close>

type_synonym flush_state = "PendingRecord list \<times> nat \<times> ZDTTransport"

definition log_packet :: "WireSeq \<Rightarrow> ZDTTransport \<Rightarrow> PendingRecord \<Rightarrow> ZDTTransport" where
  "log_packet packet tr pending =
     (if \<not> pr_reliable pending then tr
      else case om_find (pr_key pending) (zt_unacked tr) of
        None \<Rightarrow> tr
      | Some msg \<Rightarrow> tr\<lparr>zt_unacked := om_assign (pr_key pending)
          (msg\<lparr>or_packets := log_Add packet (or_packets msg)\<rparr>) (zt_unacked tr)\<rparr>)"

definition flush_batch :: "TimePoint \<Rightarrow> flush_state \<Rightarrow> flush_state" where
  "flush_batch now st =
     (let (batch, batch_bytes, tr) = st
      in if batch = [] then st
         else let (packet, tr) = SendBatch now 0 batch tr
              in ([], kZDTHeaderReserve, foldl (log_packet packet) tr batch))"

definition take_send_seq :: "bool \<Rightarrow> u8 \<Rightarrow> ZDTTransport \<Rightarrow> SequenceId \<times> ZDTTransport" where
  "take_send_seq reliable channel tr =
     (let rx = zt_rx tr; ch = rx_channels rx channel
      in (if reliable then rel_send ch else unrel_send ch,
          tr\<lparr>zt_rx := rx\<lparr>rx_channels := (rx_channels rx)(channel :=
               (if reliable then ch\<lparr>rel_send := rel_send ch + 1\<rparr>
                else ch\<lparr>unrel_send := unrel_send ch + 1\<rparr>))\<rparr>\<rparr>))"

definition send_fragment ::
  "TimePoint \<Rightarrow> Buffer \<Rightarrow> nat \<Rightarrow> nat \<Rightarrow> nat \<Rightarrow> u8 \<Rightarrow> u8 \<Rightarrow> SequenceId \<Rightarrow> u8 \<Rightarrow> bool
     \<Rightarrow> ZDTTransport \<Rightarrow> nat \<Rightarrow> ZDTTransport" where
  "send_fragment now payload read_base msg_len frag_capacity flags channel message_seq frag_count reliable tr i =
     (let rel_offset = i * frag_capacity;
          len = min frag_capacity (msg_len - rel_offset);
          pending = MakeRecord payload (read_base + rel_offset) len flags channel message_seq
                      (word_of_nat i) frag_count reliable;
          (packet, tr) = SendBatch now 0 [pending] tr
      in if reliable then TrackReliable pending (read_base + rel_offset) now (MakeLog packet) tr else tr)"

definition pack_message :: "TimePoint \<Rightarrow> nat \<Rightarrow> QueuedOut \<Rightarrow> u8 \<Rightarrow> flush_state \<Rightarrow> flush_state" where
  "pack_message now mtu queued channel st =
     (let (batch, batch_bytes, tr) = st;
          unfrag_capacity = mtu - kZDTHeaderReserve - kZDTRecordHeaderSize;
          frag_capacity = mtu - kZDTHeaderReserve - kZDTFragRecordHeaderSize;
          reliable = GetOr_reliable (qo_options queued);
          ordered = GetOr_ordered (qo_options queued);
          data_flags = (if reliable then kRecReliable else 0) OR (if ordered then kRecOrdered else 0);
          (message_seq, tr) = take_send_seq reliable channel tr;
          read_base = buf_read_cursor (qo_payload queued);
          total = readable_bytes (qo_payload queued)
      in if total \<le> unfrag_capacity then
           (let need = ZDTRecordSize False total;
                (batch, batch_bytes, tr) =
                  (if batch_bytes + need > mtu \<or> length batch \<ge> si_kMaxKeys
                   then flush_batch now (batch, batch_bytes, tr) else (batch, batch_bytes, tr));
                pending = MakeRecord (qo_payload queued) read_base total data_flags channel message_seq 0 1 reliable;
                tr = (if reliable then TrackReliable pending read_base now TransmissionLog_empty tr else tr)
            in (batch @ [pending], batch_bytes + need, tr))
         else
           (let (batch, batch_bytes, tr) = flush_batch now (batch, batch_bytes, tr);
                fragment_count = (total + frag_capacity - 1) div frag_capacity
            in if fragment_count > 255 then (batch, batch_bytes, tr)
               else (batch, batch_bytes,
                     foldl (send_fragment now (qo_payload queued) read_base total frag_capacity
                              (data_flags OR kRecFragment) channel message_seq (word_of_nat fragment_count) reliable)
                       tr [0..<fragment_count])))"

section \<open>Lanes\<close>

fun stage_one :: "QueuedOut \<Rightarrow> StagedLane list \<Rightarrow> StagedLane list" where
  "stage_one q [] = [\<lparr>lane_channel = GetOr_channel (qo_options q), lane_messages = [q]\<rparr>]"
| "stage_one q (lane # lanes) =
     (if lane_channel lane = GetOr_channel (qo_options q)
      then lane\<lparr>lane_messages := lane_messages lane @ [q]\<rparr> # lanes
      else lane # stage_one q lanes)"

definition StageOutbound :: "ZDTTransport \<Rightarrow> nat \<times> ZDTTransport" where
  "StageOutbound tr =
     (let (items, q) = DrainTo (zt_outbound tr)
      in (length items,
          tr\<lparr>zt_outbound := q, zt_staged := foldl (\<lambda>lanes x. stage_one x lanes) (zt_staged tr) items,
             zt_staged_count := zt_staged_count tr + length items\<rparr>))"

definition kMaxSeqGap :: SequenceId where
  "kMaxSeqGap = push_bit 16 1 div 2"

text \<open>Whether the window holds back the message at the front of a lane.\<close>

definition window_refuses :: "u8 \<Rightarrow> QueuedOut \<Rightarrow> ZDTTransport \<Rightarrow> bool" where
  "window_refuses channel queued tr \<longleftrightarrow>
     GetOr_reliable (qo_options queued) \<and>
       (length (zt_unacked tr) \<ge> size_of_int (max_messages_in_flight (zt_config tr))
        \<or> zt_in_flight_datagrams tr \<ge> size_of_int (SendWindow tr)
        \<or> (case om_lower_bound (MsgKey channel True 0 0) (zt_unacked tr) of
             None \<Rightarrow> False
           | Some (oldest, _) \<Rightarrow> key_channel oldest = channel \<and> key_reliable oldest
               \<and> rel_send (rx_channels (zt_rx tr) channel) - key_message_seq oldest \<ge> kMaxSeqGap))"

definition lane_turn :: "TimePoint \<Rightarrow> nat \<Rightarrow> nat \<Rightarrow> bool \<times> flush_state \<Rightarrow> bool \<times> flush_state" where
  "lane_turn now mtu i st =
     (let (sent_any, batch, batch_bytes, tr) = st;
          lane = zt_staged tr ! i
      in case lane_messages lane of
           [] \<Rightarrow> st
         | queued # rest \<Rightarrow>
             if window_refuses (lane_channel lane) queued tr then st
             else let tr = tr\<lparr>zt_staged := (zt_staged tr)[i := lane\<lparr>lane_messages := rest\<rparr>],
                              zt_staged_count := zt_staged_count tr - 1\<rparr>
                  in (True, pack_message now mtu queued (lane_channel lane) (batch, batch_bytes, tr)))"

definition flush_cycle :: "TimePoint \<Rightarrow> nat \<Rightarrow> flush_state \<Rightarrow> bool \<times> flush_state" where
  "flush_cycle now mtu st =
     (let (batch, batch_bytes, tr) = st; lanes = length (zt_staged tr)
      in foldl (\<lambda>st step. lane_turn now mtu ((zt_staged_cursor tr + step) mod lanes) st)
           (False, st) [0..<lanes])"

text \<open>
  The outer loop; \<open>None\<close> when \<open>fuel\<close> rounds were not enough. Every round but the last takes a
  message off a lane, so the number of messages at hand bounds the rounds
  (\<open>flush_cycles_ends\<close> below).
\<close>

fun flush_cycles :: "nat \<Rightarrow> TimePoint \<Rightarrow> nat \<Rightarrow> flush_state \<Rightarrow> flush_state option" where
  "flush_cycles 0 now mtu st = None"
| "flush_cycles (Suc fuel) now mtu (batch, batch_bytes, tr) =
     (let (count, tr) = (if zt_staged_count tr = 0 then StageOutbound tr else (1, tr))
      in if count = 0 then Some (batch, batch_bytes, tr)
         else case flush_cycle now mtu (batch, batch_bytes, tr) of
           (False, st) \<Rightarrow> Some st
         | (True, batch, batch_bytes, tr) \<Rightarrow>
             flush_cycles fuel now mtu
               (batch, batch_bytes,
                tr\<lparr>zt_staged_cursor := (zt_staged_cursor tr + 1) mod length (zt_staged tr)\<rparr>))"

definition flush_fuel :: "ZDTTransport \<Rightarrow> nat" where
  "flush_fuel tr = zt_staged_count tr + mpsc_size (zt_outbound tr) + 1"

definition flush_mtu :: "ZDTTransport \<Rightarrow> nat" where
  "flush_mtu tr = (let floor = kZDTHeaderReserve + kZDTFragRecordHeaderSize + 1
                   in if unat (DatagramMTU tr) < floor then floor else unat (DatagramMTU tr))"

definition FlushOutbound :: "TimePoint \<Rightarrow> ZDTTransport \<Rightarrow> ZDTTransport" where
  "FlushOutbound now tr =
     (let mtu = flush_mtu tr;
          tr = (if zt_staged_count tr < outbound_queue_capacity (zt_config tr)
                then snd (StageOutbound tr) else tr)
      in case flush_cycles (flush_fuel tr) now mtu ([], kZDTHeaderReserve, tr) of
           None \<Rightarrow> tr
         | Some st \<Rightarrow> snd (snd (flush_batch now st)))"

definition Flush :: "TimePoint \<Rightarrow> ZDTTransport \<Rightarrow> ZDTTransport" where
  "Flush now tr =
     (if zt_is_closed tr then tr
      else let tr = FlushOutbound now tr
           in if zt_needs_ack tr then SendControl now 0 tr else tr)"

end
