(* ===== verification/Zdt_Transport.thy ===== *)
theory Zdt_Transport
  imports Zdt_Receive Zdt_Flush
begin

text \<open>
  The entry points of the ZDT transport and its tick (\<open>zdt_transport.cc\<close>): \<open>Send\<close>,
  \<open>Receive\<close>, \<open>OnDatagram\<close>, \<open>DrainSocket\<close>, \<open>ProcessInbound\<close>, \<open>CheckTimers\<close>, migration and
  \<open>Update\<close>.
\<close>

section \<open>Queues in and out\<close>

definition Send :: "Buffer \<Rightarrow> SendOptions \<Rightarrow> ZDTTransport \<Rightarrow> bool \<times> ZDTTransport" where
  "Send b options tr =
     (if zt_is_closed tr then (False, tr)
      else case Push \<lparr>qo_payload = b, qo_options = options\<rparr> (zt_outbound tr) of
        (Pushed _, q) \<Rightarrow> (True, tr\<lparr>zt_outbound := q\<rparr>)
      | (_, q) \<Rightarrow> (False, tr\<lparr>zt_outbound := q\<rparr>))"

definition Receive :: "ZDTTransport \<Rightarrow> Buffer option \<times> ZDTTransport" where
  "Receive tr =
     (case rx_ready (zt_rx tr) of
        [] \<Rightarrow> (None, tr)
      | b # rest \<Rightarrow> (Some b, tr\<lparr>zt_rx := (zt_rx tr)\<lparr>rx_ready := rest\<rparr>\<rparr>))"

definition OrderingDomain :: "SendOptions \<Rightarrow> u8" where
  "OrderingDomain options = GetOr_channel options"

definition OnDatagram :: "TimePoint \<Rightarrow> bytes \<Rightarrow> ZDTTransport \<Rightarrow> ZDTTransport" where
  "OnDatagram now data tr =
     tr\<lparr>zt_inbox := snd (inbox_Push now (Buffer_of default_new data BigEndian)
          (max_inbox_datagrams (zt_config tr)) (zt_inbox tr))\<rparr>"

text \<open>
  \<open>arrivals\<close> are the datagrams the socket yields before it has none left; a datagram longer
  than the receive buffer is cut off by the system.
\<close>

definition DrainSocket :: "TimePoint \<Rightarrow> bytes list \<Rightarrow> ZDTTransport \<Rightarrow> ZDTTransport" where
  "DrainSocket now arrivals tr =
     foldl (\<lambda>tr d. OnDatagram now (take ZNET_MAX_BUFFER_SIZE d) tr) tr arrivals"

section \<open>Inbound datagrams\<close>

text \<open>
  The loop over the records of a datagram. A record takes at least its header, so the bytes
  of the datagram bound the rounds (\<open>process_records_enough\<close> below).
\<close>

fun process_records :: "nat \<Rightarrow> TimePoint \<Rightarrow> Buffer \<Rightarrow> bool \<Rightarrow> ZDTTransport \<Rightarrow> bool \<times> ZDTTransport" where
  "process_records 0 now buffer accepted_all tr = (accepted_all, tr)"
| "process_records (Suc fuel) now buffer accepted_all tr =
     (if readable_bytes buffer = 0 then (accepted_all, tr)
      else case ReadZDTRecord ZDTRecord_init buffer of
        ((False, _), _) \<Rightarrow> (accepted_all, tr)
      | ((True, record), buffer) \<Rightarrow>
          (let payload = take (unat (rec_length record)) (read_cursor_data buffer);
               buffer = SkipRead (unat (rec_length record)) buffer;
               (ok, rx) = OnRecord (zt_config tr) now record payload (zt_rx tr);
               tr = tr\<lparr>zt_needs_ack := True, zt_rx := rx\<rparr>
           in if zt_is_closed tr then (accepted_all \<and> ok, tr)
              else process_records fuel now buffer (accepted_all \<and> ok) tr))"

text \<open>One datagram; the first component says that the loop over the datagrams returns here.\<close>

definition process_datagram :: "TimePoint \<Rightarrow> ZDTInbound \<Rightarrow> ZDTTransport \<Rightarrow> bool \<times> ZDTTransport" where
  "process_datagram now inbound tr =
     (case ReadZDTHeader ZDTHeader_init (in_datagram inbound) of
        ((False, _), _) \<Rightarrow> (False, tr)
      | ((True, header), buffer) \<Rightarrow>
          (let tr = tr\<lparr>zt_last_recv := in_arrival inbound\<rparr>;
               tr = (if hdr_packet_seq header \<noteq> 0 then ProcessAcks now header (in_arrival inbound) tr else tr)
           in if has_flag (hdr_flags header) kFlagFin then
                (True, let tr = tr\<lparr>zt_is_closed := True\<rparr>
                       in case net_socket (zt_net tr) of
                            Some sock \<Rightarrow> if net_drains_own_socket (zt_net tr)
                              then tr\<lparr>zt_net := (zt_net tr)\<lparr>net_shut := net_shut (zt_net tr) @ [sock]\<rparr>\<rparr> else tr
                          | None \<Rightarrow> tr)
              else if has_flag (hdr_flags header) kFlagPing then (False, SendControl now kFlagPong tr)
              else
                let (accepted_all, tr) = process_records (readable_bytes buffer) now buffer True tr
                in (False, if hdr_packet_seq header \<noteq> 0 \<and> accepted_all
                           then tr\<lparr>zt_ack_history := Record (hdr_packet_seq header) (zt_ack_history tr)\<rparr>
                           else tr)))"

fun process_datagrams :: "TimePoint \<Rightarrow> ZDTInbound list \<Rightarrow> ZDTTransport \<Rightarrow> ZDTTransport" where
  "process_datagrams now [] tr = tr"
| "process_datagrams now (d # ds) tr =
     (case process_datagram now d tr of
        (True, tr) \<Rightarrow> tr
      | (False, tr) \<Rightarrow> process_datagrams now ds tr)"

definition ProcessInbound :: "TimePoint \<Rightarrow> ZDTTransport \<Rightarrow> ZDTTransport" where
  "ProcessInbound now tr =
     (let (ds, inbox) = inbox_Drain (zt_inbox tr)
      in process_datagrams now ds (tr\<lparr>zt_inbox := inbox\<rparr>))"

section \<open>The tick\<close>

definition CheckTimers :: "TimePoint \<Rightarrow> ZDTTransport \<Rightarrow> ZDTTransport" where
  "CheckTimers now tr =
     (if zt_idle_timeout tr > 0 \<and> now - zt_last_recv tr > zt_idle_timeout tr * ns_per_ms then snd (Close tr)
      else if zt_keepalive_interval tr > 0 \<and> now - zt_last_send tr > zt_keepalive_interval tr * ns_per_ms
      then SendControl now kFlagPing tr else tr)"

definition MigratePeer :: "InetAddress option \<Rightarrow> ZDTTransport \<Rightarrow> ZDTTransport" where
  "MigratePeer new_peer tr = (case new_peer of None \<Rightarrow> tr
     | Some p \<Rightarrow> tr\<lparr>zt_net := (zt_net tr)\<lparr>net_pending_peer := Some p\<rparr>\<rparr>)"

definition MigrateSocket :: "nat option \<Rightarrow> ZDTTransport \<Rightarrow> ZDTTransport" where
  "MigrateSocket new_socket tr = (case new_socket of None \<Rightarrow> tr
     | Some s \<Rightarrow> tr\<lparr>zt_net := (zt_net tr)\<lparr>net_pending_socket := Some s\<rparr>\<rparr>)"

definition ApplyPendingMigration :: "ZDTTransport \<Rightarrow> ZDTTransport" where
  "ApplyPendingMigration tr =
     (let net = zt_net tr
      in tr\<lparr>zt_net := net\<lparr>
           net_socket := (case net_pending_socket net of Some s \<Rightarrow> Some s | None \<Rightarrow> net_socket net),
           net_peer := (case net_pending_peer net of Some p \<Rightarrow> Some p | None \<Rightarrow> net_peer net),
           net_pending_peer := None, net_pending_socket := None\<rparr>\<rparr>)"

definition PruneReassembly_tr :: "TimePoint \<Rightarrow> ZDTTransport \<Rightarrow> ZDTTransport" where
  "PruneReassembly_tr now tr = tr\<lparr>zt_rx := PruneReassembly (zt_config tr) now (zt_rx tr)\<rparr>"

definition Update :: "TimePoint \<Rightarrow> bytes list \<Rightarrow> ZDTTransport \<Rightarrow> ZDTTransport" where
  "Update now arrivals tr =
     (if zt_is_closed tr then tr
      else let tr = ApplyPendingMigration tr;
               tr = (if net_drains_own_socket (zt_net tr) then DrainSocket now arrivals tr else tr);
               tr = ProcessInbound now tr
      in if zt_is_closed tr then tr
      else let tr = RetransmitUnacked now tr
      in if zt_is_closed tr then tr
      else let tr = CheckTimers now (MaybeTailProbe now tr)
      in if zt_is_closed tr then tr
      else PruneReassembly_tr now (PruneSentPackets now (Flush now tr)))"

end
