(* ===== verification/Zdt_Invariant.thy ===== *)
theory Zdt_Invariant
  imports Zdt_Transport
begin

text \<open>
  How an invariant of the transport is established. The locale \<open>transport_invariant\<close> lists
  what the elementary state changes of the transport have to preserve; inside it the
  composite operations, up to the whole tick, are shown to preserve the invariant once and
  for all. \<open>base\<close> is the part every invariant needs: the connection does not change, and
  every unacknowledged message fits a datagram.
\<close>

section \<open>Frame\<close>

lemma RetireSentPacket_frame [simp]:
  "zt_net (RetireSentPacket s tr) = zt_net tr" "zt_config (RetireSentPacket s tr) = zt_config tr"
  "zt_connection (RetireSentPacket s tr) = zt_connection tr" "zt_rx (RetireSentPacket s tr) = zt_rx tr"
  "zt_unacked (RetireSentPacket s tr) = zt_unacked tr" "zt_is_closed (RetireSentPacket s tr) = zt_is_closed tr"
  "zt_outbound (RetireSentPacket s tr) = zt_outbound tr" "zt_staged (RetireSentPacket s tr) = zt_staged tr"
  "zt_staged_count (RetireSentPacket s tr) = zt_staged_count tr"
  "zt_staged_cursor (RetireSentPacket s tr) = zt_staged_cursor tr"
  "zt_send_scratch (RetireSentPacket s tr) = zt_send_scratch tr"
  "zt_next_packet_seq (RetireSentPacket s tr) = zt_next_packet_seq tr"
  "zt_ack_history (RetireSentPacket s tr) = zt_ack_history tr"
  "zt_rtt (RetireSentPacket s tr) = zt_rtt tr" "zt_congestion (RetireSentPacket s tr) = zt_congestion tr"
  by (simp_all add: RetireSentPacket_def split: option.split)

lemma SendBatch_frame [simp]:
  "zt_config (snd (SendBatch now fl batch tr)) = zt_config tr"
  "zt_connection (snd (SendBatch now fl batch tr)) = zt_connection tr"
  "zt_rx (snd (SendBatch now fl batch tr)) = zt_rx tr"
  "zt_unacked (snd (SendBatch now fl batch tr)) = zt_unacked tr"
  "zt_is_closed (snd (SendBatch now fl batch tr)) = zt_is_closed tr"
  "zt_outbound (snd (SendBatch now fl batch tr)) = zt_outbound tr"
  "zt_staged (snd (SendBatch now fl batch tr)) = zt_staged tr"
  "zt_staged_count (snd (SendBatch now fl batch tr)) = zt_staged_count tr"
  "zt_staged_cursor (snd (SendBatch now fl batch tr)) = zt_staged_cursor tr"
  "zt_ack_history (snd (SendBatch now fl batch tr)) = zt_ack_history tr"
  by (simp_all add: SendBatch_def Let_def SendTo_def split: option.split)

lemma SendTo_frame [simp]:
  "zt_config (SendTo s p bs tr) = zt_config tr" "zt_connection (SendTo s p bs tr) = zt_connection tr"
  "zt_rx (SendTo s p bs tr) = zt_rx tr" "zt_unacked (SendTo s p bs tr) = zt_unacked tr"
  "zt_sent_packets (SendTo s p bs tr) = zt_sent_packets tr"
  "zt_in_flight_datagrams (SendTo s p bs tr) = zt_in_flight_datagrams tr"
  by (simp_all add: SendTo_def)

lemma Close_frame [simp]:
  "zt_config (snd (Close tr)) = zt_config tr" "zt_connection (snd (Close tr)) = zt_connection tr"
  "zt_rx (snd (Close tr)) = zt_rx tr" "zt_unacked (snd (Close tr)) = zt_unacked tr"
  "zt_sent_packets (snd (Close tr)) = zt_sent_packets tr"
  "zt_in_flight_datagrams (snd (Close tr)) = zt_in_flight_datagrams tr"
  "zt_is_closed (snd (Close tr))"
  by (simp_all add: Close_def Let_def SendTo_def split: option.split)

lemma take_send_seq_frame [simp]:
  "zt_config (snd (take_send_seq r c tr)) = zt_config tr"
  "zt_connection (snd (take_send_seq r c tr)) = zt_connection tr"
  "zt_unacked (snd (take_send_seq r c tr)) = zt_unacked tr"
  "zt_sent_packets (snd (take_send_seq r c tr)) = zt_sent_packets tr"
  "zt_in_flight_datagrams (snd (take_send_seq r c tr)) = zt_in_flight_datagrams tr"
  "zt_net (snd (take_send_seq r c tr)) = zt_net tr"
  "zt_staged (snd (take_send_seq r c tr)) = zt_staged tr"
  "zt_staged_count (snd (take_send_seq r c tr)) = zt_staged_count tr"
  "zt_outbound (snd (take_send_seq r c tr)) = zt_outbound tr"
  by (simp_all add: take_send_seq_def Let_def)

section \<open>The datagram budget\<close>

text \<open>What a connection leaves for header and records; \<open>flush_mtu\<close> once the handshake has set the MTU.\<close>

definition conn_mtu_left :: "ZDTConnection \<Rightarrow> nat" where
  "conn_mtu_left conn =
     (let overhead = (if conn_relay_channel conn \<noteq> 0 then kZDTRelayHeaderSize else 0)
                     + (if conn_migration_enabled conn then kZDTCidSize else 0)
      in if overhead < unat (conn_mtu conn) then unat (conn_mtu conn) - overhead else unat (conn_mtu conn))"

definition conn_budget :: "ZDTConnection \<Rightarrow> nat" where
  "conn_budget conn = max (kZDTHeaderReserve + kZDTFragRecordHeaderSize + 1) (conn_mtu_left conn)"

lemma DatagramMTU_eq:
  assumes "conn_mtu (zt_connection tr) \<noteq> 0"
  shows "unat (DatagramMTU tr) = conn_mtu_left (zt_connection tr)"
proof -
  have "unat (word_of_nat (unat m - k) :: u16) = unat m - k" for m :: u16 and k
    by (rule unat_of_nat_small) (use unat16_less [of m] in simp)
  with assms show ?thesis
    by (simp only: DatagramMTU_def conn_mtu_left_def Let_def if_distrib [of unat] not_False_eq_True if_True cong: if_cong)
qed

lemma flush_mtu_eq: "conn_mtu (zt_connection tr) \<noteq> 0 \<Longrightarrow> flush_mtu tr = conn_budget (zt_connection tr)"
  by (simp add: flush_mtu_def conn_budget_def DatagramMTU_eq Let_def)

definition fits :: "ZDTConnection \<Rightarrow> PendingRecord list \<Rightarrow> bool" where
  "fits conn batch \<longleftrightarrow> length batch \<le> si_kMaxKeys \<and> kZDTHeaderReserve + record_bytes batch \<le> conn_budget conn"

definition resend_record :: "MsgKey \<Rightarrow> OutReliable \<Rightarrow> PendingRecord" where
  "resend_record key msg = MakeRecord (or_message msg) (or_offset msg) (or_length msg) (or_data_flags msg)
     (or_channel msg) (key_message_seq key) (or_frag_index msg) (or_frag_count msg) True"

definition msg_fits :: "ZDTConnection \<Rightarrow> OutReliable \<Rightarrow> bool" where
  "msg_fits conn msg \<longleftrightarrow> kZDTHeaderReserve
     + ZDTRecordSize (has_flag (or_data_flags msg) kRecFragment) (or_length msg) \<le> conn_budget conn"

definition base :: "ZDTConnection \<Rightarrow> ZDTTransport \<Rightarrow> bool" where
  "base conn tr \<longleftrightarrow> zt_connection tr = conn \<and> conn_mtu conn \<noteq> 0 \<and> om_ok (zt_unacked tr)
     \<and> (\<forall>key msg. om_find key (zt_unacked tr) = Some msg \<longrightarrow> msg_fits conn msg)"

text \<open>The flags a caller of \<open>SendBatch\<close> adds: none, a ping or a pong.\<close>

definition control_flags :: "u8 \<Rightarrow> bool" where
  "control_flags fl \<longleftrightarrow> fl = 0 \<or> fl = kFlagPing \<or> fl = kFlagPong"

lemma control_flags_simps [simp]: "control_flags 0" "control_flags kFlagPing" "control_flags kFlagPong"
  by (simp_all add: control_flags_def)

lemma fits_Nil [simp]: "fits conn []"
  by (simp add: fits_def record_bytes_def conn_budget_def)

lemma record_bytes_simps [simp]:
  "record_bytes [] = 0"
  "record_bytes (p # ps) = ZDTRecordSize (has_flag (rec_flags (pr_record p)) kRecFragment) (pr_payload_len p) + record_bytes ps"
  "record_bytes (ps @ qs) = record_bytes ps + record_bytes qs"
  by (simp_all add: record_bytes_def)

lemma MakeRecord_fields [simp]:
  "pr_payload_len (MakeRecord b off n fl c s i k r) = n" "pr_reliable (MakeRecord b off n fl c s i k r) = r"
  "pr_key (MakeRecord b off n fl c s i k r) = MsgKey c r i s" "pr_owner (MakeRecord b off n fl c s i k r) = b"
  "rec_flags (pr_record (MakeRecord b off n fl c s i k r)) = fl"
  "rec_channel (pr_record (MakeRecord b off n fl c s i k r)) = c"
  by (simp_all add: MakeRecord_def)

lemma base_resend: "base conn tr \<Longrightarrow> om_find key (zt_unacked tr) = Some msg \<Longrightarrow> fits conn [resend_record key msg]"
  by (auto simp: base_def fits_def resend_record_def msg_fits_def si_kMaxKeys_def)

lemma baseD: "base conn tr \<Longrightarrow> zt_connection tr = conn" "base conn tr \<Longrightarrow> om_ok (zt_unacked tr)"
  "base conn tr \<Longrightarrow> conn_mtu conn \<noteq> 0"
  by (simp_all add: base_def)

lemma base_cong:
  "base conn tr \<Longrightarrow> zt_connection tr' = zt_connection tr \<Longrightarrow> zt_unacked tr' = zt_unacked tr \<Longrightarrow> base conn tr'"
  by (simp add: base_def)

lemma base_assign:
  "base conn tr \<Longrightarrow> msg_fits conn msg \<Longrightarrow> base conn (tr\<lparr>zt_unacked := om_assign key msg (zt_unacked tr)\<rparr>)"
  by (simp add: base_def)

lemma base_erase: "base conn tr \<Longrightarrow> base conn (tr\<lparr>zt_unacked := om_erase key (zt_unacked tr)\<rparr>)"
  by (simp add: base_def)

lemma base_find: "base conn tr \<Longrightarrow> om_find key (zt_unacked tr) = Some msg \<Longrightarrow> msg_fits conn msg"
  by (simp add: base_def)

section \<open>The contract of an invariant\<close>

locale transport_invariant =
  fixes conn :: ZDTConnection
    and I :: "ZDTTransport \<Rightarrow> bool"
  assumes I_send: "base conn tr \<Longrightarrow> I tr \<Longrightarrow> fits conn batch \<Longrightarrow> control_flags fl \<Longrightarrow> I (snd (SendBatch now fl batch tr))"
    and I_retire: "base conn tr \<Longrightarrow> I tr \<Longrightarrow> I (RetireSentPacket s tr)"
    and I_close: "base conn tr \<Longrightarrow> I tr \<Longrightarrow> I (snd (Close tr))"
    and I_relog: "base conn tr \<Longrightarrow> I tr \<Longrightarrow> om_find key (zt_unacked tr) = Some msg \<Longrightarrow>
      I (tr\<lparr>zt_unacked := om_assign key (msg\<lparr>or_last_send := t, or_send_count := n, or_packets := l\<rparr>) (zt_unacked tr)\<rparr>)"
    and I_acked: "base conn tr \<Longrightarrow> I tr \<Longrightarrow> I (tr\<lparr>zt_unacked := om_erase key (zt_unacked tr)\<rparr>)"
    and I_timers: "base conn tr \<Longrightarrow> I tr \<Longrightarrow>
      I (tr\<lparr>zt_next_retransmit_scan := a, zt_tail_probe_at := b, zt_tail_probes_fired := c\<rparr>)"
    and I_control: "base conn tr \<Longrightarrow> I tr \<Longrightarrow> I (tr\<lparr>zt_rtt := r, zt_congestion := cc\<rparr>)"
    and I_seq: "base conn tr \<Longrightarrow> I tr \<Longrightarrow> \<not> window_refuses ch q tr \<Longrightarrow>
      I (snd (take_send_seq (GetOr_reliable (qo_options q)) ch tr))"
    and I_track: "base conn tr \<Longrightarrow> I tr \<Longrightarrow> seq + 1 = rel_send (rx_channels (zt_rx tr) ch) \<Longrightarrow>
      I (tr\<lparr>zt_unacked := om_assign (MsgKey ch True fi seq) msg (zt_unacked tr)\<rparr>)"
    and I_stage: "base conn tr \<Longrightarrow> I tr \<Longrightarrow> I (snd (StageOutbound tr))"
    and I_pop: "base conn tr \<Longrightarrow> I tr \<Longrightarrow> i < length (zt_staged tr) \<Longrightarrow> lane_messages (zt_staged tr ! i) = q # rest \<Longrightarrow>
      I (tr\<lparr>zt_staged := (zt_staged tr)[i := (zt_staged tr ! i)\<lparr>lane_messages := rest\<rparr>],
             zt_staged_count := zt_staged_count tr - 1\<rparr>)"
    and I_cursor: "base conn tr \<Longrightarrow> I tr \<Longrightarrow> I (tr\<lparr>zt_staged_cursor := cu\<rparr>)"
    and I_record: "base conn tr \<Longrightarrow> I tr \<Longrightarrow> length data < 2 ^ 16 \<Longrightarrow>
      I (tr\<lparr>zt_needs_ack := True, zt_rx := snd (OnRecord (zt_config tr) now rec data (zt_rx tr))\<rparr>)"
    and I_prune: "base conn tr \<Longrightarrow> I tr \<Longrightarrow> I (PruneReassembly_tr now tr)"
    and I_inbound: "base conn tr \<Longrightarrow> I tr \<Longrightarrow> I (tr\<lparr>zt_inbox := ib, zt_last_recv := t\<rparr>)"
    and I_history: "base conn tr \<Longrightarrow> I tr \<Longrightarrow> I (tr\<lparr>zt_ack_history := Record s (zt_ack_history tr)\<rparr>)"
    and I_ready: "base conn tr \<Longrightarrow> I tr \<Longrightarrow> I (tr\<lparr>zt_rx := (zt_rx tr)\<lparr>rx_ready := rd\<rparr>\<rparr>)"
    and I_path: "base conn tr \<Longrightarrow> I tr \<Longrightarrow> I (tr\<lparr>zt_is_closed := cl, zt_net := (zt_net tr)\<lparr>net_socket := so, net_peer := pe,
      net_pending_peer := pp, net_pending_socket := ps, net_shut := sh\<rparr>\<rparr>)"
begin

definition good :: "ZDTTransport \<Rightarrow> bool" where
  "good tr \<longleftrightarrow> base conn tr \<and> I tr"

lemma goodD: "good tr \<Longrightarrow> base conn tr" "good tr \<Longrightarrow> I tr"
  by (simp_all add: good_def)

lemma good_send: "good tr \<Longrightarrow> fits conn batch \<Longrightarrow> control_flags fl \<Longrightarrow> good (snd (SendBatch now fl batch tr))"
  by (auto simp: good_def I_send elim: base_cong)

lemma good_retire: "good tr \<Longrightarrow> good (RetireSentPacket s tr)"
  by (auto simp: good_def I_retire elim: base_cong)

lemma good_close: "good tr \<Longrightarrow> good (snd (Close tr))"
  by (auto simp: good_def I_close elim: base_cong)

lemma good_relog:
  assumes "good tr" and "om_find key (zt_unacked tr) = Some msg"
  shows "good (tr\<lparr>zt_unacked := om_assign key (msg\<lparr>or_last_send := t, or_send_count := n, or_packets := l\<rparr>) (zt_unacked tr)\<rparr>)"
proof -
  have "msg_fits conn (msg\<lparr>or_last_send := t, or_send_count := n, or_packets := l\<rparr>)"
    using base_find [OF goodD(1) [OF assms(1)] assms(2)] by (simp add: msg_fits_def)
  then show ?thesis using assms I_relog base_assign by (simp add: good_def)
qed

lemmas good_relog_fields =
  good_relog [where n = "or_send_count msg" and l = "or_packets msg" and msg = msg for msg, simplified]
  good_relog [where t = "or_last_send msg" and n = "or_send_count msg" and msg = msg for msg, simplified]
  good_relog [where l = "or_packets msg" and msg = msg for msg, simplified]

lemma good_acked: "good tr \<Longrightarrow> good (tr\<lparr>zt_unacked := om_erase key (zt_unacked tr)\<rparr>)"
  by (simp add: good_def I_acked base_erase)

lemma good_timers: "good tr \<Longrightarrow> good (tr\<lparr>zt_next_retransmit_scan := a, zt_tail_probe_at := b, zt_tail_probes_fired := c\<rparr>)"
  using I_timers by (auto simp: good_def elim: base_cong)

lemmas good_timer_fields =
  good_timers [where b = "zt_tail_probe_at tr" and c = "zt_tail_probes_fired tr" and tr = tr for tr, simplified]
  good_timers [where a = "zt_next_retransmit_scan tr" and c = "zt_tail_probes_fired tr" and tr = tr for tr, simplified]
  good_timers [where a = "zt_next_retransmit_scan tr" and b = "zt_tail_probe_at tr" and tr = tr for tr, simplified]

lemma good_control: "good tr \<Longrightarrow> good (tr\<lparr>zt_rtt := r, zt_congestion := cc\<rparr>)"
  using I_control by (auto simp: good_def elim: base_cong)

lemmas good_control_fields =
  good_control [where cc = "zt_congestion tr" and tr = tr for tr, simplified]
  good_control [where r = "zt_rtt tr" and tr = tr for tr, simplified]

lemma good_cursor: "good tr \<Longrightarrow> good (tr\<lparr>zt_staged_cursor := cu\<rparr>)"
  using I_cursor by (auto simp: good_def elim: base_cong)

lemma good_foldl: "good tr \<Longrightarrow> (\<And>tr x. good tr \<Longrightarrow> good (f tr x)) \<Longrightarrow> good (foldl f tr xs)"
  by (induction xs arbitrary: tr) simp_all

end

section \<open>Acknowledgments and retransmission\<close>

lemma newest_unacked_in:
  assumes "m \<noteq> []"
  shows "newest_unacked m \<in> set m"
proof -
  have in_list: "foldl (\<lambda>newest e. if or_last_send (snd e) \<ge> or_last_send (snd newest) then e else newest) x xs \<in> insert x (set xs)"
    for x :: "MsgKey \<times> OutReliable" and xs
  proof (induction xs arbitrary: x)
    case (Cons a xs)
    show ?case using Cons [of "if or_last_send (snd x) \<le> or_last_send (snd a) then a else x"] by (auto split: if_splits)
  qed simp
  show ?thesis
    using in_list [of "hd m" m] insert_absorb [OF hd_in_set [OF assms]] by (simp only: newest_unacked_def)
qed

context transport_invariant
begin

lemma good_rearm: "good tr \<Longrightarrow> good (RearmTailProbe now tr)"
  by (simp add: RearmTailProbe_def Let_def good_timer_fields)

lemma good_resend:
  assumes "good tr" and "om_find key (zt_unacked tr) = Some msg"
  shows "good (ResendReliable now key msg tr)"
proof -
  obtain packet tr' where s: "SendBatch now 0 [resend_record key msg] tr = (packet, tr')" by fastforce
  have "fits conn [resend_record key msg]" by (rule base_resend [OF goodD(1) [OF assms(1)] assms(2)])
  then have "good tr'" using good_send [OF assms(1) _ control_flags_simps(1)] s by (metis snd_conv)
  moreover have "zt_unacked tr' = zt_unacked tr" using SendBatch_frame(4) s by (metis snd_conv)
  ultimately show ?thesis
    using good_relog_fields(2) [of tr' key msg] assms(2) s by (simp add: ResendReliable_def Let_def resend_record_def)
qed

lemma good_control_msg: "good tr \<Longrightarrow> control_flags fl \<Longrightarrow> good (SendControl now fl tr)"
  by (simp add: SendControl_def good_send)

lemma good_nak_key: "good tr \<Longrightarrow> good (nak_key tr key)"
  by (auto simp: nak_key_def good_relog_fields good_timer_fields split: option.split)

lemma good_OnNak: "good tr \<Longrightarrow> good (OnNak s tr)"
  by (auto simp: OnNak_def intro!: good_retire good_foldl good_nak_key split: option.split)

lemma good_ack_key: "good tr \<Longrightarrow> good (ack_key s tr key)"
  by (auto simp: ack_key_def Let_def intro!: good_acked good_foldl good_retire split: option.split)

lemma good_AckPacket: "good tr \<Longrightarrow> good (snd (AckPacket s t tr))"
  by (auto simp: AckPacket_def Let_def intro!: good_retire good_foldl good_ack_key good_control_fields
      split: option.split)

lemma good_ack_run: "good (snd (snd st)) \<Longrightarrow> good (snd (snd (ack_run n ack t st)))"
proof (induction n arbitrary: st)
  case (Suc n)
  obtain newly offset tr where st: "st = (newly, offset, tr)" by (metis prod_cases3)
  obtain fresh tr' where a: "AckPacket (ack - word_of_nat offset) t tr = (fresh, tr')" by fastforce
  have "good tr'" using good_AckPacket [of tr "ack - word_of_nat offset" t] Suc.prems st a by simp
  then show ?case using Suc.IH st a by simp
qed simp

lemma good_nak_run: "good (snd (snd st)) \<Longrightarrow> good (snd (snd (nak_run n ack st)))"
  by (induction n arbitrary: st) (auto simp: good_OnNak split: prod.split)

lemma good_ack_blocks: "good (snd (snd st)) \<Longrightarrow> good (snd (snd (ack_blocks bs ack t st)))"
  by (induction bs ack t st rule: ack_blocks.induct) (auto simp: good_ack_run good_nak_run)

lemma good_ProcessAcks:
  assumes "good tr"
  shows "good (ProcessAcks now header t tr)"
proof -
  let ?tr = "tr\<lparr>zt_congestion := OnAckArrived (hdr_ack header) (zt_congestion tr)\<rparr>"
  obtain newly offset tr' where b: "ack_blocks (take (unat (hdr_block_count header)) (hdr_blocks header))
      (hdr_ack header) t (0, 0, ?tr) = (newly, offset, tr')" by (metis prod_cases3)
  have "good tr'" using good_ack_blocks [of "(0, 0, ?tr)"] b good_control_fields(2) [OF assms] by (metis snd_conv)
  then show ?thesis using b by (simp add: ProcessAcks_def Let_def good_rearm good_control_fields(2))
qed

lemma good_retransmit_scan: "good tr \<Longrightarrow> good (snd (retransmit_scan now keys earliest timed_out tr))"
proof (induction keys arbitrary: earliest timed_out tr)
  case (Cons key keys)
  show ?case
  proof (cases "om_find key (zt_unacked tr)")
    case None
    then show ?thesis using Cons by simp
  next
    case (Some msg)
    let ?tr1 = "ResendReliable now key msg tr"
    let ?tr2 = "case om_find key (zt_unacked ?tr1) of
        Some msg \<Rightarrow> ?tr1\<lparr>zt_unacked := om_assign key
          (msg\<lparr>or_last_send := now, or_send_count := or_send_count msg + 1\<rparr>) (zt_unacked ?tr1)\<rparr>
      | None \<Rightarrow> ?tr1"
    have "good ?tr1" by (rule good_resend [OF Cons.prems Some])
    then have "good ?tr2" using good_relog_fields(3) by (auto split: option.split)
    then have g: "good (?tr2\<lparr>zt_tail_probe_at := now + TailProbeDelay ?tr2\<rparr>)" by (rule good_timer_fields)
    show ?thesis
      using Cons.IH [OF Cons.prems] Cons.IH [OF g] good_close [OF Cons.prems] Some by (simp add: Let_def)
  qed
qed simp

lemma good_RetransmitUnacked: "good tr \<Longrightarrow> good (RetransmitUnacked now tr)"
  using good_retransmit_scan [of tr now "map fst (zt_unacked tr)" TimePoint_max False]
  by (auto simp: RetransmitUnacked_def Let_def good_timer_fields good_control_fields split: prod.split option.split)

lemma good_MaybeTailProbe:
  assumes "good tr"
  shows "good (MaybeTailProbe now tr)"
proof (cases "now < zt_tail_probe_at tr \<or> zt_unacked tr = []")
  case True
  then show ?thesis using assms by (simp add: MaybeTailProbe_def)
next
  case False
  obtain key msg where n: "newest_unacked (zt_unacked tr) = (key, msg)" by fastforce
  then have "om_find key (zt_unacked tr) = Some msg"
    using newest_unacked_in [of "zt_unacked tr"] False om_find_mem baseD(2) goodD(1) [OF assms] by fastforce
  then have "good (ResendReliable now key msg tr)" by (rule good_resend [OF assms])
  then show ?thesis using False n by (simp add: MaybeTailProbe_def Let_def good_timer_fields)
qed

lemma good_PruneSentPackets: "good tr \<Longrightarrow> good (PruneSentPackets now tr)"
  by (auto simp: PruneSentPackets_def intro!: good_foldl good_retire)

end

section \<open>Packing\<close>

lemma data_flags_fragment [simp]:
  "\<not> has_flag ((if r then kRecReliable else 0) OR (if u then kRecOrdered else 0)) kRecFragment"
  "has_flag (((if r then kRecReliable else 0) OR (if u then kRecOrdered else 0)) OR kRecFragment) kRecFragment"
  by (simp_all add: has_flag_def kRecReliable_def kRecOrdered_def kRecFragment_def)

lemma log_packet_frame [simp]:
  "zt_rx (log_packet packet tr p) = zt_rx tr" "zt_connection (log_packet packet tr p) = zt_connection tr"
  "zt_staged (log_packet packet tr p) = zt_staged tr" "zt_staged_count (log_packet packet tr p) = zt_staged_count tr"
  "zt_outbound (log_packet packet tr p) = zt_outbound tr"
  "zt_staged_cursor (log_packet packet tr p) = zt_staged_cursor tr" "zt_net (log_packet packet tr p) = zt_net tr"
  by (simp_all add: log_packet_def split: option.split)

lemma log_packets_frame [simp]:
  "zt_rx (foldl (log_packet packet) tr ps) = zt_rx tr"
  "zt_staged (foldl (log_packet packet) tr ps) = zt_staged tr"
  "zt_staged_count (foldl (log_packet packet) tr ps) = zt_staged_count tr"
  "zt_staged_cursor (foldl (log_packet packet) tr ps) = zt_staged_cursor tr"
  "zt_outbound (foldl (log_packet packet) tr ps) = zt_outbound tr"
  by (induction ps arbitrary: tr) simp_all

lemma flush_batch_frame:
  assumes "flush_batch now (batch, bytes, tr) = (batch', bytes', tr')"
  shows "zt_rx tr' = zt_rx tr" and "zt_staged tr' = zt_staged tr" and "zt_staged_count tr' = zt_staged_count tr"
    and "zt_staged_cursor tr' = zt_staged_cursor tr" and "zt_outbound tr' = zt_outbound tr"
proof -
  obtain packet tr1 where s: "SendBatch now 0 batch tr = (packet, tr1)" by fastforce
  note f = SendBatch_frame [where tr = tr and batch = batch and now = now and fl = 0, unfolded s snd_conv]
  show "zt_rx tr' = zt_rx tr" "zt_staged tr' = zt_staged tr" "zt_staged_count tr' = zt_staged_count tr"
    "zt_staged_cursor tr' = zt_staged_cursor tr" "zt_outbound tr' = zt_outbound tr"
    using assms s f by (auto simp: flush_batch_def Let_def split: if_splits)
qed

lemma TrackReliable_frame [simp]:
  "zt_rx (TrackReliable p off now l tr) = zt_rx tr" "zt_staged (TrackReliable p off now l tr) = zt_staged tr"
  "zt_staged_count (TrackReliable p off now l tr) = zt_staged_count tr"
  "zt_staged_cursor (TrackReliable p off now l tr) = zt_staged_cursor tr"
  "zt_outbound (TrackReliable p off now l tr) = zt_outbound tr"
  by (simp_all add: TrackReliable_def RearmTailProbe_def Let_def)

lemma send_fragment_frame [simp]:
  "zt_rx (send_fragment now b rb n fc fl c s k r tr i) = zt_rx tr"
  "zt_staged (send_fragment now b rb n fc fl c s k r tr i) = zt_staged tr"
  "zt_staged_count (send_fragment now b rb n fc fl c s k r tr i) = zt_staged_count tr"
  "zt_staged_cursor (send_fragment now b rb n fc fl c s k r tr i) = zt_staged_cursor tr"
  "zt_outbound (send_fragment now b rb n fc fl c s k r tr i) = zt_outbound tr"
  by (simp_all add: send_fragment_def Let_def split_beta)

text \<open>The part of the state the lanes live in; packing a message leaves it alone.\<close>

definition lane_view :: "ZDTTransport \<Rightarrow> StagedLane list \<times> nat \<times> nat \<times> QueuedOut MpscQueue" where
  "lane_view tr = (zt_staged tr, zt_staged_count tr, zt_staged_cursor tr, zt_outbound tr)"

lemma lane_view_flush_batch: "lane_view (snd (snd (flush_batch now (batch, bytes, tr)))) = lane_view tr"
proof -
  obtain batch' bytes' tr' where "flush_batch now (batch, bytes, tr) = (batch', bytes', tr')" by (metis prod_cases3)
  then show ?thesis using flush_batch_frame by (simp add: lane_view_def)
qed

lemma lane_view_fragments: "lane_view (foldl (send_fragment now b rb n fc fl c seq k r) tr is) = lane_view tr"
  by (induction "is" arbitrary: tr) (simp_all add: lane_view_def)

lemma lane_view_pack_message: "lane_view (snd (snd (pack_message now mtu q c (batch, bytes, tr)))) = lane_view tr"
proof -
  obtain seq tr1 where s: "take_send_seq (GetOr_reliable (qo_options q)) c tr = (seq, tr1)" by fastforce
  then have 1: "lane_view tr1 = lane_view tr" by (auto simp: take_send_seq_def Let_def lane_view_def)
  obtain batch2 bytes2 tr2 where f: "flush_batch now (batch, bytes, tr1) = (batch2, bytes2, tr2)" by (metis prod_cases3)
  then have 2: "lane_view tr2 = lane_view tr1" using lane_view_flush_batch [of now batch bytes tr1] by simp
  have "lane_view (if r then TrackReliable p off now l tr else tr) = lane_view tr" for r p off l tr
    by (simp add: lane_view_def)
  then show ?thesis using s f 1 2 by (simp add: pack_message_def Let_def lane_view_fragments)
qed

lemma lane_turn_lanes:
  "length (zt_staged (snd (snd (snd (lane_turn now mtu i st))))) = length (zt_staged (snd (snd (snd st))))"
proof -
  obtain s batch bytes tr where st: "st = (s, batch, bytes, tr)" by (metis prod_cases4)
  have "zt_staged (snd (snd (pack_message now mtu q c (batch, bytes, tr)))) = zt_staged tr" for q c tr
    using lane_view_pack_message [of now mtu q c batch bytes tr] by (simp add: lane_view_def)
  then show ?thesis by (simp add: st lane_turn_def Let_def split: list.split)
qed

context transport_invariant
begin

lemma good_log_packet: "good tr \<Longrightarrow> good (log_packet packet tr p)"
  by (auto simp: log_packet_def good_relog_fields split: option.split)

fun flush_good :: "flush_state \<Rightarrow> bool" where
  "flush_good (batch, bytes, tr) \<longleftrightarrow> good tr \<and> fits conn batch \<and> bytes = kZDTHeaderReserve + record_bytes batch"

lemma good_flush_batch:
  assumes "flush_good st"
  shows "flush_good (flush_batch now st)" and "fst (flush_batch now st) = []"
proof -
  obtain batch bytes tr where st: "st = (batch, bytes, tr)" by (metis prod_cases3)
  obtain packet tr1 where s: "SendBatch now 0 batch tr = (packet, tr1)" by fastforce
  have "good tr1" using good_send [of tr batch 0 now] assms st s by simp
  then have "good (foldl (log_packet packet) tr1 batch)" by (rule good_foldl) (rule good_log_packet)
  then show "flush_good (flush_batch now st)" and "fst (flush_batch now st) = []"
    using assms st s by (auto simp: flush_batch_def)
qed

lemma good_track:
  assumes "good tr" and "seq + 1 = rel_send (rx_channels (zt_rx tr) c)"
    and "fits conn [MakeRecord b off n fl c seq i k True]"
  shows "good (TrackReliable (MakeRecord b off n fl c seq i k True) off now l tr)"
proof -
  let ?p = "MakeRecord b off n fl c seq i k True"
  let ?m = "\<lparr>or_message = pr_owner ?p, or_offset = off, or_length = pr_payload_len ?p,
      or_channel = rec_channel (pr_record ?p), or_message_seq = rec_message_seq (pr_record ?p),
      or_frag_index = rec_frag_index (pr_record ?p), or_frag_count = rec_frag_count (pr_record ?p),
      or_data_flags = rec_flags (pr_record ?p), or_last_send = now, or_send_count = 1, or_packets = l\<rparr>"
  let ?t = "min (zt_next_retransmit_scan tr) (now + rtt_rto (zt_rtt tr) * ns_per_ms)"
  let ?tr = "tr\<lparr>zt_next_retransmit_scan := ?t\<rparr>"
  have g: "good ?tr" using good_timer_fields(1) [OF assms(1)] .
  have f: "msg_fits conn ?m" using assms(3) by (simp add: fits_def msg_fits_def)
  have "seq + 1 = rel_send (rx_channels (zt_rx ?tr) c)" using assms(2) by simp
  then have "good (?tr\<lparr>zt_unacked := om_assign (MsgKey c True i seq) ?m (zt_unacked ?tr)\<rparr>)"
    unfolding good_def by (intro conjI base_assign [OF goodD(1) [OF g] f] I_track [OF goodD [OF g]])
  then show ?thesis by (simp add: TrackReliable_def good_rearm)
qed

lemma good_send_fragment:
  assumes "good tr" and "r \<longrightarrow> seq + 1 = rel_send (rx_channels (zt_rx tr) c)"
    and "kZDTHeaderReserve + kZDTFragRecordHeaderSize + fc \<le> conn_budget conn" and "has_flag fl kRecFragment"
  shows "good (send_fragment now b rb n fc fl c seq k r tr i)"
proof -
  let ?p = "MakeRecord b (rb + i * fc) (min fc (n - i * fc)) fl c seq (word_of_nat i) k r"
  obtain packet tr1 where s: "SendBatch now 0 [?p] tr = (packet, tr1)" by fastforce
  have f: "fits conn [?p]" using assms(3,4) by (auto simp: fits_def si_kMaxKeys_def ZDTRecordSize_def min_def)
  have "good tr1" "zt_rx tr1 = zt_rx tr"
    using good_send [OF assms(1) f, of 0 now] SendBatch_frame(3) [of now 0 "[?p]" tr] s by simp_all
  then show ?thesis
    using good_track f assms(2) s by (cases r) (simp_all add: send_fragment_def Let_def)
qed

lemma good_send_fragments:
  assumes "good tr" and "r \<longrightarrow> seq + 1 = rel_send (rx_channels (zt_rx tr) c)"
    and "kZDTHeaderReserve + kZDTFragRecordHeaderSize + fc \<le> conn_budget conn" and "has_flag fl kRecFragment"
  shows "good (foldl (send_fragment now b rb n fc fl c seq k r) tr is)"
  using assms by (induction "is" arbitrary: tr) (simp_all add: good_send_fragment)

lemma good_pack_message:
  assumes "flush_good (batch, bytes, tr)" and "\<not> window_refuses ch q tr"
  shows "flush_good (pack_message now (conn_budget conn) q ch (batch, bytes, tr))"
proof -
  let ?r = "GetOr_reliable (qo_options q)" and ?u = "GetOr_ordered (qo_options q)"
  define fl where "fl = (if ?r then kRecReliable else 0) OR (if ?u then kRecOrdered else 0)"
  have fl: "\<not> has_flag fl kRecFragment" "has_flag (fl OR kRecFragment) kRecFragment"
    by (simp_all add: fl_def del: if_split)
  let ?n = "readable_bytes (qo_payload q)" and ?rb = "buf_read_cursor (qo_payload q)"
  obtain seq tr1 where s: "take_send_seq ?r ch tr = (seq, tr1)" by fastforce
  have g: "good tr" using assms(1) by simp
  have "base conn tr1"
    using base_cong [OF goodD(1) [OF g]] take_send_seq_frame(2,3) [of ?r ch tr, unfolded s snd_conv] by blast
  then have g1: "good tr1" using I_seq [OF goodD [OF g] assms(2)] s by (simp add: good_def)
  have seq: "?r \<longrightarrow> seq + 1 = rel_send (rx_channels (zt_rx tr1) ch)"
    using s by (auto simp: take_send_seq_def Let_def)
  obtain batch2 bytes2 tr2 where fb: "flush_batch now (batch, bytes, tr1) = (batch2, bytes2, tr2)"
    by (metis prod_cases3)
  have fg: "flush_good (batch2, bytes2, tr2)" "batch2 = []"
    using good_flush_batch [of "(batch, bytes, tr1)" now] fb assms(1) g1 by simp_all
  have rx2: "zt_rx tr2 = zt_rx tr1" by (rule flush_batch_frame(1) [OF fb])
  have budget: "kZDTHeaderReserve + kZDTFragRecordHeaderSize + 1 \<le> conn_budget conn" by (simp add: conn_budget_def)
  show ?thesis
  proof (cases "?n \<le> conn_budget conn - kZDTHeaderReserve - kZDTRecordHeaderSize")
    case True
    let ?p = "MakeRecord (qo_payload q) ?rb ?n fl ch seq 0 1 ?r"
    let ?full = "bytes + ZDTRecordSize False ?n > conn_budget conn \<or> length batch \<ge> si_kMaxKeys"
    have n: "kZDTHeaderReserve + ZDTRecordSize False ?n \<le> conn_budget conn"
      using True budget by (simp add: ZDTRecordSize_def zdt_sizes)
    then have f: "fits conn [?p]" using fl(1) by (simp add: fits_def si_kMaxKeys_def)
    obtain b3 y3 tr3 where st: "(if ?full then (batch2, bytes2, tr2) else (batch, bytes, tr1)) = (b3, y3, tr3)"
      by (metis prod_cases3)
    have 3: "flush_good (b3, y3, tr3)" "zt_rx tr3 = zt_rx tr1" "fits conn (b3 @ [?p])"
      using st fg rx2 assms(1) g1 f n fl(1) by (auto simp: fits_def split: if_splits)
    have "good (if ?r then TrackReliable ?p ?rb now TransmissionLog_empty tr3 else tr3)"
      using 3(1,2) seq f good_track [of tr3 seq ch "qo_payload q" ?rb ?n fl 0 1] by (cases ?r) simp_all
    moreover have "pack_message now (conn_budget conn) q ch (batch, bytes, tr) =
       (b3 @ [?p], y3 + ZDTRecordSize False ?n, if ?r then TrackReliable ?p ?rb now TransmissionLog_empty tr3 else tr3)"
      using True s fb st by (auto simp: pack_message_def Let_def simp flip: fl_def split: if_splits)
    ultimately show ?thesis using 3 fl(1) by simp
  next
    case False
    let ?fc = "conn_budget conn - kZDTHeaderReserve - kZDTFragRecordHeaderSize"
    have "good (foldl (send_fragment now (qo_payload q) ?rb ?n ?fc (fl OR kRecFragment) ch seq k ?r) tr2 xs)" for k xs
      using fg(1) seq rx2 budget fl(2) by (intro good_send_fragments) simp_all
    then show ?thesis using False s fb fg by (auto simp: pack_message_def Let_def simp flip: fl_def)
  qed
qed

lemma good_lane_turn:
  assumes "flush_good (snd st)" and "i < length (zt_staged (snd (snd (snd st))))"
  shows "flush_good (snd (lane_turn now (conn_budget conn) i st))"
proof -
  obtain any batch bytes tr where st: "st = (any, batch, bytes, tr)" by (metis prod_cases4)
  let ?lane = "zt_staged tr ! i"
  show ?thesis
  proof (cases "lane_messages ?lane")
    case Nil
    then show ?thesis using assms st by (simp add: lane_turn_def Let_def)
  next
    case (Cons q rest)
    let ?tr = "tr\<lparr>zt_staged := (zt_staged tr)[i := ?lane\<lparr>lane_messages := rest\<rparr>], zt_staged_count := zt_staged_count tr - 1\<rparr>"
    have w: "window_refuses (lane_channel ?lane) q ?tr \<longleftrightarrow> window_refuses (lane_channel ?lane) q tr"
      by (simp add: window_refuses_def SendWindow_def SendWindowCap_def split: option.split)
    have "good ?tr" using assms st I_pop Cons by (auto simp: good_def elim: base_cong)
    then have "flush_good (batch, bytes, ?tr)" using assms(1) st by simp
    then show ?thesis
      using Cons st assms good_pack_message [of batch bytes ?tr "lane_channel ?lane" q now] w
      by (auto simp: lane_turn_def Let_def)
  qed
qed

lemma good_lane_turns:
  assumes "flush_good (snd st)" and "\<forall>i \<in> set is. i < length (zt_staged (snd (snd (snd st))))"
  shows "flush_good (snd (foldl (\<lambda>st i. lane_turn now (conn_budget conn) i st) st is))"
  using assms by (induction "is" arbitrary: st) (simp_all add: good_lane_turn lane_turn_lanes)

lemma good_flush_cycle:
  assumes "flush_good st"
  shows "flush_good (snd (flush_cycle now (conn_budget conn) st))"
proof -
  obtain batch bytes tr where st: "st = (batch, bytes, tr)" by (metis prod_cases3)
  let ?is = "map (\<lambda>step. (zt_staged_cursor tr + step) mod length (zt_staged tr)) [0..<length (zt_staged tr)]"
  have "flush_cycle now (conn_budget conn) st = foldl (\<lambda>st i. lane_turn now (conn_budget conn) i st) (False, st) ?is"
    by (simp add: st flush_cycle_def foldl_map Let_def)
  moreover have "\<forall>i \<in> set ?is. i < length (zt_staged (snd (snd (snd (False, st)))))" by (auto simp: st intro!: mod_less_divisor)
  moreover have "flush_good (snd (False, st))" using assms by simp
  ultimately show ?thesis using good_lane_turns by (simp only:)
qed

lemma good_StageOutbound: "good tr \<Longrightarrow> good (snd (StageOutbound tr))"
  using I_stage by (auto simp: good_def StageOutbound_def Let_def split_beta elim: base_cong)

lemma good_flush_cycles:
  assumes "flush_good st" and "flush_cycles fuel now (conn_budget conn) st = Some st'"
  shows "flush_good st'"
  using assms
proof (induction fuel arbitrary: st)
  case (Suc fuel)
  obtain batch bytes tr where st: "st = (batch, bytes, tr)" by (metis prod_cases3)
  obtain count tr1 where s: "(if zt_staged_count tr = 0 then StageOutbound tr else (1, tr)) = (count, tr1)" by fastforce
  have "good tr1" using s st Suc.prems(1) good_StageOutbound [of tr] by (auto split: if_splits)
  then have g: "flush_good (batch, bytes, tr1)" using st Suc.prems(1) by simp
  obtain any batch2 bytes2 tr2 where c: "flush_cycle now (conn_budget conn) (batch, bytes, tr1) = (any, batch2, bytes2, tr2)"
    by (metis prod_cases4)
  have g2: "flush_good (batch2, bytes2, tr2)" using good_flush_cycle [OF g, of now] c by simp
  then have "flush_good (batch2, bytes2, tr2\<lparr>zt_staged_cursor := (zt_staged_cursor tr2 + 1) mod length (zt_staged tr2)\<rparr>)"
    using good_cursor by simp
  note ih = Suc.IH [OF this]
  show ?case
    using Suc.prems(2) ih g g2 unfolding st flush_cycles.simps s Let_def split_conv c
    by (cases "count = 0"; cases any) auto
qed simp

lemma good_FlushOutbound:
  assumes "good tr"
  shows "good (FlushOutbound now tr)"
proof -
  have m: "flush_mtu tr = conn_budget conn" using flush_mtu_eq baseD(1,3) goodD(1) [OF assms] by metis
  let ?tr = "if zt_staged_count tr < outbound_queue_capacity (zt_config tr) then snd (StageOutbound tr) else tr"
  have g: "good ?tr" using assms good_StageOutbound by simp
  then have fg: "flush_good ([], kZDTHeaderReserve, ?tr)" by simp
  have "good (snd (snd (flush_batch now st)))"
    if "flush_cycles (flush_fuel ?tr) now (conn_budget conn) ([], kZDTHeaderReserve, ?tr) = Some st" for st
    using good_flush_batch(1) [OF good_flush_cycles [OF fg that], of now] by (cases "flush_batch now st") auto
  then show ?thesis using g m by (auto simp: FlushOutbound_def Let_def split: option.split)
qed

lemma good_Flush: "good tr \<Longrightarrow> good (Flush now tr)"
  by (simp add: Flush_def Let_def good_FlushOutbound good_control_msg)

end

section \<open>The tick and every sequence of calls\<close>

datatype transport_call =
    CallSend Buffer SendOptions
  | CallReceive
  | CallOnDatagram TimePoint bytes
  | CallUpdate TimePoint "bytes list"
  | CallFlush TimePoint
  | CallClose
  | CallMigratePeer "InetAddress option"
  | CallMigrateSocket "nat option"

fun transport_step :: "ZDTTransport \<Rightarrow> transport_call \<Rightarrow> ZDTTransport" where
  "transport_step tr (CallSend b options) = snd (Send b options tr)"
| "transport_step tr CallReceive = snd (Receive tr)"
| "transport_step tr (CallOnDatagram now d) = OnDatagram now d tr"
| "transport_step tr (CallUpdate now arrivals) = Update now arrivals tr"
| "transport_step tr (CallFlush now) = Flush now tr"
| "transport_step tr CallClose = snd (Close tr)"
| "transport_step tr (CallMigratePeer p) = MigratePeer p tr"
| "transport_step tr (CallMigrateSocket s) = MigrateSocket s tr"

abbreviation run_transport :: "ZDTTransport \<Rightarrow> transport_call list \<Rightarrow> ZDTTransport" where
  "run_transport \<equiv> foldl transport_step"

context transport_invariant
begin

lemma good_inbound_fields: "good tr \<Longrightarrow> good (tr\<lparr>zt_inbox := ib\<rparr>)" "good tr \<Longrightarrow> good (tr\<lparr>zt_last_recv := t\<rparr>)"
  using I_inbound [where tr = tr and ib = ib and t = "zt_last_recv tr"] I_inbound [where tr = tr and ib = "zt_inbox tr" and t = t]
  by (auto simp: good_def elim: base_cong)

lemma good_path: "good tr \<Longrightarrow> good (tr\<lparr>zt_is_closed := cl, zt_net := (zt_net tr)\<lparr>net_socket := so, net_peer := pe,
    net_pending_peer := pp, net_pending_socket := ps, net_shut := sh\<rparr>\<rparr>)"
  using I_path by (auto simp: good_def elim: base_cong)

lemma good_path_fields:
  "good tr \<Longrightarrow> good (tr\<lparr>zt_is_closed := cl\<rparr>)"
  "good tr \<Longrightarrow> good (tr\<lparr>zt_net := (zt_net tr)\<lparr>net_shut := sh\<rparr>\<rparr>)"
  "good tr \<Longrightarrow> good (tr\<lparr>zt_net := (zt_net tr)\<lparr>net_pending_peer := pp\<rparr>\<rparr>)"
  "good tr \<Longrightarrow> good (tr\<lparr>zt_net := (zt_net tr)\<lparr>net_pending_socket := ps\<rparr>\<rparr>)"
proof -
  assume g: "good tr"
  let ?n = "zt_net tr"
  show "good (tr\<lparr>zt_is_closed := cl\<rparr>)"
    using good_path [OF g, where cl = cl and so = "net_socket ?n" and pe = "net_peer ?n"
        and pp = "net_pending_peer ?n" and ps = "net_pending_socket ?n" and sh = "net_shut ?n"]
    by simp
  show "good (tr\<lparr>zt_net := ?n\<lparr>net_shut := sh\<rparr>\<rparr>)"
    using good_path [OF g, where cl = "zt_is_closed tr" and so = "net_socket ?n" and pe = "net_peer ?n"
        and pp = "net_pending_peer ?n" and ps = "net_pending_socket ?n" and sh = sh]
    by simp
  show "good (tr\<lparr>zt_net := ?n\<lparr>net_pending_peer := pp\<rparr>\<rparr>)"
    using good_path [OF g, where cl = "zt_is_closed tr" and so = "net_socket ?n" and pe = "net_peer ?n"
        and pp = pp and ps = "net_pending_socket ?n" and sh = "net_shut ?n"]
    by simp
  show "good (tr\<lparr>zt_net := ?n\<lparr>net_pending_socket := ps\<rparr>\<rparr>)"
    using good_path [OF g, where cl = "zt_is_closed tr" and so = "net_socket ?n" and pe = "net_peer ?n"
        and pp = "net_pending_peer ?n" and ps = ps and sh = "net_shut ?n"]
    by simp
qed

lemma good_record: "good tr \<Longrightarrow> length d < 2 ^ 16 \<Longrightarrow>
    good (tr\<lparr>zt_needs_ack := True, zt_rx := snd (OnRecord (zt_config tr) now r d (zt_rx tr))\<rparr>)"
  using I_record by (auto simp: good_def elim: base_cong)

lemma good_process_records: "good tr \<Longrightarrow> good (snd (process_records fuel now b acc tr))"
proof (induction fuel arbitrary: b acc tr)
  case (Suc fuel)
  obtain ok r b1 where rd: "ReadZDTRecord ZDTRecord_init b = ((ok, r), b1)" by (metis prod.collapse)
  let ?d = "take (unat (rec_length r)) (read_cursor_data b1)"
  obtain acc' rx where o: "OnRecord (zt_config tr) now r ?d (zt_rx tr) = (acc', rx)" by fastforce
  have "length ?d < 2 ^ 16" using unat16_less [of "rec_length r"] by simp
  then have "good (tr\<lparr>zt_needs_ack := True, zt_rx := rx\<rparr>)" using good_record [OF Suc.prems, of ?d now r] o by simp
  then show ?case using Suc rd o by (auto simp: Let_def split: bool.split)
qed simp

lemma good_history: "good tr \<Longrightarrow> good (tr\<lparr>zt_ack_history := Record s (zt_ack_history tr)\<rparr>)"
  using I_history by (auto simp: good_def elim: base_cong)

lemma good_process_datagram:
  assumes "good tr"
  shows "good (snd (process_datagram now d tr))"
proof -
  obtain ok h b where rd: "ReadZDTHeader ZDTHeader_init (in_datagram d) = ((ok, h), b)" by (metis prod.collapse)
  let ?tr = "if hdr_packet_seq h \<noteq> 0 then ProcessAcks now h (in_arrival d) (tr\<lparr>zt_last_recv := in_arrival d\<rparr>)
             else tr\<lparr>zt_last_recv := in_arrival d\<rparr>"
  have "good ?tr" using good_inbound_fields(2) [OF assms] good_ProcessAcks by simp
  then obtain tr1 where t: "?tr = tr1" and g: "good tr1" by blast
  obtain acc tr2 where p: "process_records (readable_bytes b) now b True tr1 = (acc, tr2)" by fastforce
  have "good tr2" using good_process_records [OF g, of "readable_bytes b" now b True] p by simp
  moreover have "good (case net_socket (zt_net (tr1\<lparr>zt_is_closed := True\<rparr>)) of None \<Rightarrow> tr1\<lparr>zt_is_closed := True\<rparr>
      | Some sock \<Rightarrow> if net_drains_own_socket (zt_net (tr1\<lparr>zt_is_closed := True\<rparr>))
          then tr1\<lparr>zt_is_closed := True, zt_net := (zt_net (tr1\<lparr>zt_is_closed := True\<rparr>))
                 \<lparr>net_shut := net_shut (zt_net (tr1\<lparr>zt_is_closed := True\<rparr>)) @ [sock]\<rparr>\<rparr>
          else tr1\<lparr>zt_is_closed := True\<rparr>)"
    using good_path_fields(1) [OF g, of True] good_path_fields(2) [of "tr1\<lparr>zt_is_closed := True\<rparr>"]
    by (simp split: option.split)
  ultimately show ?thesis
    unfolding process_datagram_def rd prod.case Let_def t p
    using assms g by (cases ok) (simp_all add: good_history good_control_msg)
qed

lemma good_process_datagrams: "good tr \<Longrightarrow> good (process_datagrams now ds tr)"
proof (induction ds arbitrary: tr)
  case (Cons d ds)
  obtain stop tr1 where p: "process_datagram now d tr = (stop, tr1)" by fastforce
  have "good tr1" using good_process_datagram [OF Cons.prems, of now d] p by simp
  then show ?case using Cons.IH p by (simp split: bool.split)
qed simp

lemma good_ProcessInbound: "good tr \<Longrightarrow> good (ProcessInbound now tr)"
  by (simp add: ProcessInbound_def inbox_Drain_def good_process_datagrams good_inbound_fields)

lemma good_OnDatagram: "good tr \<Longrightarrow> good (OnDatagram now d tr)"
  by (simp add: OnDatagram_def good_inbound_fields)

lemma good_DrainSocket: "good tr \<Longrightarrow> good (DrainSocket now ds tr)"
  by (simp add: DrainSocket_def good_foldl good_OnDatagram)

lemma good_CheckTimers: "good tr \<Longrightarrow> good (CheckTimers now tr)"
  by (simp add: CheckTimers_def good_close good_control_msg)

lemma good_ApplyPendingMigration: "good tr \<Longrightarrow> good (ApplyPendingMigration tr)"
  using good_path [where tr = tr and cl = "zt_is_closed tr" and pp = None and ps = None and sh = "net_shut (zt_net tr)"
      and so = "case net_pending_socket (zt_net tr) of Some s \<Rightarrow> Some s | None \<Rightarrow> net_socket (zt_net tr)"
      and pe = "case net_pending_peer (zt_net tr) of Some p \<Rightarrow> Some p | None \<Rightarrow> net_peer (zt_net tr)"]
  by (simp add: ApplyPendingMigration_def Let_def)

lemma good_prune: "good tr \<Longrightarrow> good (PruneReassembly_tr now tr)"
  using I_prune by (auto simp: good_def PruneReassembly_tr_def elim: base_cong)

lemmas good_ticks = good_ApplyPendingMigration good_DrainSocket good_ProcessInbound good_RetransmitUnacked
  good_MaybeTailProbe good_CheckTimers good_Flush good_PruneSentPackets good_prune

lemma good_Update: "good tr \<Longrightarrow> good (Update now ds tr)"
  by (simp add: Update_def Let_def good_ticks)

lemma good_Receive: "good tr \<Longrightarrow> good (snd (Receive tr))"
  using I_ready by (auto simp: good_def Receive_def elim: base_cong split: list.split)

text \<open>Every call but \<open>Send\<close>; that one needs the law about the ring below.\<close>

lemma good_step_but_send: "good tr \<Longrightarrow> (\<And>b options. call \<noteq> CallSend b options) \<Longrightarrow> good (transport_step tr call)"
  by (cases call) (auto simp: good_Receive good_OnDatagram good_Update good_Flush good_close MigratePeer_def MigrateSocket_def
    good_path_fields split: option.split)

end

text \<open>An invariant that does not depend on the hand-off ring is kept by every call.\<close>

locale run_invariant = transport_invariant +
  assumes I_push: "base conn tr \<Longrightarrow> I tr \<Longrightarrow> I (tr\<lparr>zt_outbound := ob\<rparr>)"
begin

lemma good_push: "good tr \<Longrightarrow> good (tr\<lparr>zt_outbound := ob\<rparr>)"
  using I_push by (auto simp: good_def elim: base_cong)

lemma good_step: "good tr \<Longrightarrow> good (transport_step tr call)"
proof (cases call)
  case (CallSend b options)
  assume "good tr"
  then show ?thesis
    using CallSend good_push by (auto simp: Send_def split: prod.split PushResult.split)
qed (rule good_step_but_send; simp)+

lemma good_run: "good tr \<Longrightarrow> good (run_transport tr calls)"
  by (rule good_foldl) (simp_all add: good_step)

end

end
