(* ===== verification/Zdt_Datagram.thy ===== *)
theory Zdt_Datagram
  imports Zdt_Invariant
begin

text \<open>
  The bytes of a datagram. \<open>enc_datagram\<close> is what \<open>SendBatch\<close> puts on the wire: the relay
  header of a relayed connection, the header with the acknowledgments, and the records with
  their payloads. The receiver's loop takes the same records and payloads out of it again,
  and no datagram is larger than what the handshake settled.
\<close>

section \<open>Writing\<close>

definition pending_payload :: "PendingRecord \<Rightarrow> bytes" where
  "pending_payload p = (case pr_payload p of None \<Rightarrow> [] | Some bs \<Rightarrow> take (pr_payload_len p) bs)"

definition enc_pending :: "PendingRecord \<Rightarrow> bytes" where
  "enc_pending p = enc_record BigEndian (pr_record p) @ pending_payload p"

definition relay_prefix :: "ZDTConnection \<Rightarrow> bytes" where
  "relay_prefix conn = (if conn_relay_channel conn = 0 then []
     else [kZDTRelayMarker, ucast (drop_bit 16 (conn_relay_channel conn) AND 0xFF),
           ucast (drop_bit 8 (conn_relay_channel conn) AND 0xFF), ucast (conn_relay_channel conn AND 0xFF)])"

definition enc_datagram :: "ZDTConnection \<Rightarrow> ZDTHeader \<Rightarrow> PendingRecord list \<Rightarrow> bytes" where
  "enc_datagram conn h batch = relay_prefix conn @ enc_header BigEndian h @ concat (map enc_pending batch)"

definition scratch_ok :: "Buffer \<Rightarrow> bool" where
  "scratch_ok b \<longleftrightarrow> buf_wf b \<and> buf_endianness b = BigEndian \<and> buf_read_limit b = size_max"

lemma emits_write_pending: "emits BigEndian (\<lambda>b. write_pending b p) (enc_pending p)"
proof -
  have "emits BigEndian (\<lambda>b. case pr_payload p of None \<Rightarrow> b
      | Some bs \<Rightarrow> if pr_payload_len p > 0 then Write default_new (take (pr_payload_len p) bs) b else b) (pending_payload p)"
    by (cases "pr_payload p"; cases "pr_payload_len p = 0") (simp_all add: pending_payload_def emits_id heap.emits_Write)
  from emits_comp [OF emits_WriteZDTRecord this]
  have "emits BigEndian (\<lambda>b. case pr_payload p of None \<Rightarrow> WriteZDTRecord (pr_record p) b
      | Some bs \<Rightarrow> if pr_payload_len p > 0 then Write default_new (take (pr_payload_len p) bs) (WriteZDTRecord (pr_record p) b)
          else WriteZDTRecord (pr_record p) b) (enc_pending p)" by (simp add: enc_pending_def)
  then show ?thesis by (simp add: write_pending_def Let_def)
qed

lemma emits_BeginDatagram: "emits BigEndian (BeginDatagram tr) (relay_prefix (zt_connection tr))"
  unfolding BeginDatagram_def [abs_def] relay_prefix_def
  using emits_WriteRelayHeader [of BigEndian "conn_relay_channel (zt_connection tr)"] by (auto simp: emits_id)

lemma room_reset: "scratch_ok b \<Longrightarrow> n < 2 ^ 61 \<Longrightarrow> room (Buffer_Reset False b) n"
  by (auto simp: scratch_ok_def room_def stream_ok_def buf_wf_def Buffer_Reset_def Let_def readable_bytes_def
      split: option.splits)

lemma contents_reset: "contents (Buffer_Reset False b) = []"
  by (simp add: contents_def Buffer_Reset_def Let_def readable_bytes_def)

lemma buf_bytes_contents:
  assumes "stream_ok b" and "buf_read_cursor b = 0" and "buf_read_limit b = size_max"
  shows "buf_bytes b = contents b"
proof -
  have "buf_write_cursor b \<le> size_max" using assms(1) by (simp add: stream_ok_def size_max_def)
  then show ?thesis
    using assms by (auto simp: buf_bytes_def contents_def readable_bytes_eq read_cursor_data_def stream_ok_def
        split: option.split)
qed

lemma emitted_scratch:
  assumes "emits BigEndian g bs" and "scratch_ok b" and "length bs < 2 ^ 61"
  shows "buf_bytes (g (Buffer_Reset False b)) = bs" and "scratch_ok (g (Buffer_Reset False b))"
proof -
  have "buf_endianness (Buffer_Reset False b) = BigEndian" "buf_read_limit (Buffer_Reset False b) = size_max"
    "buf_read_cursor (Buffer_Reset False b) = 0"
    using assms(2) by (simp_all add: scratch_ok_def Buffer_Reset_def Let_def)
  moreover from this have "appended (Buffer_Reset False b) (g (Buffer_Reset False b)) bs"
    using emitsD [OF assms(1)] room_reset [OF assms(2,3)] by blast
  ultimately show "buf_bytes (g (Buffer_Reset False b)) = bs" and "scratch_ok (g (Buffer_Reset False b))"
    using buf_bytes_contents [of "g (Buffer_Reset False b)"] contents_reset [of b]
    by (auto simp: appended_def scratch_ok_def stream_ok_def)
qed

lemma emits_datagram:
  assumes "header_ok h"
  shows "emits BigEndian (\<lambda>b. foldl write_pending (WriteZDTHeader h (BeginDatagram tr b)) batch)
    (enc_datagram (zt_connection tr) h batch)"
proof -
  have "emits BigEndian (\<lambda>b. foldl write_pending b batch) (concat (map enc_pending batch))"
    using emits_foldl [where f = "\<lambda>p b. write_pending b p"] emits_write_pending by blast
  from emits_comp [OF emits_comp [OF emits_BeginDatagram emits_WriteZDTHeader [OF assms]] this]
  show ?thesis by (simp add: enc_datagram_def)
qed

lemma batch_datagram_bytes:
  assumes "header_ok h" and "scratch_ok (zt_send_scratch tr)" and "length (enc_datagram (zt_connection tr) h batch) < 2 ^ 61"
  shows "buf_bytes (batch_datagram h batch tr) = enc_datagram (zt_connection tr) h batch"
    and "scratch_ok (batch_datagram h batch tr)"
  using emitted_scratch [OF emits_datagram [OF assms(1)] assms(2,3)] by (simp_all add: batch_datagram_def)

section \<open>Size\<close>

lemma fill_blocks_fields:
  "hdr_flags (fill_blocks bits limit mx b h) = hdr_flags h \<and> hdr_cid (fill_blocks bits limit mx b h) = hdr_cid h
    \<and> hdr_packet_seq (fill_blocks bits limit mx b h) = hdr_packet_seq h"
proof (induction bits limit mx b h rule: fill_blocks.induct)
  case (1 bits limit mx b h)
  then show ?case by (subst (1 2 3) fill_blocks.simps) (simp add: Let_def)
qed

lemma trim_blocks_fields:
  "hdr_flags (trim_blocks h) = hdr_flags h \<and> hdr_cid (trim_blocks h) = hdr_cid h
    \<and> hdr_packet_seq (trim_blocks h) = hdr_packet_seq h"
proof (induction h rule: trim_blocks.induct)
  case (1 h)
  then show ?case by (subst (1 2 3) trim_blocks.simps) simp
qed

lemma Fill_fields [simp]:
  "hdr_flags (Fill h mx cap ah) = hdr_flags h" "hdr_cid (Fill h mx cap ah) = hdr_cid h"
  "hdr_packet_seq (Fill h mx cap ah) = hdr_packet_seq h"
  by (simp_all add: Fill_def Let_def fill_blocks_fields trim_blocks_fields)

lemma Fill_room:
  assumes "length (hdr_blocks h) = kZDTMaxAckBlocks"
  shows "length (hdr_blocks (Fill h mx cap ah)) = kZDTMaxAckBlocks
    \<and> unat (hdr_block_count (Fill h mx cap ah)) \<le> min mx kZDTMaxAckBlocks"
proof (cases "\<not> ah_has_any ah \<or> mx = 0")
  case True
  then show ?thesis using assms by (simp add: Fill_def Let_def)
next
  case False
  let ?h0 = "h\<lparr>hdr_ack := ah_highest ah, hdr_block_count := 0\<rparr>"
  let ?m = "min mx kZDTMaxAckBlocks" and ?l = "min (ah_valid_bits ah) cap"
  have "block_room ?h0 ?m" "decode_header ?h0 = map (HistoryBit (ah_bits ah)) [0..<0]"
    using assms by (simp_all add: block_room_def decode_header_def sent_blocks_def)
  from fill_blocks_decode [OF this(1) _ this(2), of ?l]
  have "block_room (fill_blocks (ah_bits ah) ?l ?m 0 ?h0) ?m" by auto
  then have "block_room (trim_blocks (fill_blocks (ah_bits ah) ?l ?m 0 ?h0)) ?m" using trim_blocks_decode by blast
  moreover have "Fill h mx cap ah = trim_blocks (fill_blocks (ah_bits ah) ?l ?m 0 ?h0)"
    using False by (simp add: Fill_def Let_def)
  ultimately show ?thesis by (simp add: block_room_def)
qed

lemma batch_header_flags:
  assumes "control_flags fl"
  shows "has_flag (hdr_flags (batch_header fl batch tr)) kFlagOnline"
    and "has_flag (hdr_flags (batch_header fl batch tr)) kFlagHasCid \<longleftrightarrow> conn_migration_enabled (zt_connection tr)"
    and "has_flag (hdr_flags (batch_header fl batch tr)) kFlagFin = False"
    and "has_flag (hdr_flags (batch_header fl batch tr)) kFlagPing \<longleftrightarrow> fl = kFlagPing"
  using assms
  by (auto simp: batch_header_def Let_def control_flags_def has_flag_def kFlagOnline_def kFlagHasCid_def kFlagPing_def
      kFlagPong_def kFlagFin_def)

lemma batch_header_ok:
  assumes "control_flags fl"
  shows "header_ok (batch_header fl batch tr)"
proof -
  have "length (hdr_blocks (batch_header fl batch tr)) = kZDTMaxAckBlocks
      \<and> unat (hdr_block_count (batch_header fl batch tr)) \<le> kZDTMaxAckBlocks"
    unfolding batch_header_def Let_def
    using Fill_room by (auto simp: ZDTHeader_init_def)
  then show ?thesis using batch_header_flags(1) [OF assms] by (simp add: header_ok_def)
qed

lemma length_enc_pending:
  "length (enc_pending p) \<le> ZDTRecordSize (has_flag (rec_flags (pr_record p)) kRecFragment) (pr_payload_len p)"
  by (auto simp: enc_pending_def length_enc_record ZDTRecordSize_def pending_payload_def split: option.split)

lemma length_enc_batch: "length (concat (map enc_pending batch)) \<le> record_bytes batch"
proof (induction batch)
  case (Cons p batch)
  then show ?case using length_enc_pending [of p] by simp
qed simp

definition relay_overhead :: "ZDTConnection \<Rightarrow> nat" where
  "relay_overhead conn = (if conn_relay_channel conn = 0 then 0 else kZDTRelayHeaderSize)"

lemma length_relay_prefix: "length (relay_prefix conn) = relay_overhead conn"
  by (simp add: relay_prefix_def relay_overhead_def kZDTRelayHeaderSize_def)

lemma batch_header_room:
  "unat (hdr_block_count (batch_header fl batch tr)) * kZDTAckBlockSize
     \<le> unat (DatagramMTU tr) - (kZDTHeaderSize + (if conn_migration_enabled (zt_connection tr) then kZDTCidSize else 0)
          + record_bytes batch)"
proof -
  let ?u = "kZDTHeaderSize + (if conn_migration_enabled (zt_connection tr) then kZDTCidSize else 0) + record_bytes batch"
  have "unat (hdr_block_count (batch_header fl batch tr))
      \<le> (if unat (DatagramMTU tr) > ?u then (unat (DatagramMTU tr) - ?u) div kZDTAckBlockSize else 0)"
    unfolding batch_header_def Let_def by (rule order_trans [OF conjunct2 [OF Fill_room]]) (auto simp: ZDTHeader_init_def)
  then show ?thesis by (auto simp: kZDTAckBlockSize_def split: if_splits)
qed

lemma length_datagram:
  assumes "control_flags fl" and "fits (zt_connection tr) batch" and "conn_mtu (zt_connection tr) \<noteq> 0"
  shows "length (enc_datagram (zt_connection tr) (batch_header fl batch tr) batch)
    \<le> relay_overhead (zt_connection tr) + conn_budget (zt_connection tr)"
proof -
  have "unat (DatagramMTU tr) \<le> conn_budget (zt_connection tr)"
    using DatagramMTU_eq [OF assms(3)] by (simp add: conn_budget_def)
  moreover have "kZDTHeaderSize + kZDTCidSize \<le> kZDTHeaderReserve" by (simp add: zdt_sizes)
  ultimately show ?thesis
    using batch_header_room [of fl batch tr] length_enc_batch [of batch] assms(2)
    by (auto simp: enc_datagram_def length_relay_prefix length_enc_header batch_header_ok [OF assms(1)]
        batch_header_flags(2) [OF assms(1)] fits_def split: if_splits)
qed

lemma conn_budget_less: "conn_budget conn < 2 ^ 17"
  using unat16_less [of "conn_mtu conn"] by (auto simp: conn_budget_def conn_mtu_left_def Let_def zdt_sizes intro: le_less_trans [OF diff_le_self])

lemma SendBatch_wire:
  assumes "control_flags fl" and "fits (zt_connection tr) batch" and "conn_mtu (zt_connection tr) \<noteq> 0"
    and "scratch_ok (zt_send_scratch tr)" and "net_socket (zt_net tr) = Some sock" and "net_peer (zt_net tr) = Some peer"
  shows "net_wire (zt_net (snd (SendBatch now fl batch tr))) =
      net_wire (zt_net tr) @ [(sock, peer, enc_datagram (zt_connection tr) (batch_header fl batch tr) batch)]"
    and "scratch_ok (zt_send_scratch (snd (SendBatch now fl batch tr)))"
proof -
  have "length (enc_datagram (zt_connection tr) (batch_header fl batch tr) batch) < 2 ^ 61"
    using length_datagram [OF assms(1-3)] conn_budget_less [of "zt_connection tr"]
    by (auto simp: relay_overhead_def kZDTRelayHeaderSize_def split: if_splits)
  note w = batch_datagram_bytes [OF batch_header_ok [OF assms(1)] assms(4) this]
  show "net_wire (zt_net (snd (SendBatch now fl batch tr))) =
      net_wire (zt_net tr) @ [(sock, peer, enc_datagram (zt_connection tr) (batch_header fl batch tr) batch)]"
    "scratch_ok (zt_send_scratch (snd (SendBatch now fl batch tr)))"
    using w assms(5,6) by (simp_all add: SendBatch_def Let_def SendTo_def)
qed

lemma SendBatch_no_path:
  "net_socket (zt_net tr) = None \<or> net_peer (zt_net tr) = None \<Longrightarrow> snd (SendBatch now fl batch tr) = tr"
  by (auto simp: SendBatch_def split: option.split)

lemma SendBatch_net:
  "net_socket (zt_net (snd (SendBatch now fl batch tr))) = net_socket (zt_net tr)"
  "net_peer (zt_net (snd (SendBatch now fl batch tr))) = net_peer (zt_net tr)"
  by (simp_all add: SendBatch_def Let_def SendTo_def split: option.split)

section \<open>Reading\<close>

text \<open>What the receiver's loop over the records makes of a batch.\<close>

definition take_records :: "ZDTOptions \<Rightarrow> TimePoint \<Rightarrow> PendingRecord list \<Rightarrow> bool \<times> ZDTReceiver \<Rightarrow> bool \<times> ZDTReceiver" where
  "take_records config now batch st = foldl (\<lambda>(ok, rx) p.
     let (a, rx) = OnRecord config now (record_on_wire (pr_record p)) (pending_payload p) rx in (ok \<and> a, rx)) st batch"

text \<open>A record that carries its whole payload.\<close>

definition carries :: "PendingRecord \<Rightarrow> bool" where
  "carries p \<longleftrightarrow> length (pending_payload p) = unat (rec_length (pr_record p))"

lemma process_records_batch:
  assumes "buf_endianness b = BigEndian" and "stream_ok b" and "contents b = concat (map enc_pending batch)"
    and "list_all carries batch" and "length batch \<le> fuel" and "\<not> zt_is_closed tr"
  shows "process_records fuel now b acc tr =
     (let (ok, rx) = take_records (zt_config tr) now batch (acc, zt_rx tr)
      in (ok, tr\<lparr>zt_needs_ack := (zt_needs_ack tr \<or> batch \<noteq> []), zt_rx := rx\<rparr>))"
  using assms
proof (induction batch arbitrary: fuel b acc tr)
  case Nil
  then have "readable_bytes b = 0" using length_contents by fastforce
  then show ?case by (cases fuel) (simp_all add: take_records_def)
next
  case (Cons p batch)
  obtain f where f: "fuel = Suc f" using Cons.prems(5) by (cases fuel) simp_all
  let ?rest = "concat (map enc_pending batch)"
  have c: "contents b = enc_record BigEndian (pr_record p) @ (pending_payload p @ ?rest)"
    using Cons.prems(3) by (simp add: enc_pending_def [of p])
  have ln: "length (pending_payload p) = unat (rec_length (pr_record p))" using Cons.prems(4) by (simp add: carries_def)
  obtain b1 where b1: "ReadZDTRecord ZDTRecord_init b = ((True, record_on_wire (pr_record p)), b1)"
      "buf_endianness b1 = BigEndian" "stream_ok b1" "contents b1 = pending_payload p @ ?rest"
    by (rule parses_whenE [OF parses_ReadZDTRecord [where t = True] Cons.prems(1,2) c, of ZDTRecord_init])
      (simp_all add: ln)
  have rl: "rec_length (record_on_wire (pr_record p)) = rec_length (pr_record p)" by (simp add: record_on_wire_def)
  have "consumed b1 (SkipRead (length (pending_payload p)) b1) (length (pending_payload p))"
    using b1 by (intro consumed_SkipRead) simp_all
  then have sk: "buf_endianness (SkipRead (length (pending_payload p)) b1) = BigEndian"
      "stream_ok (SkipRead (length (pending_payload p)) b1)" "contents (SkipRead (length (pending_payload p)) b1) = ?rest"
    using b1 by (simp_all add: consumed_def)
  have tk: "take (length (pending_payload p)) (read_cursor_data b1) = pending_payload p"
    using b1 by (simp add: take_contents)
  have "0 < length (contents b)" using c length_enc_record [of BigEndian "pr_record p"]
    by (simp add: ZDTRecordSize_def zdt_sizes)
  then have rb: "readable_bytes b \<noteq> 0" using length_contents [OF Cons.prems(2)] by simp
  obtain a rx where r: "OnRecord (zt_config tr) now (record_on_wire (pr_record p)) (pending_payload p) (zt_rx tr) = (a, rx)"
    by fastforce
  have "process_records fuel now b acc tr = process_records f now (SkipRead (length (pending_payload p)) b1) (acc \<and> a)
      (tr\<lparr>zt_needs_ack := True, zt_rx := rx\<rparr>)"
    using f b1(1) rb tk r Cons.prems(6) by (simp add: rl flip: ln)
  also have "\<dots> = (let (ok, rx) = take_records (zt_config tr) now batch (acc \<and> a, rx)
      in (ok, tr\<lparr>zt_needs_ack := True, zt_rx := rx\<rparr>))"
    using Cons.IH [OF sk _ _ , of f "tr\<lparr>zt_needs_ack := True, zt_rx := rx\<rparr>" "acc \<and> a"] Cons.prems f
    by (simp add: Let_def split_beta)
  finally show ?case using r by (simp add: take_records_def)
qed

lemma Buffer_of_stream:
  assumes "length bs < 2 ^ 61"
  shows "stream_ok (Buffer_of default_new bs e)" "contents (Buffer_of default_new bs e) = bs"
    "buf_endianness (Buffer_of default_new bs e) = e"
  using assms
  by (simp_all add: Buffer_of_def default_new_def stream_ok_def buf_wf_def contents_def readable_bytes_eq
      read_cursor_data_def overlay_def size_max_def)

text \<open>What the acknowledgments of a datagram leave alone.\<close>

definition receive_view :: "ZDTTransport \<Rightarrow> ZDTReceiver \<times> ZDTOptions \<times> bool \<times> ZDTAckHistory" where
  "receive_view tr = (zt_rx tr, zt_config tr, zt_is_closed tr, zt_ack_history tr)"

lemma view_foldl: "(\<And>tr x. receive_view (f tr x) = receive_view tr) \<Longrightarrow> receive_view (foldl f tr xs) = receive_view tr"
  by (induction xs arbitrary: tr) simp_all

lemma view_RetireSentPacket [simp]: "receive_view (RetireSentPacket s tr) = receive_view tr"
  by (simp add: receive_view_def)

lemma view_OnNak [simp]: "receive_view (OnNak s tr) = receive_view tr"
proof -
  have "receive_view (nak_key tr key) = receive_view tr" for tr key
    by (simp add: nak_key_def receive_view_def split: option.split)
  then show ?thesis by (simp add: OnNak_def view_foldl split: option.split)
qed

lemma view_AckPacket [simp]: "receive_view (snd (AckPacket s t tr)) = receive_view tr"
proof -
  have upd: "receive_view (tr\<lparr>zt_rtt := r\<rparr>) = receive_view tr" "receive_view (tr\<lparr>zt_congestion := cc\<rparr>) = receive_view tr"
      "receive_view (tr\<lparr>zt_unacked := u\<rparr>) = receive_view tr" for tr r cc u
    by (simp_all add: receive_view_def)
  have "receive_view (ack_key s tr key) = receive_view tr" for s tr key
    by (simp add: ack_key_def Let_def view_foldl upd split: option.split)
  then show ?thesis by (simp add: AckPacket_def Let_def view_foldl upd split: option.split)
qed

lemma view_ack_run: "receive_view (snd (snd (ack_run n ack t st))) = receive_view (snd (snd st))"
  by (induction n arbitrary: st) (simp_all add: split_beta)

lemma view_nak_run: "receive_view (snd (snd (nak_run n ack st))) = receive_view (snd (snd st))"
  by (induction n arbitrary: st) (simp_all add: split_beta)

lemma view_ack_blocks: "receive_view (snd (snd (ack_blocks bs ack t st))) = receive_view (snd (snd st))"
  by (induction bs arbitrary: st) (simp_all add: view_ack_run view_nak_run)

lemma view_ProcessAcks: "receive_view (ProcessAcks now header t tr) = receive_view tr"
proof -
  obtain newly offset tr' where b: "ack_blocks (take (unat (hdr_block_count header)) (hdr_blocks header))
      (hdr_ack header) t (0, 0, tr\<lparr>zt_congestion := OnAckArrived (hdr_ack header) (zt_congestion tr)\<rparr>) = (newly, offset, tr')"
    by (metis prod_cases3)
  moreover have "receive_view (tr\<lparr>zt_congestion := cc\<rparr>) = receive_view tr" for cc by (simp add: receive_view_def)
  ultimately have "receive_view tr' = receive_view tr"
    using view_ack_blocks [of _ "hdr_ack header" t "(0, 0, _)"] by (metis snd_conv)
  then show ?thesis using b by (simp add: ProcessAcks_def Let_def receive_view_def RearmTailProbe_def)
qed

lemma process_datagram_batch:
  assumes "header_ok h" and "\<not> has_flag (hdr_flags h) kFlagFin" and "\<not> has_flag (hdr_flags h) kFlagPing"
    and "list_all carries batch" and "\<not> zt_is_closed tr" and "length (enc_header BigEndian h @ concat (map enc_pending batch)) < 2 ^ 61"
    and "take_records (zt_config tr) now batch (True, zt_rx tr) = (ok, rx)"
  shows "\<exists>tr'. process_datagram now \<lparr>in_datagram = Buffer_of default_new (enc_header BigEndian h @ concat (map enc_pending batch)) BigEndian,
      in_arrival = t\<rparr> tr = (False, tr') \<and> zt_rx tr' = rx
      \<and> zt_ack_history tr' = (if hdr_packet_seq h \<noteq> 0 \<and> ok then Record (hdr_packet_seq h) (zt_ack_history tr) else zt_ack_history tr)"
proof -
  let ?bs = "concat (map enc_pending batch)" and ?h = "header_on_wire h"
  note b = Buffer_of_stream [OF assms(6), of BigEndian]
  obtain b1 where b1: "ReadZDTHeader ZDTHeader_init (Buffer_of default_new (enc_header BigEndian h @ ?bs) BigEndian) = ((True, ?h), b1)"
      "buf_endianness b1 = BigEndian" "stream_ok b1" "contents b1 = ?bs"
    by (rule parsesE [OF parses_ReadZDTHeader [OF assms(1)] b(3,1,2)])
  have h: "hdr_packet_seq ?h = hdr_packet_seq h" "hdr_flags ?h = hdr_flags h" by (simp_all add: header_on_wire_def)
  define tr1 where "tr1 = (if hdr_packet_seq h \<noteq> 0 then ProcessAcks now ?h t (tr\<lparr>zt_last_recv := t\<rparr>) else tr\<lparr>zt_last_recv := t\<rparr>)"
  have "receive_view tr1 = receive_view tr"
    using view_ProcessAcks [of now ?h t "tr\<lparr>zt_last_recv := t\<rparr>"] by (auto simp: tr1_def receive_view_def)
  then have v: "zt_rx tr1 = zt_rx tr" "zt_config tr1 = zt_config tr" "\<not> zt_is_closed tr1"
      "zt_ack_history tr1 = zt_ack_history tr" using assms(5) by (auto simp: receive_view_def)
  have "length batch \<le> length ?bs"
  proof (induction batch)
    case (Cons p batch)
    have "0 < length (enc_pending p)" using length_enc_record [of BigEndian "pr_record p"]
      by (simp add: enc_pending_def ZDTRecordSize_def zdt_sizes)
    then show ?case using Cons by (simp del: length_greater_0_conv)
  qed simp
  then have "length batch \<le> readable_bytes b1" using b1(4) length_contents [OF b1(3)] by simp
  from process_records_batch [OF b1(2-4) assms(4) this v(3), of now True]
  have "process_records (readable_bytes b1) now b1 True tr1
      = (ok, tr1\<lparr>zt_needs_ack := (zt_needs_ack tr1 \<or> batch \<noteq> []), zt_rx := rx\<rparr>)" using assms(7) v by simp
  moreover have "process_datagram now \<lparr>in_datagram = Buffer_of default_new (enc_header BigEndian h @ ?bs) BigEndian, in_arrival = t\<rparr> tr
      = (let (accepted_all, tr) = process_records (readable_bytes b1) now b1 True tr1
         in (False, if hdr_packet_seq h \<noteq> 0 \<and> accepted_all
                    then tr\<lparr>zt_ack_history := Record (hdr_packet_seq h) (zt_ack_history tr)\<rparr> else tr))"
    using b1(1) assms(2,3) h by (simp add: process_datagram_def Let_def tr1_def split_beta)
  ultimately show ?thesis using v by simp
qed

section \<open>The bound on the receive loop\<close>

text \<open>A record that was read took at least its first byte, and its payload is there.\<close>

lemma safe_result: "safe_reader (\<lambda>b. ((P b, v), b))"
  by (rule safe_readerI) simp

lemma ReadZDTRecord_consumes:
  assumes "stream_ok b" and "ReadZDTRecord r b = ((True, r'), b')"
  shows "stream_ok b'" and "length (contents b') < length (contents b)" and "unat (rec_length r') \<le> length (contents b')"
proof -
  define g where "g flags = (\<lambda>b. let (channel, b) = ReadInt b; (seq, b) = ReadInt b;
      r = r\<lparr>rec_flags := flags, rec_channel := channel, rec_message_seq := seq\<rparr>
    in if has_flag flags kRecFragment \<and> readable_bytes b < 4 then ((False, r), b)
      else let (r, b) = (if has_flag flags kRecFragment
                         then (let (index, b) = ReadInt b; (count, b) = ReadInt b
                               in (r\<lparr>rec_frag_index := index, rec_frag_count := count\<rparr>, b))
                         else (r\<lparr>rec_frag_index := 0, rec_frag_count := 1\<rparr>, b));
               (len, b) = ReadInt b
      in ((readable_bytes b \<ge> unat (len :: u16), r\<lparr>rec_length := len\<rparr>), b))" for flags :: u8
  have safe: "safe_reader (g flags)" for flags
    unfolding g_def by (intro safe_bind safe_let safe_if safe_ret safe_result safe_ReadInt) simp_all
  have nonempty: "kZDTRecordHeaderSize \<le> length (contents b)" and rd: "ReadZDTRecord r b = (let (flags, b) = ReadInt b in g flags b)"
    using assms(2) by (auto simp: ReadZDTRecord_def g_def Let_def length_contents [OF assms(1)] split: if_splits)
  then obtain x rest where c: "contents b = enc_int (buf_endianness b) (x :: u8) @ rest"
    by (cases "contents b") (auto simp: zdt_sizes)
  obtain b1 where b1: "ReadInt b = (x, b1)" "stream_ok b1" "contents b1 = rest"
    by (rule parsesE [OF parses_ReadInt [where w = x] refl assms(1) c]) simp_all
  then have e: "g x b1 = ((True, r'), b')" using assms(2) rd by simp
  with safe_readerD [OF safe b1(2), of x] have s: "stream_ok b'" "suffix (contents b') rest" by (simp_all add: b1(3))
  then show "stream_ok b'" "length (contents b') < length (contents b)" using c suffix_length_le [OF s(2)] by simp_all
  have "fst (fst (g x b1)) \<Longrightarrow> unat (rec_length (snd (fst (g x b1)))) \<le> readable_bytes (snd (g x b1))"
    by (auto simp: g_def Let_def split_beta split: if_splits)
  then show "unat (rec_length r') \<le> length (contents b')" using e length_contents [OF s(1)] by simp
qed

lemma process_records_enough:
  assumes "stream_ok b" and "readable_bytes b \<le> fuel"
  shows "process_records fuel now b acc tr = process_records (readable_bytes b) now b acc tr"
  using assms
proof (induction "readable_bytes b" arbitrary: b fuel acc tr rule: less_induct)
  case less
  show ?case
  proof (cases "readable_bytes b")
    case 0
    then show ?thesis by (cases fuel) simp_all
  next
    case (Suc n)
    then obtain f where f: "fuel = Suc f" using less.prems(2) by (cases fuel) simp_all
    obtain ok r b1 where r: "ReadZDTRecord ZDTRecord_init b = ((ok, r), b1)" by (metis prod.collapse)
    show ?thesis
    proof (cases ok)
      case True
      let ?b = "SkipRead (unat (rec_length r)) b1"
      have "ReadZDTRecord ZDTRecord_init b = ((True, r), b1)" using r True by simp
      note c = ReadZDTRecord_consumes [OF less.prems(1) this]
      have "consumed b1 ?b (unat (rec_length r))" by (rule consumed_SkipRead [OF c(1,3)])
      then have "stream_ok ?b" "length (contents ?b) < length (contents b)" using c(2) by (auto simp: consumed_def)
      then have s: "stream_ok ?b" "readable_bytes ?b < readable_bytes b"
        using length_contents less.prems(1) by simp_all
      then have "process_records k now ?b acc' tr' = process_records (readable_bytes ?b) now ?b acc' tr'"
        if "n \<le> k" for k acc' tr'
        using less.hyps [of ?b k acc' tr'] Suc that by simp
      from this [of n] this [of f] show ?thesis using Suc f r True less.prems(2) by (simp add: Let_def split_beta)
    qed (use Suc f r in simp)
  qed
qed

section \<open>From one end to the other\<close>

lemma net_of_scratch_new: "scratch_ok (Buffer_new BigEndian)"
  by (simp add: scratch_ok_def Buffer_new_def buf_wf_def)

text \<open>
  C25. A datagram carries its records across: the bytes \<open>SendBatch\<close> puts on the wire, handed to
  the transport of the other side, make it take exactly the records of the batch with their
  payloads, in the order they were packed; and the datagram is entered in the history that
  is acknowledged exactly when every one of its records was accepted.
\<close>

theorem datagram_end_to_end:
  assumes "fits (zt_connection tr) batch" and "list_all carries batch" and "conn_mtu (zt_connection tr) \<noteq> 0"
    and "conn_relay_channel (zt_connection tr) = 0" and "zt_next_packet_seq tr \<noteq> 0"
    and "scratch_ok (zt_send_scratch tr)" and "net_socket (zt_net tr) = Some sock" and "net_peer (zt_net tr) = Some peer"
    and "\<not> zt_is_closed rcv" and "inbox_queue (zt_inbox rcv) = []" and "0 < max_inbox_datagrams (zt_config rcv)"
    and "take_records (zt_config rcv) later batch (True, zt_rx rcv) = (ok, rx)"
  shows "\<exists>bs. net_wire (zt_net (snd (SendBatch now 0 batch tr))) = net_wire (zt_net tr) @ [(sock, peer, bs)]
    \<and> zt_rx (ProcessInbound later (OnDatagram arrival bs rcv)) = rx
    \<and> zt_ack_history (ProcessInbound later (OnDatagram arrival bs rcv)) =
        (if ok then Record (zt_next_packet_seq tr) (zt_ack_history rcv) else zt_ack_history rcv)"
proof -
  let ?h = "batch_header 0 batch tr"
  let ?bs = "enc_header BigEndian ?h @ concat (map enc_pending batch)"
  have bs: "enc_datagram (zt_connection tr) ?h batch = ?bs" using assms(4) by (simp add: enc_datagram_def relay_prefix_def)
  have len: "length ?bs < 2 ^ 61"
    using length_datagram [of 0 tr batch] conn_budget_less [of "zt_connection tr"] assms(1,3,4) bs
    by (simp add: relay_overhead_def)
  have seq: "hdr_packet_seq ?h = zt_next_packet_seq tr" by (simp add: batch_header_def Let_def)
  have fl: "\<not> has_flag (hdr_flags ?h) kFlagFin" "\<not> has_flag (hdr_flags ?h) kFlagPing"
    using batch_header_flags(3,4) [of 0 batch tr] by (simp_all add: kFlagPing_def)
  let ?r = "rcv\<lparr>zt_inbox := (zt_inbox rcv)\<lparr>inbox_queue := []\<rparr>\<rparr>"
  obtain r' where r': "process_datagram later \<lparr>in_datagram = Buffer_of default_new ?bs BigEndian, in_arrival = arrival\<rparr> ?r = (False, r')"
      "zt_rx r' = rx" "zt_ack_history r' = (if hdr_packet_seq ?h \<noteq> 0 \<and> ok then Record (hdr_packet_seq ?h) (zt_ack_history rcv) else zt_ack_history rcv)"
    using process_datagram_batch [OF batch_header_ok [of 0 batch tr] fl assms(2) _ len, of ?r later ok rx arrival] assms(9,12) by auto
  have "ProcessInbound later (OnDatagram arrival ?bs rcv) = r'"
    using r'(1) assms(10,11) by (simp add: ProcessInbound_def OnDatagram_def inbox_Push_def inbox_Drain_def Let_def)
  then show ?thesis
    using SendBatch_wire(1) [of 0 tr batch sock peer now] assms r' seq bs by auto
qed

text \<open>An endpoint with the default options, and a batch of one unreliable message.\<close>

definition sample_transport :: ZDTTransport where
  "sample_transport = ZDTTransport_new 0 (Some 3) (Some (InetAddressIPv4 [10, 0, 0, 1] 4000)) ZDTOptions_default
     False None ZDTConnection_default CommonOptions_default"

definition sample_batch :: "PendingRecord list" where
  "sample_batch = [MakeRecord (Buffer_of default_new [1, 2] LittleEndian) 0 2 0 0 0 0 1 False]"

theorem datagram_end_to_end_witness:
  "\<exists>bs. net_wire (zt_net (snd (SendBatch 5 0 sample_batch sample_transport)))
        = [(3, InetAddressIPv4 [10, 0, 0, 1] 4000, bs)]
    \<and> zt_rx (ProcessInbound 7 (OnDatagram 6 bs sample_transport))
        = (zt_rx sample_transport)\<lparr>rx_ready := [Buffer_of default_new [1, 2] LittleEndian]\<rparr>
    \<and> zt_ack_history (ProcessInbound 7 (OnDatagram 6 bs sample_transport)) = Record 1 (zt_ack_history sample_transport)"
proof -
  have p: "pending_payload (hd sample_batch) = [1, 2]"
    by (simp add: sample_batch_def pending_payload_def MakeRecord_def Buffer_of_def default_new_def overlay_def)
  have "fits ZDTConnection_default sample_batch"
    by (simp add: fits_def sample_batch_def si_kMaxKeys_def conn_budget_def conn_mtu_left_def ZDTConnection_default_def
        MakeRecord_def ZDTRecordSize_def zdt_sizes kRecFragment_def has_flag_def)
  moreover have "list_all carries sample_batch"
    using p by (simp add: sample_batch_def carries_def) (simp add: MakeRecord_def)
  moreover have "take_records ZDTOptions_default 7 sample_batch (True, zt_rx sample_transport)
      = (True, (zt_rx sample_transport)\<lparr>rx_ready := [Buffer_of default_new [1, 2] LittleEndian]\<rparr>)"
    using p by (simp add: take_records_def sample_batch_def)
      (simp add: OnRecord_def record_on_wire_def MakeRecord_def DeliverMessage_def rx_push_def has_flag_def Let_def
        sample_transport_def ZDTTransport_new_def)
  ultimately show ?thesis
    using datagram_end_to_end [of sample_transport sample_batch 3 "InetAddressIPv4 [10, 0, 0, 1] 4000" sample_transport 7 True
        "(zt_rx sample_transport)\<lparr>rx_ready := [Buffer_of default_new [1, 2] LittleEndian]\<rparr>" 5 6]
    by (simp add: sample_transport_def ZDTTransport_new_def ZDTConnection_default_def ZDTOptions_default_def net_of_scratch_new)
qed

end
