(* ===== verification/Zdt_Lanes.thy ===== *)
theory Zdt_Lanes
  imports Zdt_Datagram
begin

text \<open>
  The lanes of the sender. \<open>Send\<close> hands a message to the ring, \<open>StageOutbound\<close> sorts the ring
  into one lane per channel, and the loop of \<open>FlushOutbound\<close> takes messages off the lanes.
  Shown here: the counter of staged messages is right, the loop ends, the order within a
  channel is kept, and only the window of the reliable messages holds anything back.
\<close>

section \<open>The lanes and what is waiting\<close>

definition queued_channel :: "QueuedOut \<Rightarrow> u8" where
  "queued_channel q = GetOr_channel (qo_options q)"

definition staged_total :: "StagedLane list \<Rightarrow> nat" where
  "staged_total lanes = sum_list (map (\<lambda>lane. length (lane_messages lane)) lanes)"

definition lanes_ok :: "nat \<Rightarrow> ZDTTransport \<Rightarrow> bool" where
  "lanes_ok k tr \<longleftrightarrow> distinct (map lane_channel (zt_staged tr)) \<and> zt_staged_count tr = staged_total (zt_staged tr)
     \<and> (\<forall>lane \<in> set (zt_staged tr). \<forall>q \<in> set (lane_messages lane). queued_channel q = lane_channel lane)
     \<and> mpsc_ok (zt_outbound tr) k"

text \<open>The messages waiting on a channel, oldest first: its lane, then the ring.\<close>

fun lane_of :: "u8 \<Rightarrow> StagedLane list \<Rightarrow> QueuedOut list" where
  "lane_of c [] = []"
| "lane_of c (lane # lanes) = (if lane_channel lane = c then lane_messages lane else lane_of c lanes)"

definition waiting :: "u8 \<Rightarrow> ZDTTransport \<Rightarrow> QueuedOut list" where
  "waiting c tr = lane_of c (zt_staged tr) @ filter (\<lambda>q. queued_channel q = c) (mpsc_contents (zt_outbound tr))"

lemma lane_of_cases: "lane_of c lanes = [] \<or> (\<exists>lane \<in> set lanes. lane_of c lanes = lane_messages lane)"
  by (induction lanes) auto

lemma lane_of_absent: "c \<notin> lane_channel ` set lanes \<Longrightarrow> lane_of c lanes = []"
  by (induction lanes) auto

lemma lane_of_nth:
  "distinct (map lane_channel lanes) \<Longrightarrow> i < length lanes \<Longrightarrow> lane_of (lane_channel (lanes ! i)) lanes = lane_messages (lanes ! i)"
proof (induction lanes arbitrary: i)
  case (Cons lane lanes)
  then show ?case by (cases i) (auto simp: image_iff dest!: bspec [OF _ nth_mem])
qed simp

lemma lane_of_update:
  "distinct (map lane_channel lanes) \<Longrightarrow> i < length lanes \<Longrightarrow> lane_channel lane = lane_channel (lanes ! i) \<Longrightarrow>
    lane_of c (lanes[i := lane]) = (if c = lane_channel lane then lane_messages lane else lane_of c lanes)"
proof (induction lanes arbitrary: i)
  case (Cons l lanes)
  show ?case
  proof (cases i)
    case (Suc j)
    then have "lane_channel l \<noteq> lane_channel lane" using Cons.prems by (auto simp: image_iff dest: nth_mem)
    then show ?thesis using Cons Suc by auto
  qed (use Cons in auto)
qed simp

lemma staged_total_update:
  "i < length lanes \<Longrightarrow> staged_total (lanes[i := lane]) = staged_total lanes + length (lane_messages lane) - length (lane_messages (lanes ! i))"
proof (induction lanes arbitrary: i)
  case (Cons l lanes)
  then show ?case
  proof (cases i)
    case (Suc j)
    have "length (lane_messages (lanes ! j)) \<le> staged_total lanes"
      using Cons.prems Suc by (auto simp: staged_total_def intro: member_le_sum_list)
    then show ?thesis using Cons Suc by (simp add: staged_total_def)
  qed (simp add: staged_total_def)
qed simp

lemma staged_total_0: "staged_total lanes = 0 \<longleftrightarrow> (\<forall>lane \<in> set lanes. lane_messages lane = [])"
  by (induction lanes) (auto simp: staged_total_def)

section \<open>Staging\<close>

lemma stage_one_lanes:
  assumes "distinct (map lane_channel lanes)"
  shows "distinct (map lane_channel (stage_one q lanes))"
    and "lane_channel ` set (stage_one q lanes) = insert (queued_channel q) (lane_channel ` set lanes)"
    and "staged_total (stage_one q lanes) = Suc (staged_total lanes)"
    and "lane_of c (stage_one q lanes) = lane_of c lanes @ (if queued_channel q = c then [q] else [])"
proof -
  have "distinct (map lane_channel (stage_one q lanes)) \<and> lane_channel ` set (stage_one q lanes) = insert (queued_channel q) (lane_channel ` set lanes)"
    using assms by (induction lanes) (auto simp: queued_channel_def)
  then show "distinct (map lane_channel (stage_one q lanes))"
    and "lane_channel ` set (stage_one q lanes) = insert (queued_channel q) (lane_channel ` set lanes)" by auto
  show "staged_total (stage_one q lanes) = Suc (staged_total lanes)"
    by (induction lanes) (simp_all add: staged_total_def)
  show "lane_of c (stage_one q lanes) = lane_of c lanes @ (if queued_channel q = c then [q] else [])"
    using assms by (induction lanes) (auto simp: queued_channel_def lane_of_absent)
qed

lemma stage_one_channels:
  "(\<forall>lane \<in> set lanes. \<forall>q \<in> set (lane_messages lane). queued_channel q = lane_channel lane) \<Longrightarrow>
    \<forall>lane \<in> set (stage_one q lanes). \<forall>q \<in> set (lane_messages lane). queued_channel q = lane_channel lane"
  by (induction lanes) (auto simp: queued_channel_def)

lemma stage_lanes:
  fixes lanes :: "StagedLane list" and items :: "QueuedOut list"
  defines "staged \<equiv> foldl (\<lambda>lanes x. stage_one x lanes) lanes items"
  assumes "distinct (map lane_channel lanes)"
    and "\<forall>lane \<in> set lanes. \<forall>q \<in> set (lane_messages lane). queued_channel q = lane_channel lane"
  shows "distinct (map lane_channel staged)
    \<and> (\<forall>lane \<in> set staged. \<forall>q \<in> set (lane_messages lane). queued_channel q = lane_channel lane)
    \<and> staged_total staged = staged_total lanes + length items
    \<and> lane_of c staged = lane_of c lanes @ filter (\<lambda>q. queued_channel q = c) items"
  using assms(2,3) unfolding staged_def
proof (induction items arbitrary: lanes)
  case (Cons x items)
  show ?case
    using Cons.IH [OF stage_one_lanes(1) [OF Cons.prems(1), of x] stage_one_channels [OF Cons.prems(2), of x]]
      stage_one_lanes(3,4) [OF Cons.prems(1), where q = x] by auto
qed simp

lemma StageOutbound_ok:
  assumes "lanes_ok k tr"
  shows "lanes_ok k (snd (StageOutbound tr))" and "waiting c (snd (StageOutbound tr)) = waiting c tr"
    and "mpsc_contents (zt_outbound (snd (StageOutbound tr))) = []"
    and "fst (StageOutbound tr) = length (mpsc_contents (zt_outbound tr))"
    and "zt_staged_count (snd (StageOutbound tr)) = zt_staged_count tr + length (mpsc_contents (zt_outbound tr))"
proof -
  have q: "mpsc_ok (zt_outbound tr) k" using assms by (simp add: lanes_ok_def)
  obtain items q' where d: "DrainTo (zt_outbound tr) = (items, q')" by fastforce
  then have i: "items = mpsc_contents (zt_outbound tr)" "mpsc_contents q' = []" "mpsc_ok q' k"
    using DrainTo_drains [OF q] by simp_all
  have l: "distinct (map lane_channel (zt_staged tr))"
      "\<forall>lane \<in> set (zt_staged tr). \<forall>q \<in> set (lane_messages lane). queued_channel q = lane_channel lane"
      "zt_staged_count tr = staged_total (zt_staged tr)" using assms by (auto simp: lanes_ok_def)
  note s = stage_lanes [OF l(1,2)]
  show "lanes_ok k (snd (StageOutbound tr))" "waiting c (snd (StageOutbound tr)) = waiting c tr"
    "mpsc_contents (zt_outbound (snd (StageOutbound tr))) = []"
    "fst (StageOutbound tr) = length (mpsc_contents (zt_outbound tr))"
    "zt_staged_count (snd (StageOutbound tr)) = zt_staged_count tr + length (mpsc_contents (zt_outbound tr))"
    using s d i l(3) by (simp_all add: StageOutbound_def lanes_ok_def waiting_def)
qed

section \<open>The loop over the lanes\<close>

lemma lane_view_cong:
  assumes "lane_view tr = lane_view tr'"
  shows "lanes_ok k tr = lanes_ok k tr'" and "waiting c tr = waiting c tr'" and "zt_staged tr = zt_staged tr'"
    and "zt_staged_count tr = zt_staged_count tr'" and "zt_outbound tr = zt_outbound tr'"
  using assms by (simp_all add: lane_view_def lanes_ok_def waiting_def)

text \<open>A lane that gets nothing sent in its turn.\<close>

definition idle_lane :: "nat \<Rightarrow> ZDTTransport \<Rightarrow> bool" where
  "idle_lane i tr \<longleftrightarrow> (case lane_messages (zt_staged tr ! i) of [] \<Rightarrow> True
     | q # _ \<Rightarrow> window_refuses (lane_channel (zt_staged tr ! i)) q tr)"

text \<open>What a state reached from another one within a flush keeps.\<close>

definition flushed_from :: "nat \<Rightarrow> ZDTTransport \<Rightarrow> ZDTTransport \<Rightarrow> bool" where
  "flushed_from k tr tr' \<longleftrightarrow> lanes_ok k tr' \<and> length (zt_staged tr') = length (zt_staged tr)
     \<and> zt_staged_cursor tr' = zt_staged_cursor tr \<and> zt_outbound tr' = zt_outbound tr
     \<and> zt_staged_count tr' \<le> zt_staged_count tr \<and> (\<forall>c. suffix (waiting c tr') (waiting c tr))"

lemma flushed_trans: "flushed_from k tr tr1 \<Longrightarrow> flushed_from k tr1 tr2 \<Longrightarrow> flushed_from k tr tr2"
  by (auto simp: flushed_from_def intro: suffix_order.trans)

lemma flushed_cong: "flushed_from k tr tr1 \<Longrightarrow> lane_view tr1 = lane_view tr2 \<Longrightarrow> flushed_from k tr tr2"
  by (auto simp: flushed_from_def lane_view_def lanes_ok_def waiting_def)

lemma idle_front:
  assumes "idle_lane i tr" and "lane_messages (zt_staged tr ! i) \<noteq> []"
  shows "GetOr_reliable (qo_options (hd (lane_messages (zt_staged tr ! i))))"
  using assms by (auto simp: idle_lane_def window_refuses_def split: list.splits)

lemma lane_turn_idle: "idle_lane i tr \<Longrightarrow> lane_turn now mtu i (s, batch, bytes, tr) = (s, batch, bytes, tr)"
  by (simp add: lane_turn_def idle_lane_def Let_def split: list.splits)

lemma pop_lane:
  assumes "lanes_ok k tr" and "i < length (zt_staged tr)" and "lane_messages (zt_staged tr ! i) = q # rest"
  shows "flushed_from k tr (tr\<lparr>zt_staged := (zt_staged tr)[i := (zt_staged tr ! i)\<lparr>lane_messages := rest\<rparr>],
      zt_staged_count := zt_staged_count tr - 1\<rparr>)"
    and "0 < zt_staged_count tr"
proof -
  let ?lane = "zt_staged tr ! i"
  let ?l = "?lane\<lparr>lane_messages := rest\<rparr>"
  let ?tr = "tr\<lparr>zt_staged := (zt_staged tr)[i := ?l], zt_staged_count := zt_staged_count tr - 1\<rparr>"
  have l: "distinct (map lane_channel (zt_staged tr))" "zt_staged_count tr = staged_total (zt_staged tr)"
    using assms(1) by (simp_all add: lanes_ok_def)
  have "length (lane_messages ?lane) \<le> staged_total (zt_staged tr)"
    using assms(2) by (auto simp: staged_total_def intro: member_le_sum_list)
  then show "0 < zt_staged_count tr" using assms(3) l(2) by auto
  have "map lane_channel ((zt_staged tr)[i := ?l]) = map lane_channel (zt_staged tr)"
    using assms(2) by (simp add: map_update list_update_same_conv)
  moreover have "staged_total ((zt_staged tr)[i := ?l]) = zt_staged_count tr - 1"
    using staged_total_update [OF assms(2), of ?l] assms(3) l(2) by simp
  moreover have "\<forall>lane \<in> set ((zt_staged tr)[i := ?l]). \<forall>q \<in> set (lane_messages lane). queued_channel q = lane_channel lane"
    using assms nth_mem [OF assms(2)] set_update_subset_insert [of "zt_staged tr" i ?l]
    by (fastforce simp: lanes_ok_def)
  moreover have "suffix (waiting c ?tr) (waiting c tr)" for c
    using lane_of_update [OF l(1) assms(2), of ?l c] lane_of_nth [OF l(1) assms(2)] assms(3)
    by (auto simp: waiting_def suffix_def)
  ultimately show "flushed_from k tr ?tr" using assms(1) l by (simp add: flushed_from_def lanes_ok_def)
qed

lemma lane_turn_sends:
  assumes "lanes_ok k tr" and "i < length (zt_staged tr)" and "\<not> idle_lane i tr"
    and "lane_turn now mtu i (s, batch, bytes, tr) = (s', batch', bytes', tr')"
  shows "s'" and "flushed_from k tr tr'" and "zt_staged_count tr' < zt_staged_count tr"
proof -
  let ?lane = "zt_staged tr ! i"
  obtain q rest where m: "lane_messages ?lane = q # rest" "\<not> window_refuses (lane_channel ?lane) q tr"
    using assms(3) by (auto simp: idle_lane_def split: list.splits)
  let ?tr = "tr\<lparr>zt_staged := (zt_staged tr)[i := ?lane\<lparr>lane_messages := rest\<rparr>], zt_staged_count := zt_staged_count tr - 1\<rparr>"
  have eq: "(s', batch', bytes', tr') = (True, pack_message now mtu q (lane_channel ?lane) (batch, bytes, ?tr))"
    using assms(4) m by (simp add: lane_turn_def Let_def)
  then have v: "lane_view tr' = lane_view ?tr" using lane_view_pack_message [of now mtu q "lane_channel ?lane" batch bytes ?tr]
    by (metis Pair_inject snd_conv)
  show "flushed_from k tr tr'" by (rule flushed_cong [OF pop_lane(1) [OF assms(1,2) m(1)] v [symmetric]])
  show "s'" "zt_staged_count tr' < zt_staged_count tr"
    using eq v pop_lane(2) [OF assms(1,2) m(1)] by (simp_all add: lane_view_def)
qed

text \<open>A pass over lanes: either nothing went out and each of them is idle, or a message did.\<close>

lemma lane_turns:
  assumes "lanes_ok k tr" and "\<forall>i \<in> set is. i < length (zt_staged tr)"
    and "foldl (\<lambda>st i. lane_turn now mtu i st) (s, batch, bytes, tr) is = (s', batch', bytes', tr')"
  shows "flushed_from k tr tr'" and "s \<Longrightarrow> s'" and "\<not> s \<Longrightarrow> s' \<Longrightarrow> zt_staged_count tr' < zt_staged_count tr"
    and "\<not> s' \<Longrightarrow> tr' = tr \<and> (\<forall>i \<in> set is. idle_lane i tr)"
proof -
  have "flushed_from k tr tr' \<and> (s \<longrightarrow> s') \<and> (\<not> s \<longrightarrow> s' \<longrightarrow> zt_staged_count tr' < zt_staged_count tr)
      \<and> (\<not> s' \<longrightarrow> tr' = tr \<and> (\<forall>i \<in> set is. idle_lane i tr))"
    using assms
  proof (induction "is" arbitrary: s batch bytes tr)
    case Nil
    then show ?case by (auto simp: flushed_from_def)
  next
    case (Cons i "is")
    show ?case
    proof (cases "idle_lane i tr")
      case True
      then show ?thesis using Cons.IH [of tr s batch bytes] Cons.prems by (simp add: lane_turn_idle)
    next
      case False
      obtain s1 batch1 bytes1 tr1 where t: "lane_turn now mtu i (s, batch, bytes, tr) = (s1, batch1, bytes1, tr1)"
        by (metis prod_cases4)
      note l = lane_turn_sends [OF Cons.prems(1) _ False t]
      have 1: "s1" "flushed_from k tr tr1" "zt_staged_count tr1 < zt_staged_count tr" using l Cons.prems(2) by simp_all
      have "flushed_from k tr1 tr' \<and> s'"
        using Cons.IH [of tr1 s1 batch1 bytes1] Cons.prems t 1 by (auto simp: flushed_from_def)
      then have f: "flushed_from k tr1 tr'" "s'" by simp_all
      moreover have "zt_staged_count tr' \<le> zt_staged_count tr1" using f(1) by (simp add: flushed_from_def)
      ultimately show ?thesis using flushed_trans [OF 1(2) f(1)] 1(3) by simp
    qed
  qed
  then show "flushed_from k tr tr'" "s \<Longrightarrow> s'" "\<not> s \<Longrightarrow> s' \<Longrightarrow> zt_staged_count tr' < zt_staged_count tr"
    "\<not> s' \<Longrightarrow> tr' = tr \<and> (\<forall>i \<in> set is. idle_lane i tr)" by blast+
qed

lemma rotation_covers:
  fixes c n i :: nat
  assumes "i < n"
  shows "i \<in> set (map (\<lambda>step. (c + step) mod n) [0..<n])"
proof -
  have "c mod n < n" using assms by simp
  then have "c mod n + (i + n - c mod n) = i + n" by simp
  moreover have "(c + (i + n - c mod n) mod n) mod n = (c mod n + (i + n - c mod n)) mod n" by (simp only: mod_simps)
  ultimately have "(c + (i + n - c mod n) mod n) mod n = (i + n) mod n" by simp
  also have "\<dots> = i" using assms by simp
  finally show ?thesis using assms by (auto intro!: image_eqI [where x = "(i + n - c mod n) mod n"])
qed

lemma flush_cycle_pass:
  assumes "lanes_ok k tr" and "flush_cycle now mtu (batch, bytes, tr) = (sent, batch', bytes', tr')"
  shows "flushed_from k tr tr'" and "sent \<Longrightarrow> zt_staged_count tr' < zt_staged_count tr"
    and "\<not> sent \<Longrightarrow> tr' = tr \<and> (\<forall>i < length (zt_staged tr). idle_lane i tr)"
proof -
  let ?n = "length (zt_staged tr)" and ?is = "map (\<lambda>step. (zt_staged_cursor tr + step) mod length (zt_staged tr)) [0..<length (zt_staged tr)]"
  have f: "foldl (\<lambda>st i. lane_turn now mtu i st) (False, batch, bytes, tr) ?is = (sent, batch', bytes', tr')"
    using assms(2) by (simp add: flush_cycle_def foldl_map Let_def)
  have "\<forall>i \<in> set ?is. i < ?n" by (auto intro!: mod_less_divisor)
  note t = lane_turns [OF assms(1) this f]
  show "flushed_from k tr tr'" "sent \<Longrightarrow> zt_staged_count tr' < zt_staged_count tr" using t by blast+
  show "\<not> sent \<Longrightarrow> tr' = tr \<and> (\<forall>i < ?n. idle_lane i tr)" using t(4) rotation_covers by blast
qed

section \<open>The flush\<close>

text \<open>
  What the loop of a flush ends with: the lanes are in order, nothing is left in the ring
  that was not there, each channel lost only messages at its front, and every lane is idle.
\<close>

definition flush_done :: "nat \<Rightarrow> ZDTTransport \<Rightarrow> ZDTTransport \<Rightarrow> bool" where
  "flush_done k tr tr' \<longleftrightarrow> lanes_ok k tr' \<and> (\<forall>c. suffix (waiting c tr') (waiting c tr))
     \<and> (\<forall>i < length (zt_staged tr'). idle_lane i tr')
     \<and> (mpsc_contents (zt_outbound tr) = [] \<longrightarrow> mpsc_contents (zt_outbound tr') = [])"

lemma idle_when_empty:
  assumes "lanes_ok k tr" and "zt_staged_count tr = 0" and "i < length (zt_staged tr)"
  shows "idle_lane i tr"
  using assms nth_mem [OF assms(3)] by (auto simp: lanes_ok_def staged_total_0 idle_lane_def)

lemma flush_cycles_ends:
  assumes "lanes_ok k tr" and "zt_staged_count tr + length (mpsc_contents (zt_outbound tr)) < fuel"
  shows "\<exists>batch' bytes' tr'. flush_cycles fuel now mtu (batch, bytes, tr) = Some (batch', bytes', tr') \<and> flush_done k tr tr'"
  using assms
proof (induction fuel arbitrary: batch bytes tr)
  case (Suc fuel)
  obtain count tr1 where st: "(if zt_staged_count tr = 0 then StageOutbound tr else (1, tr)) = (count, tr1)" by fastforce
  have 1: "lanes_ok k tr1" "\<And>c. waiting c tr1 = waiting c tr"
      "zt_staged_count tr1 + length (mpsc_contents (zt_outbound tr1)) = zt_staged_count tr + length (mpsc_contents (zt_outbound tr))"
      "count = 0 \<Longrightarrow> zt_staged_count tr1 = 0"
      "mpsc_contents (zt_outbound tr) = [] \<Longrightarrow> mpsc_contents (zt_outbound tr1) = []"
    using st StageOutbound_ok [OF Suc.prems(1)] Suc.prems(1) by (auto split: if_splits)
  show ?case
  proof (cases "count = 0")
    case True
    then have "flush_done k tr tr1" using 1 idle_when_empty by (simp add: flush_done_def)
    then show ?thesis using st True by simp
  next
    case False
    obtain sent batch2 bytes2 tr2 where c: "flush_cycle now mtu (batch, bytes, tr1) = (sent, batch2, bytes2, tr2)" by (metis prod_cases4)
    note p = flush_cycle_pass [OF 1(1) c]
    show ?thesis
    proof (cases sent)
      case True
      let ?tr = "tr2\<lparr>zt_staged_cursor := (zt_staged_cursor tr2 + 1) mod length (zt_staged tr2)\<rparr>"
      have "lanes_ok k tr2" using p(1) by (simp add: flushed_from_def)
      then have ok: "lanes_ok k ?tr" and w: "\<And>c. waiting c ?tr = waiting c tr2" by (simp_all add: lanes_ok_def waiting_def)
      moreover have "zt_staged_count ?tr + length (mpsc_contents (zt_outbound ?tr)) < fuel"
        using p(1) p(2) [OF True] 1(3) Suc.prems(2) by (simp add: flushed_from_def)
      ultimately obtain batch3 bytes3 tr3 where r: "flush_cycles fuel now mtu (batch2, bytes2, ?tr) = Some (batch3, bytes3, tr3)" "flush_done k ?tr tr3"
        using Suc.IH [of ?tr] by blast
      have "suffix (waiting c tr3) (waiting c tr2)" "suffix (waiting c tr2) (waiting c tr)" for c
        using r(2) p(1) 1(2) w by (simp_all add: flush_done_def flushed_from_def)
      then have "suffix (waiting c tr3) (waiting c tr)" for c by (rule suffix_order.trans)
      then have "flush_done k tr tr3" using r(2) p(1) 1(5) by (simp add: flush_done_def flushed_from_def)
      then show ?thesis using st False c True r(1) by simp
    next
      case no: False
      then have "flush_done k tr tr2" using p(3) 1 by (simp add: flush_done_def)
      then show ?thesis using st False c no by simp
    qed
  qed
qed simp

lemma flush_fuel_enough: "zt_staged_count tr + length (mpsc_contents (zt_outbound tr)) < flush_fuel tr"
  by (simp add: flush_fuel_def mpsc_size_def mpsc_contents_def)

lemma FlushOutbound_done:
  assumes "lanes_ok k tr"
  obtains batch bytes tr1 where "flush_done k tr tr1" and "FlushOutbound now tr = snd (snd (flush_batch now (batch, bytes, tr1)))"
    and "zt_staged_count tr < outbound_queue_capacity (zt_config tr) \<Longrightarrow> mpsc_contents (zt_outbound tr1) = []"
proof -
  let ?tr = "if zt_staged_count tr < outbound_queue_capacity (zt_config tr) then snd (StageOutbound tr) else tr"
  obtain tr0 where t0: "?tr = tr0" by blast
  have 0: "lanes_ok k tr0" "\<And>c. waiting c tr0 = waiting c tr"
    "mpsc_contents (zt_outbound tr) = [] \<or> zt_staged_count tr < outbound_queue_capacity (zt_config tr) \<Longrightarrow> mpsc_contents (zt_outbound tr0) = []"
    using assms StageOutbound_ok [OF assms] t0 by (auto split: if_splits)
  from flush_cycles_ends [OF 0(1) flush_fuel_enough]
  obtain batch bytes tr1 where c: "flush_cycles (flush_fuel tr0) now (flush_mtu tr) ([], kZDTHeaderReserve, tr0) = Some (batch, bytes, tr1)"
    "flush_done k tr0 tr1" by blast
  then have "flush_done k tr tr1" "zt_staged_count tr < outbound_queue_capacity (zt_config tr) \<Longrightarrow> mpsc_contents (zt_outbound tr1) = []"
    using 0(2,3) by (simp_all add: flush_done_def)
  moreover have "FlushOutbound now tr = snd (snd (flush_batch now (batch, bytes, tr1)))"
    unfolding FlushOutbound_def Let_def t0 c(1) by simp
  ultimately show ?thesis using that by blast
qed

lemma Close_lanes [simp]: "zt_staged (snd (Close tr)) = zt_staged tr" "zt_staged_count (snd (Close tr)) = zt_staged_count tr"
  "zt_outbound (snd (Close tr)) = zt_outbound tr"
  by (simp_all add: Close_def Let_def SendTo_def split: option.split)

text \<open>The lanes are in order after every call, as long as the ring's counters are in range.\<close>

interpretation lanes: transport_invariant conn "lanes_ok k" for conn k
proof (unfold_locales, goal_cases)
  case (10 tr)
  then show ?case by (simp add: StageOutbound_ok)
next
  case (11 tr i q rest)
  then show ?case using pop_lane(1) by (simp add: flushed_from_def)
qed (simp_all add: lanes_ok_def PruneReassembly_tr_def)

lemma lanes_Send:
  assumes "lanes_ok (Suc k) tr" and "\<not> zt_is_closed tr"
  shows "lanes_ok k (snd (Send b options tr))"
    and "waiting c (snd (Send b options tr)) = waiting c tr
      @ (if fst (Send b options tr) \<and> GetOr_channel options = c then [\<lparr>qo_payload = b, qo_options = options\<rparr>] else [])"
    and "fst (Send b options tr) \<longleftrightarrow> length (mpsc_contents (zt_outbound tr)) < capacity (zt_outbound tr)"
proof -
  let ?q = "zt_outbound tr" and ?m = "\<lparr>qo_payload = b, qo_options = options\<rparr>"
  have q: "mpsc_ok ?q (Suc k)" using assms(1) by (simp add: lanes_ok_def)
  have *: "lanes_ok k (snd (Send b options tr)) \<and> waiting c (snd (Send b options tr)) = waiting c tr
      @ (if fst (Send b options tr) \<and> GetOr_channel options = c then [?m] else [])
      \<and> (fst (Send b options tr) \<longleftrightarrow> length (mpsc_contents ?q) < capacity ?q)"
  proof (cases "length (mpsc_contents ?q) < capacity ?q")
    case True
    obtain r q' where "Push ?m ?q = (r, q')" by fastforce
    then show ?thesis using mpsc.push_room [OF q True, of ?m] assms True
      by (auto simp: Send_def lanes_ok_def waiting_def queued_channel_def)
  next
    case False
    then have "Push ?m ?q = (Full, ?q)" by (rule mpsc.push_full [OF q])
    then show ?thesis using False assms mpsc.ok_less [OF q] by (simp add: Send_def lanes_ok_def)
  qed
  then show "lanes_ok k (snd (Send b options tr))"
    "waiting c (snd (Send b options tr)) = waiting c tr @ (if fst (Send b options tr) \<and> GetOr_channel options = c then [?m] else [])"
    "fst (Send b options tr) \<longleftrightarrow> length (mpsc_contents ?q) < capacity ?q" by blast+
qed

lemma lanes_less: "lanes_ok (Suc k) tr \<Longrightarrow> lanes_ok k tr"
  using mpsc.ok_less by (auto simp: lanes_ok_def)

lemma lanes_run:
  assumes "lanes.good conn (length calls + k) tr"
  shows "lanes.good conn k (run_transport tr calls)"
  using assms
proof (induction calls arbitrary: tr)
  case (Cons call calls)
  have g: "base conn tr" "lanes_ok (Suc (length calls + k)) tr" using Cons.prems by (simp_all add: lanes.good_def)
  have "lanes.good conn (length calls + k) (transport_step tr call)"
  proof (cases "\<exists>b options. call = CallSend b options")
    case True
    then obtain b options where c: "call = CallSend b options" by blast
    have "base conn (snd (Send b options tr))"
      using g(1) by (auto simp: Send_def elim: base_cong split: prod.split PushResult.split)
    moreover have "lanes_ok (length calls + k) (snd (Send b options tr))"
      using lanes_Send(1) [OF g(2)] lanes_less [OF g(2)] by (cases "zt_is_closed tr") (simp_all add: Send_def)
    ultimately show ?thesis by (simp add: c lanes.good_def)
  next
    case False
    moreover have "lanes.good conn (length calls + k) tr" using g lanes_less by (simp add: lanes.good_def)
    ultimately show ?thesis by (intro lanes.good_step_but_send) blast+
  qed
  then show ?case using Cons.IH by simp
qed simp

lemma lanes_new:
  assumes "conn_mtu connection \<noteq> 0" and "k < 2 ^ 62"
  shows "lanes.good connection k (ZDTTransport_new t socket peer config own inbox connection common)"
  using assms
  by (simp add: lanes.good_def base_def lanes_ok_def ZDTTransport_new_def mpsc_ok_new staged_total_def om_ok_def)

section \<open>Properties\<close>

text \<open>
  C26. The loop that empties the lanes ends: in every state a transport can be brought to, the
  number of messages at hand is enough rounds for it, so the flush of \<open>FlushOutbound\<close> is
  never cut short.
\<close>

theorem flush_always_ends:
  assumes "conn_mtu connection \<noteq> 0" and "length calls < 2 ^ 62"
    and "tr = run_transport (ZDTTransport_new t socket peer config own inbox connection common) calls"
    and "tr1 = (if zt_staged_count tr < outbound_queue_capacity (zt_config tr) then snd (StageOutbound tr) else tr)"
  shows "\<exists>batch bytes tr2. flush_cycles (flush_fuel tr1) now (flush_mtu tr) ([], kZDTHeaderReserve, tr1) = Some (batch, bytes, tr2)
    \<and> FlushOutbound now tr = snd (snd (flush_batch now (batch, bytes, tr2)))"
proof -
  have "lanes_ok 0 tr" using lanes_run [of connection calls 0, OF lanes_new] assms(1-3) by (simp add: lanes.good_def)
  then have "lanes_ok 0 tr1" using assms(4) StageOutbound_ok(1) by simp
  from flush_cycles_ends [OF this flush_fuel_enough]
  show ?thesis using assms(4) by (fastforce simp: FlushOutbound_def Let_def)
qed

text \<open>A message sent unreliably on a new endpoint, and the state after sending it.\<close>

definition sample_send :: "transport_call list" where
  "sample_send = [CallSend (Buffer_of default_new [1, 2] LittleEndian) (Reliable False SendOptions_default)]"

lemma sample_waiting:
  "waiting 0 (run_transport sample_transport sample_send)
     = [\<lparr>qo_payload = Buffer_of default_new [1, 2] LittleEndian, qo_options = Reliable False SendOptions_default\<rparr>]"
  "zt_staged_count (run_transport sample_transport sample_send) = 0"
  "zt_config (run_transport sample_transport sample_send) = ZDTOptions_default"
  "\<not> zt_is_closed (run_transport sample_transport sample_send)"
proof -
  let ?b = "Buffer_of default_new [1, 2] LittleEndian" and ?o = "Reliable False SendOptions_default"
  have n: "conn_mtu ZDTConnection_default \<noteq> 0" by (simp add: ZDTConnection_default_def)
  have "lanes_ok (Suc 0) sample_transport"
    using lanes_new [OF n, of "Suc 0"] by (simp add: lanes.good_def sample_transport_def)
  note w = lanes_Send(2) [OF this, where c = 0 and b = ?b and options = ?o] lanes_Send(3) [OF this, where b = ?b and options = ?o]
  have cl: "\<not> zt_is_closed sample_transport" by (simp add: sample_transport_def ZDTTransport_new_def)
  have "0 < capacity (MpscQueue_new 4096)" using RoundUpPowerOfTwo_power [of 4096] by (auto simp: mpsc_capacity [OF ring_new])
  then show "waiting 0 (run_transport sample_transport sample_send) = [\<lparr>qo_payload = ?b, qo_options = ?o\<rparr>]"
    using w [OF cl] by (simp add: sample_send_def waiting_def sample_transport_def ZDTTransport_new_def ZDTOptions_default_def)
  show "zt_staged_count (run_transport sample_transport sample_send) = 0"
    "zt_config (run_transport sample_transport sample_send) = ZDTOptions_default"
    "\<not> zt_is_closed (run_transport sample_transport sample_send)"
    by (simp_all add: sample_send_def Send_def sample_transport_def ZDTTransport_new_def split: prod.split PushResult.split)
qed

lemma sample_run: "run_transport sample_transport sample_send = run_transport (ZDTTransport_new 0 (Some 3)
    (Some (InetAddressIPv4 [10, 0, 0, 1] 4000)) ZDTOptions_default False None ZDTConnection_default CommonOptions_default) sample_send"
  "conn_mtu ZDTConnection_default \<noteq> 0" "length sample_send + 1 < 2 ^ 62"
  by (simp_all add: sample_transport_def ZDTConnection_default_def sample_send_def)

theorem flush_always_ends_witness:
  "\<exists>batch bytes tr2. flush_cycles (flush_fuel (snd (StageOutbound (run_transport sample_transport sample_send)))) 5
       (flush_mtu (run_transport sample_transport sample_send))
       ([], kZDTHeaderReserve, snd (StageOutbound (run_transport sample_transport sample_send))) = Some (batch, bytes, tr2)
    \<and> FlushOutbound 5 (run_transport sample_transport sample_send) = snd (snd (flush_batch 5 (batch, bytes, tr2)))"
proof (rule flush_always_ends [OF sample_run(2) _ sample_run(1)])
  show "length sample_send < 2 ^ 62" using sample_run(3) by simp
  show "snd (StageOutbound (run_transport sample_transport sample_send)) =
      (if zt_staged_count (run_transport sample_transport sample_send)
          < outbound_queue_capacity (zt_config (run_transport sample_transport sample_send))
       then snd (StageOutbound (run_transport sample_transport sample_send)) else run_transport sample_transport sample_send)"
    by (simp add: sample_waiting ZDTOptions_default_def)
qed

text \<open>
  C27. Nothing but the window of the reliable messages holds a message back. After a flush each
  lane is empty or has a reliable message at its front; and when the hand-off ring was taken
  in, a channel on which no reliable message was waiting has nothing waiting any more.
\<close>

theorem flush_sends_unreliable:
  assumes "conn_mtu connection \<noteq> 0" and "length calls < 2 ^ 62"
    and "tr = run_transport (ZDTTransport_new t socket peer config own inbox connection common) calls"
    and "tr' = FlushOutbound now tr"
  shows "(\<forall>lane \<in> set (zt_staged tr'). lane_messages lane = [] \<or> GetOr_reliable (qo_options (hd (lane_messages lane))))
    \<and> (zt_staged_count tr < outbound_queue_capacity (zt_config tr) \<and> (\<forall>q \<in> set (waiting c tr). \<not> GetOr_reliable (qo_options q))
        \<longrightarrow> waiting c tr' = [])"
proof -
  have "lanes_ok 0 tr" using lanes_run [of connection calls 0, OF lanes_new] assms(1-3) by (simp add: lanes.good_def)
  then obtain batch bytes tr1 where d: "flush_done 0 tr tr1" "tr' = snd (snd (flush_batch now (batch, bytes, tr1)))"
      "zt_staged_count tr < outbound_queue_capacity (zt_config tr) \<Longrightarrow> mpsc_contents (zt_outbound tr1) = []"
    using FlushOutbound_done assms(4) by metis
  have v: "zt_staged tr' = zt_staged tr1" "waiting c tr' = waiting c tr1" for c
    using lane_view_cong(2,3) [OF lane_view_flush_batch] d(2) by blast+
  have front: "lane_messages lane = [] \<or> GetOr_reliable (qo_options (hd (lane_messages lane)))"
    if "lane \<in> set (zt_staged tr')" for lane
    using that d(1) v(1) idle_front by (fastforce simp: flush_done_def in_set_conv_nth)
  have "lane_of c (zt_staged tr') = [] \<or> GetOr_reliable (qo_options (hd (lane_of c (zt_staged tr'))))"
    using front lane_of_cases [of c "zt_staged tr'"] by metis
  moreover have "suffix (waiting c tr') (waiting c tr)" using d(1) v by (simp add: flush_done_def)
  then have "set (lane_of c (zt_staged tr')) \<subseteq> set (waiting c tr)"
    using set_mono_suffix by (fastforce simp: waiting_def)
  ultimately have "lane_of c (zt_staged tr') = []" if "\<forall>q \<in> set (waiting c tr). \<not> GetOr_reliable (qo_options q)"
    using that hd_in_set by blast
  moreover have "waiting c tr' = lane_of c (zt_staged tr')" if "zt_staged_count tr < outbound_queue_capacity (zt_config tr)"
    using d(3) [OF that] v by (simp add: waiting_def)
  ultimately show ?thesis using front by simp
qed

theorem flush_sends_unreliable_witness:
  "waiting 0 (run_transport sample_transport sample_send) \<noteq> []
    \<and> waiting 0 (FlushOutbound 5 (run_transport sample_transport sample_send)) = []"
proof -
  have "length sample_send < 2 ^ 62" using sample_run(3) by simp
  then show ?thesis
    using flush_sends_unreliable [OF sample_run(2) _ sample_run(1) refl, of 5 0]
    by (simp add: sample_waiting ZDTOptions_default_def)
qed

text \<open>
  C28. A channel is a queue: \<open>Send\<close> says whether the ring had room and, if it had, puts the
  message behind everything waiting on its channel, leaving the other channels as they
  were; a flush takes messages only from the front.
\<close>

theorem channel_is_fifo:
  assumes "conn_mtu connection \<noteq> 0" and "length calls + 1 < 2 ^ 62"
    and "tr = run_transport (ZDTTransport_new t socket peer config own inbox connection common) calls"
    and "\<not> zt_is_closed tr"
  shows "waiting c (snd (Send b options tr)) = waiting c tr
      @ (if fst (Send b options tr) \<and> GetOr_channel options = c then [\<lparr>qo_payload = b, qo_options = options\<rparr>] else [])
    \<and> (fst (Send b options tr) \<longleftrightarrow> length (mpsc_contents (zt_outbound tr)) < capacity (zt_outbound tr))
    \<and> suffix (waiting c (FlushOutbound now tr)) (waiting c tr)"
proof -
  have ok: "lanes_ok (Suc 0) tr" using lanes_run [of connection calls "Suc 0", OF lanes_new] assms(1-3) by (simp add: lanes.good_def)
  obtain batch bytes tr1 where d: "flush_done (Suc 0) tr tr1" "FlushOutbound now tr = snd (snd (flush_batch now (batch, bytes, tr1)))"
    using FlushOutbound_done [OF ok] by metis
  then have "suffix (waiting c (FlushOutbound now tr)) (waiting c tr)"
    using lane_view_cong(2) [OF lane_view_flush_batch] by (simp add: flush_done_def)
  then show ?thesis using lanes_Send(2,3) [OF ok assms(4)] by simp
qed

theorem channel_is_fifo_witness:
  "\<exists>tr tr'. tr = run_transport sample_transport sample_send
    \<and> tr' = snd (Send (Buffer_new LittleEndian) SendOptions_default tr) \<and> waiting 1 tr' = waiting 1 tr
    \<and> suffix (waiting 0 (FlushOutbound 5 tr)) (waiting 0 tr)"
  using channel_is_fifo [OF sample_run(2,3,1) sample_waiting(4), of 1 "Buffer_new LittleEndian" SendOptions_default 5]
    channel_is_fifo [OF sample_run(2,3,1) sample_waiting(4), of 0 "Buffer_new LittleEndian" SendOptions_default 5]
  by simp

end
