(* ===== verification/Zdt_Reassembly.thy ===== *)
theory Zdt_Reassembly
  imports Zdt_Delivery
begin

text \<open>
  Reassembly of fragmented messages. The bytes held are accounted for exactly and the number
  of unfinished messages is bounded; a message whose fragments all arrive, in any order and
  with repetitions, is delivered once, whole and in order.
\<close>

section \<open>Accounting\<close>

definition held :: "Reassembly \<Rightarrow> nat" where
  "held a = om_total (\<lambda>_. length) (ra_fragments a)"

definition assembly_ok :: "Reassembly \<Rightarrow> bool" where
  "assembly_ok a \<longleftrightarrow> om_ok (ra_fragments a) \<and> length (ra_fragments a) < unat (ra_frag_count a)
     \<and> (\<forall>f \<in> set (ra_fragments a). fst f < ra_frag_count a \<and> length (snd f) < 2 ^ 16)"

definition reassembly_ok :: "ZDTOptions \<Rightarrow> ZDTReceiver \<Rightarrow> bool" where
  "reassembly_ok config rx \<longleftrightarrow> om_ok (rx_reassembly rx) \<and> length (rx_reassembly rx) \<le> max_reassemblies config
     \<and> (\<forall>e \<in> set (rx_reassembly rx). assembly_ok (snd e))
     \<and> rx_reassembly_bytes rx = om_total (\<lambda>_. held) (rx_reassembly rx)"

lemma om_total_bound: "(\<And>k v. (k, v) \<in> set m \<Longrightarrow> f k v \<le> b) \<Longrightarrow> om_total f m \<le> length m * b"
proof (induction m)
  case (Cons e m)
  have "f (fst e) (snd e) \<le> b" using Cons.prems [of "fst e" "snd e"] by simp
  moreover have "om_total f m \<le> length m * b" using Cons by simp
  ultimately show ?case by (cases e) simp
qed simp

lemma held_bound:
  assumes "\<forall>f \<in> set (ra_fragments a). length (snd f) < 2 ^ 16" and "length (ra_fragments a) \<le> unat (ra_frag_count a)"
  shows "held a < 2 ^ 24"
proof -
  have "unat (ra_frag_count a) < 2 ^ 8" using unsigned_less [of "ra_frag_count a", where ?'a = nat] by simp
  then have n: "length (ra_fragments a) \<le> 255" using assms(2) by simp
  have "held a \<le> length (ra_fragments a) * (2 ^ 16 - 1)"
    unfolding held_def using assms(1) by (intro om_total_bound) (force simp: less_Suc_eq_le)
  also have "\<dots> \<le> 255 * (2 ^ 16 - 1)"
    using n by (intro mult_right_mono) simp_all
  finally show ?thesis by simp
qed

lemma reassembly_bytes_bound:
  assumes "reassembly_ok config rx" and "max_reassemblies config \<le> 2 ^ 32"
  shows "rx_reassembly_bytes rx \<le> max_reassemblies config * 2 ^ 24"
proof -
  have "held v \<le> 2 ^ 24" if "(k, v) \<in> set (rx_reassembly rx)" for k v
    using held_bound [of v] assms(1) that by (force simp: reassembly_ok_def assembly_ok_def)
  then have "om_total (\<lambda>_. held) (rx_reassembly rx) \<le> length (rx_reassembly rx) * 2 ^ 24" by (rule om_total_bound)
  also have "\<dots> \<le> max_reassemblies config * 2 ^ 24" using assms(1) by (intro mult_right_mono) (simp_all add: reassembly_ok_def)
  finally show ?thesis using assms(1) by (simp add: reassembly_ok_def)
qed

lemma release_fragments_total:
  "om_total (\<lambda>_. length) m \<le> n \<Longrightarrow> n < 2 ^ 64 \<Longrightarrow> release_fragments m n = n - om_total (\<lambda>_. length) m"
proof (induction m arbitrary: n)
  case (Cons e m)
  obtain k bs where e: "e = (k, bs)" by fastforce
  have "sz_sub n (length bs) = n - length bs" using Cons.prems e by (intro sz_sub_small) simp_all
  then show ?case using Cons.IH [of "n - length bs"] Cons.prems e by (simp add: release_fragments_def)
qed (simp add: release_fragments_def)

lemma om_assign_same: "om_ok m \<Longrightarrow> om_find k m = Some v \<Longrightarrow> om_assign k v m = m"
  by (rule om_ext) simp_all

lemma om_assign_twice: "om_ok m \<Longrightarrow> om_assign k v (om_assign k w m) = om_assign k v m"
  by (rule om_ext) simp_all

lemma om_erase_assign: "om_ok m \<Longrightarrow> om_erase k (om_assign k v m) = om_erase k m"
  by (rule om_ext) simp_all

lemma DeliverMessage_reassembly [simp]:
  "rx_reassembly (DeliverMessage r b rx) = rx_reassembly rx"
  "rx_reassembly_bytes (DeliverMessage r b rx) = rx_reassembly_bytes rx"
  by (simp_all add: DeliverMessage_def Let_def rx_push_def set_channel_def split_beta)

text \<open>
  The handling of a fragment in a state whose accounting is right: what is stored where, with
  the counters as plain sums.
\<close>

definition fragment_key :: "ZDTRecord \<Rightarrow> ZDTReceiver \<Rightarrow> MsgKey" where
  "fragment_key r rx = MsgKey (rec_channel r) (has_flag (rec_flags r) kRecReliable) 0 (ReconstructSeqFor r rx)"

definition assembly_for :: "TimePoint \<Rightarrow> ZDTRecord \<Rightarrow> ZDTReceiver \<Rightarrow> Reassembly" where
  "assembly_for now r rx = (case om_find (fragment_key r rx) (rx_reassembly rx) of Some a \<Rightarrow> a
     | None \<Rightarrow> \<lparr>ra_frag_count = rec_frag_count r, ra_fragments = [], ra_first_seen = now\<rparr>)"

definition no_room :: "ZDTOptions \<Rightarrow> ZDTRecord \<Rightarrow> ZDTReceiver \<Rightarrow> bool" where
  "no_room config r rx \<longleftrightarrow> om_find (fragment_key r rx) (rx_reassembly rx) = None
     \<and> (length (rx_reassembly rx) \<ge> max_reassemblies config \<or> rx_reassembly_bytes rx \<ge> max_reassembly_bytes config)"

definition whole_record :: "ZDTRecord \<Rightarrow> ZDTRecord" where
  "whole_record r = r\<lparr>rec_flags := rec_flags r AND NOT kRecFragment, rec_frag_index := 0, rec_frag_count := 1\<rparr>"

lemma assembly_for_ok:
  assumes "reassembly_ok config rx" and "rec_frag_count r \<noteq> 0"
  shows "om_ok (ra_fragments (assembly_for now r rx))" and "ra_frag_count (assembly_for now r rx) \<noteq> 0"
    and "length (ra_fragments (assembly_for now r rx)) < unat (ra_frag_count (assembly_for now r rx))"
    and "\<forall>f \<in> set (ra_fragments (assembly_for now r rx)). fst f < ra_frag_count (assembly_for now r rx) \<and> length (snd f) < 2 ^ 16"
    and "om_total (\<lambda>_. held) (om_erase (fragment_key r rx) (rx_reassembly rx)) + held (assembly_for now r rx) = rx_reassembly_bytes rx"
proof -
  have "assembly_ok (assembly_for now r rx) \<and>
      om_total (\<lambda>_. held) (om_erase (fragment_key r rx) (rx_reassembly rx)) + held (assembly_for now r rx) = rx_reassembly_bytes rx"
  proof (cases "om_find (fragment_key r rx) (rx_reassembly rx)")
    case None
    then show ?thesis using assms om_total_erase [of "\<lambda>_. held" "fragment_key r rx" "rx_reassembly rx"]
      by (simp add: assembly_for_def assembly_ok_def held_def reassembly_ok_def unat_gt_0)
  next
    case (Some a)
    then have "(fragment_key r rx, a) \<in> set (rx_reassembly rx)" by (rule om_find_in)
    then have "assembly_ok a" using assms(1) by (force simp: reassembly_ok_def)
    then show ?thesis using Some assms(1) om_total_erase [of "\<lambda>_. held" "fragment_key r rx" "rx_reassembly rx"]
      by (simp add: assembly_for_def reassembly_ok_def)
  qed
  then show "om_ok (ra_fragments (assembly_for now r rx))"
    "length (ra_fragments (assembly_for now r rx)) < unat (ra_frag_count (assembly_for now r rx))"
    "\<forall>f \<in> set (ra_fragments (assembly_for now r rx)). fst f < ra_frag_count (assembly_for now r rx) \<and> length (snd f) < 2 ^ 16"
    "om_total (\<lambda>_. held) (om_erase (fragment_key r rx) (rx_reassembly rx)) + held (assembly_for now r rx) = rx_reassembly_bytes rx"
    by (simp_all add: assembly_ok_def)
  then show "ra_frag_count (assembly_for now r rx) \<noteq> 0" by auto
qed

lemma OnDataFragment_eq:
  fixes now :: TimePoint and r :: ZDTRecord and rx :: ZDTReceiver and data :: bytes
  defines "key \<equiv> fragment_key r rx" and "a \<equiv> assembly_for now r rx"
  defines "frs \<equiv> om_assign (rec_frag_index r) data (ra_fragments a)"
  defines "rest \<equiv> om_total (\<lambda>_. held) (om_erase key (rx_reassembly rx))"
  assumes "reassembly_ok config rx" and "max_reassemblies config \<le> 2 ^ 32" and "length data < 2 ^ 16"
    and "rec_frag_index r < rec_frag_count r"
  shows "OnDataFragment config now r data rx =
    (if no_room config r rx then (\<not> has_flag (rec_flags r) kRecReliable, rx)
     else if ra_frag_count a \<noteq> rec_frag_count r then (True, rx)
     else if length frs \<noteq> unat (rec_frag_count r)
     then (True, rx\<lparr>rx_reassembly := om_assign key (a\<lparr>ra_fragments := frs\<rparr>) (rx_reassembly rx),
                   rx_reassembly_bytes := rest + held (a\<lparr>ra_fragments := frs\<rparr>)\<rparr>)
     else (True, DeliverMessage (whole_record r) (join_fragments frs)
            (rx\<lparr>rx_reassembly_bytes := rest, rx_reassembly := om_erase key (rx_reassembly rx)\<rparr>)))"
proof -
  have c0: "rec_frag_count r \<noteq> 0" using assms(8) by auto
  note ok = assembly_for_ok [OF assms(5) c0, of now, folded a_def key_def]
  have m: "om_ok (rx_reassembly rx)" using assms(5) by (simp add: reassembly_ok_def)
  have bound: "rest + held a < 2 ^ 57" using ok(5) reassembly_bytes_bound [OF assms(5,6)] assms(6) by (simp add: rest_def)
  define slot where "slot = (case om_find (rec_frag_index r) (ra_fragments a) of None \<Rightarrow> [] | Some old \<Rightarrow> old)"
  have tot: "held (a\<lparr>ra_fragments := frs\<rparr>) + length slot = held a + length data"
    using om_total_assign [OF ok(1), of "\<lambda>_. length" "rec_frag_index r" data]
    by (simp add: held_def frs_def slot_def split: option.splits)
  have sl: "length slot \<le> held a"
    using om_total_find [of "rec_frag_index r" "ra_fragments a" _ "\<lambda>_. length"] by (auto simp: slot_def held_def split: option.split)
  have bytes: "sz_add (sz_sub (rx_reassembly_bytes rx) (length slot)) (length data) = rest + held (a\<lparr>ra_fragments := frs\<rparr>)"
    using tot sl bound assms(7) ok(5) by (simp add: sz_sub_small sz_add_def flip: rest_def)
  have rel: "release_fragments frs (rest + held (a\<lparr>ra_fragments := frs\<rparr>)) = rest"
    using release_fragments_total [of frs "rest + held (a\<lparr>ra_fragments := frs\<rparr>)"] tot bound assms(7) by (simp add: held_def)
  have opened: "(let assembly = (case om_find key (rx_reassembly rx) of Some a \<Rightarrow> a
        | None \<Rightarrow> \<lparr>ra_frag_count = 0, ra_fragments = [], ra_first_seen = 0\<rparr>)
      in if ra_frag_count assembly = 0 then assembly\<lparr>ra_frag_count := rec_frag_count r, ra_first_seen := now\<rparr> else assembly) = a"
    using ok(2) by (auto simp: a_def assembly_for_def simp flip: key_def split: option.splits)
  have same: "ra_frag_count a \<noteq> rec_frag_count r \<Longrightarrow> om_assign key a (rx_reassembly rx) = rx_reassembly rx"
    using om_assign_same [OF m] by (auto simp: a_def assembly_for_def simp flip: key_def split: option.splits)
  have valid: "(rec_frag_count r \<le> rec_frag_index r) = False" using assms(8) by auto
  show ?thesis
    unfolding OnDataFragment_def Let_def fragment_key_def [symmetric] key_def [symmetric] opened [unfolded Let_def]
    using c0 same bytes rel
    by (simp add: valid no_room_def om_assign_twice [OF m] om_erase_assign [OF m] whole_record_def flip: key_def slot_def frs_def)
qed

lemma length_filled:
  assumes "om_ok m" and "length m < n"
  shows "length (om_assign k v m) \<le> n"
  using om_size_assign [OF assms(1), of k v] assms(2) by (simp split: option.splits)

lemma OnDataFragment_accounts:
  assumes "reassembly_ok config rx" and "max_reassemblies config \<le> 2 ^ 32" and "length data < 2 ^ 16"
  shows "reassembly_ok config (snd (OnDataFragment config now r data rx))"
proof (cases "rec_frag_index r < rec_frag_count r")
  case False
  then show ?thesis using assms(1) by (simp add: OnDataFragment_def not_less)
next
  case True
  define key a where "key = fragment_key r rx" and "a = assembly_for now r rx"
  define frs where "frs = om_assign (rec_frag_index r) data (ra_fragments a)"
  have c0: "rec_frag_count r \<noteq> 0" using True by auto
  note ok = assembly_for_ok [OF assms(1) c0, of now, folded a_def key_def]
  have m: "om_ok (rx_reassembly rx)" and els: "\<forall>e \<in> set (rx_reassembly rx). assembly_ok (snd e)"
      and n: "length (rx_reassembly rx) \<le> max_reassemblies config"
    using assms(1) by (simp_all add: reassembly_ok_def)
  let ?rx1 = "rx\<lparr>rx_reassembly := om_assign key (a\<lparr>ra_fragments := frs\<rparr>) (rx_reassembly rx),
      rx_reassembly_bytes := om_total (\<lambda>_. held) (om_erase key (rx_reassembly rx)) + held (a\<lparr>ra_fragments := frs\<rparr>)\<rparr>"
  let ?rx2 = "rx\<lparr>rx_reassembly_bytes := om_total (\<lambda>_. held) (om_erase key (rx_reassembly rx)), rx_reassembly := om_erase key (rx_reassembly rx)\<rparr>"
  have "reassembly_ok config ?rx1" if "\<not> no_room config r rx" "ra_frag_count a = rec_frag_count r" "length frs \<noteq> unat (rec_frag_count r)"
  proof -
    have "length frs < unat (ra_frag_count a)"
      using length_filled [OF ok(1,3), of "rec_frag_index r" data] that(2,3) by (simp add: frs_def)
    moreover have "\<forall>f \<in> set frs. fst f < ra_frag_count a \<and> length (snd f) < 2 ^ 16"
      using set_om_assign [of "rec_frag_index r" data "ra_fragments a"] ok(4) True that(2) assms(3) by (auto simp: frs_def)
    ultimately have "assembly_ok (a\<lparr>ra_fragments := frs\<rparr>)" using ok(1) by (simp add: assembly_ok_def frs_def)
    moreover have "length (om_assign key (a\<lparr>ra_fragments := frs\<rparr>) (rx_reassembly rx)) \<le> max_reassemblies config"
      using om_size_assign [OF m, of key] n that(1) by (auto simp: no_room_def simp flip: key_def split: option.splits)
    moreover have "om_total (\<lambda>_. held) (om_assign key (a\<lparr>ra_fragments := frs\<rparr>) (rx_reassembly rx))
        = om_total (\<lambda>_. held) (om_erase key (rx_reassembly rx)) + held (a\<lparr>ra_fragments := frs\<rparr>)"
      using om_total_erase [of "\<lambda>_. held" key "om_assign key (a\<lparr>ra_fragments := frs\<rparr>) (rx_reassembly rx)"] m
      by (simp add: om_erase_assign)
    ultimately show ?thesis
      using m els set_om_assign [of key "a\<lparr>ra_fragments := frs\<rparr>" "rx_reassembly rx"] by (auto simp: reassembly_ok_def)
  qed
  moreover have "reassembly_ok config ?rx2"
    using m els n set_om_erase [of key "rx_reassembly rx"] om_size_erase [of key "rx_reassembly rx"]
    by (auto simp: reassembly_ok_def split: option.splits)
  ultimately show ?thesis
    using OnDataFragment_eq [OF assms True, of now, folded key_def a_def, folded frs_def] assms(1)
    by (auto simp: reassembly_ok_def)
qed

lemma OnRecord_accounts:
  "reassembly_ok config rx \<Longrightarrow> max_reassemblies config \<le> 2 ^ 32 \<Longrightarrow> length data < 2 ^ 16 \<Longrightarrow>
    reassembly_ok config (snd (OnRecord config now r data rx))"
  by (simp add: OnRecord_def OnDataFragment_accounts) (simp add: reassembly_ok_def)

lemma prune_reassembly_eq:
  assumes "om_total (\<lambda>_. held) m \<le> n" and "n < 2 ^ 64"
  shows "prune_reassembly stale m n = (filter (\<lambda>e. \<not> stale (snd e)) m, n - om_total (\<lambda>_. held) (filter (\<lambda>e. stale (snd e)) m))"
  using assms
proof (induction m arbitrary: n)
  case (Cons e m)
  obtain key a where e: "e = (key, a)" by fastforce
  have "held a \<le> n" using Cons.prems e by simp
  then have "release_fragments (ra_fragments a) n = n - held a"
    using release_fragments_total [of "ra_fragments a" n] Cons.prems(2) by (simp add: held_def)
  then show ?case using Cons.IH [of "n - held a"] Cons.IH [of n] Cons.prems e by auto
qed simp

lemma PruneReassembly_accounts:
  assumes "reassembly_ok config rx" and "max_reassemblies config \<le> 2 ^ 32"
  shows "reassembly_ok config (PruneReassembly config now rx)"
proof -
  let ?st = "\<lambda>a. now - ra_first_seen a > reassembly_timeout config * ns_per_ms" and ?m = "rx_reassembly rx"
  have "rx_reassembly_bytes rx < 2 ^ 64" using reassembly_bytes_bound [OF assms] assms(2) by simp
  then have "prune_reassembly ?st ?m (rx_reassembly_bytes rx)
      = (filter (\<lambda>e. \<not> ?st (snd e)) ?m, rx_reassembly_bytes rx - om_total (\<lambda>_. held) (filter (\<lambda>e. ?st (snd e)) ?m))"
    using assms(1) by (intro prune_reassembly_eq) (simp_all add: reassembly_ok_def)
  moreover have "om_total (\<lambda>_. held) (filter (\<lambda>e. ?st (snd e)) ?m) + om_total (\<lambda>_. held) (filter (\<lambda>e. \<not> ?st (snd e)) ?m)
      = rx_reassembly_bytes rx" using assms(1) om_total_filter by (simp add: reassembly_ok_def)
  ultimately show ?thesis
    using assms(1)
    by (auto simp: PruneReassembly_def Let_def reassembly_ok_def intro: order_trans [OF length_filter_le])
qed

section \<open>Reassembly in any order\<close>

text \<open>Fragment \<open>i\<close> of the message of \<open>r\<close> arriving, each arrival with its time.\<close>

definition fragment_record :: "ZDTRecord \<Rightarrow> nat \<Rightarrow> ZDTRecord" where
  "fragment_record r i = r\<lparr>rec_frag_index := word_of_nat i\<rparr>"

definition take_fragments ::
  "ZDTOptions \<Rightarrow> ZDTRecord \<Rightarrow> (nat \<Rightarrow> bytes) \<Rightarrow> ZDTReceiver \<Rightarrow> (TimePoint \<times> nat) list \<Rightarrow> ZDTReceiver" where
  "take_fragments config r frag rx arrivals =
     foldl (\<lambda>rx (now, i). snd (OnDataFragment config now (fragment_record r i) (frag i) rx)) rx arrivals"

text \<open>The state while the fragments with the indices in \<open>S\<close> have arrived.\<close>

definition partial_state :: "ZDTRecord \<Rightarrow> (nat \<Rightarrow> bytes) \<Rightarrow> nat set \<Rightarrow> ZDTReceiver \<Rightarrow> ZDTReceiver \<Rightarrow> bool" where
  "partial_state r frag S rx0 rx \<longleftrightarrow> (if S = {} then rx = rx0
     else \<exists>a. ra_frag_count a = rec_frag_count r \<and> om_ok (ra_fragments a)
       \<and> (\<forall>i. om_find i (ra_fragments a) = (if unat i \<in> S then Some (frag (unat i)) else None))
       \<and> rx = rx0\<lparr>rx_reassembly := om_assign (fragment_key r rx0) a (rx_reassembly rx0),
                 rx_reassembly_bytes := rx_reassembly_bytes rx0 + held a\<rparr>)"

lemma fragment_key_cong: "rx_channels rx = rx_channels rx' \<Longrightarrow> fragment_key (fragment_record r i) rx = fragment_key r rx'"
  by (simp add: fragment_key_def fragment_record_def ReconstructSeqFor_def Let_def)

lemma om_size_dom: "om_ok m \<Longrightarrow> length m = card {k. om_find k m \<noteq> None}"
proof -
  assume ok: "om_ok m"
  have "{k. om_find k m \<noteq> None} = fst ` set m" by (auto simp: om_find_None)
  moreover have "distinct (map fst m)" using ok by (simp add: om_ok_def strict_sorted_iff)
  ultimately show ?thesis using distinct_card [of "map fst m"] by simp
qed

lemma card_indices:
  assumes "S \<subseteq> {..<n}" and "n \<le> 256"
  shows "card {i :: u8. unat i \<in> S} = card S"
proof -
  have "bij_betw (\<lambda>i :: u8. unat i) {i. unat i \<in> S} S"
  proof (rule bij_betw_byWitness [where f' = "\<lambda>i. word_of_nat i"])
    have "unat (word_of_nat i :: u8) = i" if "i \<in> S" for i
      using that assms by (intro unat_of_nat_small) auto
    then show "\<forall>i \<in> S. unat (word_of_nat i :: u8) = i" "(\<lambda>i. word_of_nat i :: u8) ` S \<subseteq> {i. unat i \<in> S}" by auto
  qed auto
  then show ?thesis by (rule bij_betw_same_card)
qed

lemma erase_absent: "om_ok m \<Longrightarrow> om_find k m = None \<Longrightarrow> om_erase k m = m"
  by (rule om_ext) auto

text \<open>The assembly before and after one more fragment.\<close>

lemma partial_assembly:
  assumes "partial_state r frag S rx0 rx" and "reassembly_ok config rx0" and "\<not> no_room config r rx0"
    and "om_find (fragment_key r rx0) (rx_reassembly rx0) = None"
  obtains a where "assembly_for now (fragment_record r i) rx = a" and "ra_frag_count a = rec_frag_count r"
    and "om_ok (ra_fragments a)" and "\<And>k. om_find k (ra_fragments a) = (if unat k \<in> S then Some (frag (unat k)) else None)"
    and "om_erase (fragment_key r rx0) (rx_reassembly rx) = rx_reassembly rx0" and "fragment_key (fragment_record r i) rx = fragment_key r rx0"
    and "\<not> no_room config (fragment_record r i) rx"
    and "\<And>m b. rx\<lparr>rx_reassembly := m, rx_reassembly_bytes := b\<rparr> = rx0\<lparr>rx_reassembly := m, rx_reassembly_bytes := b\<rparr>"
    and "\<And>a'. om_assign (fragment_key r rx0) a' (rx_reassembly rx) = om_assign (fragment_key r rx0) a' (rx_reassembly rx0)"
proof -
  have m: "om_ok (rx_reassembly rx0)" using assms(2) by (simp add: reassembly_ok_def)
  have "rx_channels rx = rx_channels rx0" using assms(1) by (auto simp: partial_state_def split: if_splits)
  then have k: "fragment_key (fragment_record r i) rx = fragment_key r rx0" by (rule fragment_key_cong)
  show ?thesis
  proof (cases "S = {}")
    case True
    then have rx: "rx = rx0" using assms(1) by (simp add: partial_state_def)
    have "assembly_for now (fragment_record r i) rx = \<lparr>ra_frag_count = rec_frag_count r, ra_fragments = [], ra_first_seen = now\<rparr>"
      by (simp only: assembly_for_def k) (simp add: rx assms(4) fragment_record_def)
    moreover have "\<not> no_room config (fragment_record r i) rx" using assms(3) k rx by (simp add: no_room_def)
    ultimately show ?thesis using that [OF _ _ _ _ _ k] True rx erase_absent [OF m assms(4)] by simp
  next
    case False
    then obtain a where a: "ra_frag_count a = rec_frag_count r" "om_ok (ra_fragments a)"
        "\<And>k. om_find k (ra_fragments a) = (if unat k \<in> S then Some (frag (unat k)) else None)"
        "rx = rx0\<lparr>rx_reassembly := om_assign (fragment_key r rx0) a (rx_reassembly rx0), rx_reassembly_bytes := rx_reassembly_bytes rx0 + held a\<rparr>"
      using assms(1) by (auto simp: partial_state_def)
    then have f: "om_find (fragment_key r rx0) (rx_reassembly rx) = Some a" using m by simp
    then have "assembly_for now (fragment_record r i) rx = a" "\<not> no_room config (fragment_record r i) rx"
      by (simp_all add: assembly_for_def no_room_def k)
    then show ?thesis
      using that [OF _ a(1-3) _ k] a(4) m assms(4) by (simp add: om_erase_assign erase_absent om_assign_twice)
  qed
qed

lemma index_map:
  assumes "n \<le> 256"
  shows "om_ok (map (\<lambda>i. (word_of_nat i :: u8, frag i)) [0..<n])"
    and "om_find k (map (\<lambda>i. (word_of_nat i :: u8, frag i)) [0..<n]) = (if unat k < n then Some (frag (unat k)) else None)"
proof -
  let ?m = "map (\<lambda>i. (word_of_nat i :: u8, frag i)) [0..<n]"
  have u: "unat (word_of_nat i :: u8) = i" if "i < n" for i using that assms by (intro unat_of_nat_small) simp
  show ok: "om_ok ?m"
    by (auto simp: om_ok_def sorted_wrt_iff_nth_less word_less_nat_alt u)
  show "om_find k ?m = (if unat k < n then Some (frag (unat k)) else None)"
  proof (cases "unat k < n")
    case True
    then have "(k, frag (unat k)) \<in> set ?m" by (auto intro!: image_eqI [where x = "unat k"])
    then show ?thesis using om_find_mem [OF ok] True by simp
  next
    case False
    then have "k \<notin> fst ` set ?m" using u by auto
    then have "om_find k ?m = None" by (simp only: om_find_None not_False_eq_True)
    then show ?thesis using False by (simp only: if_False)
  qed
qed

lemma fragment_arrives:
  fixes r :: ZDTRecord and rx0 :: ZDTReceiver
  defines "n \<equiv> unat (rec_frag_count r)"
  assumes st: "partial_state r frag S rx0 rx" and S: "S \<subset> {..<n}" and i: "i < n"
    and ok: "reassembly_ok config rx0" "reassembly_ok config rx" "max_reassemblies config \<le> 2 ^ 32"
    and small: "length (frag i) < 2 ^ 16"
    and fresh: "\<not> no_room config r rx0" "om_find (fragment_key r rx0) (rx_reassembly rx0) = None"
  shows "insert i S \<noteq> {..<n} \<Longrightarrow> partial_state r frag (insert i S) rx0 (snd (OnDataFragment config now (fragment_record r i) (frag i) rx))"
    and "insert i S = {..<n} \<Longrightarrow> snd (OnDataFragment config now (fragment_record r i) (frag i) rx)
      = DeliverMessage (whole_record r) (join_fragments (map (\<lambda>i. (word_of_nat i, frag i)) [0..<n])) rx0"
proof -
  let ?r = "fragment_record r i" and ?key = "fragment_key r rx0"
  have n: "n < 256" using unsigned_less [of "rec_frag_count r", where ?'a = nat] by (simp add: n_def)
  obtain a where a: "assembly_for now ?r rx = a" "ra_frag_count a = rec_frag_count r"
      "om_ok (ra_fragments a)" "\<And>k. om_find k (ra_fragments a) = (if unat k \<in> S then Some (frag (unat k)) else None)"
      "om_erase ?key (rx_reassembly rx) = rx_reassembly rx0" "fragment_key ?r rx = ?key" "\<not> no_room config ?r rx"
      "\<And>m b. rx\<lparr>rx_reassembly := m, rx_reassembly_bytes := b\<rparr> = rx0\<lparr>rx_reassembly := m, rx_reassembly_bytes := b\<rparr>"
      "\<And>a'. om_assign ?key a' (rx_reassembly rx) = om_assign ?key a' (rx_reassembly rx0)"
    by (rule partial_assembly [OF st ok(1) fresh, where now = now and i = i]) (rule that)
  have idx: "unat (word_of_nat i :: u8) = i" using i n by (intro unat_of_nat_small) simp
  have r: "rec_frag_count ?r = rec_frag_count r" "rec_frag_index ?r = word_of_nat i" "whole_record ?r = whole_record r"
    by (simp_all add: fragment_record_def whole_record_def)
  have valid: "rec_frag_index ?r < rec_frag_count ?r" using i idx by (simp add: r word_less_nat_alt n_def)
  define frs where "frs = om_assign (word_of_nat i) (frag i) (ra_fragments a)"
  have frs: "om_ok frs" "om_find k frs = (if unat k \<in> insert i S then Some (frag (unat k)) else None)" for k
    using a(3,4) idx by (auto simp: frs_def)
  have sub: "insert i S \<subseteq> {..<n}" using S i by auto
  have "length frs = card {k. om_find k frs \<noteq> None}" by (rule om_size_dom [OF frs(1)])
  also have "{k. om_find k frs \<noteq> None} = {k :: u8. unat k \<in> insert i S}" using frs(2) by (auto split: if_splits)
  also have "card \<dots> = card (insert i S)" using card_indices [OF sub] n by simp
  finally have len: "length frs = n \<longleftrightarrow> insert i S = {..<n}" by (metis card_lessThan card_subset_eq finite_lessThan sub)
  have bytes: "om_total (\<lambda>_. held) (rx_reassembly rx0) = rx_reassembly_bytes rx0" using ok(1) by (simp add: reassembly_ok_def)
  note eq = OnDataFragment_eq [OF ok(2,3) small valid, of now, unfolded a(1,6), unfolded r a(5) bytes, folded frs_def n_def]
  show "partial_state r frag (insert i S) rx0 (snd (OnDataFragment config now ?r (frag i) rx))" if "insert i S \<noteq> {..<n}"
    using that len a(2,7,8,9) frs eq
    by (auto simp: partial_state_def intro!: exI [where x = "a\<lparr>ra_fragments := frs\<rparr>"])
  show "snd (OnDataFragment config now ?r (frag i) rx) = DeliverMessage (whole_record r) (join_fragments (map (\<lambda>i. (word_of_nat i, frag i)) [0..<n])) rx0"
    if full: "insert i S = {..<n}"
  proof -
    have "frs = map (\<lambda>i. (word_of_nat i, frag i)) [0..<n]"
      using index_map [where n = n and frag = frag] frs full n by (intro om_ext) simp_all
    moreover have "rx\<lparr>rx_reassembly_bytes := rx_reassembly_bytes rx0, rx_reassembly := rx_reassembly rx0\<rparr> = rx0"
      using a(8) [where m = "rx_reassembly rx0" and b = "rx_reassembly_bytes rx0"] by (cases rx; cases rx0) simp
    ultimately show ?thesis using eq len full a(2,7) by simp
  qed
qed

lemma join_fragments_contents:
  assumes "sum_list (map (\<lambda>i. length (frag i)) [0..<n]) < 2 ^ 61"
  shows "contents (join_fragments (map (\<lambda>i. (word_of_nat i, frag i)) [0..<n])) = concat (map frag [0..<n])"
    and "stream_ok (join_fragments (map (\<lambda>i. (word_of_nat i, frag i)) [0..<n]))"
proof -
  let ?m = "map (\<lambda>i. (word_of_nat i :: u8, frag i)) [0..<n]"
  have "emits LittleEndian (\<lambda>full. if snd f \<noteq> [] then Write default_new (snd f) full else full) (snd f)" for f :: "u8 \<times> bytes"
    by (cases "snd f = []") (simp_all add: emits_id heap.emits_Write)
  then have "emits LittleEndian (\<lambda>b. foldl (\<lambda>full f. if snd f \<noteq> [] then Write default_new (snd f) full else full) b ?m) (concat (map snd ?m))"
    by (rule emits_foldl)
  moreover have "map snd ?m = map frag [0..<n]" by simp
  moreover have "length (concat (map frag [0..<n])) < 2 ^ 61" using assms by (simp add: length_concat comp_def)
  ultimately show "contents (join_fragments ?m) = concat (map frag [0..<n])" "stream_ok (join_fragments ?m)"
    using emits_new by (metis (no_types, lifting) join_fragments_def)+
qed

lemma take_fragments_partial:
  fixes r :: ZDTRecord and rx0 :: ZDTReceiver
  defines "n \<equiv> unat (rec_frag_count r)"
  assumes "snd ` set arrivals \<subset> {..<n}"
    and "reassembly_ok config rx0" and "max_reassemblies config \<le> 2 ^ 32" and "\<And>i. i < n \<Longrightarrow> length (frag i) < 2 ^ 16"
    and "\<not> no_room config r rx0" and "om_find (fragment_key r rx0) (rx_reassembly rx0) = None"
  shows "partial_state r frag (snd ` set arrivals) rx0 (take_fragments config r frag rx0 arrivals)
    \<and> reassembly_ok config (take_fragments config r frag rx0 arrivals)"
  using assms(2)
proof (induction arrivals rule: rev_induct)
  case Nil
  then show ?case using assms(3) by (simp add: partial_state_def take_fragments_def)
next
  case (snoc e arrivals)
  obtain now i where e: "e = (now, i)" by fastforce
  have i: "i < n" and sub: "insert i (snd ` set arrivals) \<subset> {..<n}" using snoc.prems e by auto
  then have S: "snd ` set arrivals \<subset> {..<n}" by auto
  note ih = snoc.IH [OF S]
  have "take_fragments config r frag rx0 (arrivals @ [e])
      = snd (OnDataFragment config now (fragment_record r i) (frag i) (take_fragments config r frag rx0 arrivals))"
    by (simp add: take_fragments_def e)
  then show ?case
    using fragment_arrives(1) [OF conjunct1 [OF ih] S [unfolded n_def] i [unfolded n_def] assms(3) conjunct2 [OF ih] assms(4) assms(5) [OF i] assms(6,7)]
      OnDataFragment_accounts [OF conjunct2 [OF ih] assms(4) assms(5) [OF i]] sub e by (auto simp: n_def)
qed



end
