(* ===== verification/Zdt_Guarantees.thy ===== *)
theory Zdt_Guarantees
  imports Zdt_Lanes Zdt_Reassembly
begin

text \<open>
  What holds of a transport after any sequence of calls: the number of datagrams in flight is
  counted right, no datagram is larger than what the path was probed for, and the bytes held
  for reassembly are accounted for. Each is an interpretation of \<open>run_invariant\<close>.
\<close>

section \<open>Datagrams in flight\<close>

definition carries_keys :: "WireSeq \<Rightarrow> SentInfo \<Rightarrow> nat" where
  "carries_keys seq info = (if si_keys info \<noteq> [] then 1 else 0)"

definition flight_ok :: "ZDTTransport \<Rightarrow> bool" where
  "flight_ok tr \<longleftrightarrow> om_ok (zt_sent_packets tr)
     \<and> zt_in_flight_datagrams tr = om_total carries_keys (zt_sent_packets tr)
     \<and> zt_next_packet_seq tr \<noteq> 0 \<and> om_find 0 (zt_sent_packets tr) = None
     \<and> (\<forall>e \<in> set (zt_sent_packets tr). length (si_keys (snd e)) \<le> si_kMaxKeys)"

lemma flight_Retire:
  assumes "flight_ok tr"
  shows "flight_ok (RetireSentPacket s tr)" and "om_find s (zt_sent_packets (RetireSentPacket s tr)) = None"
proof -
  have ok: "om_ok (zt_sent_packets tr)" using assms by (simp add: flight_ok_def)
  have "flight_ok (RetireSentPacket s tr) \<and> om_find s (zt_sent_packets (RetireSentPacket s tr)) = None"
  proof (cases "om_find s (zt_sent_packets tr)")
    case (Some info)
    have "om_total carries_keys (om_erase s (zt_sent_packets tr)) + carries_keys s info = zt_in_flight_datagrams tr"
      using om.total_remove [OF ok Some] assms by (simp add: flight_ok_def)
    then show ?thesis
      using Some assms ok set_om_erase [of s "zt_sent_packets tr"]
      by (auto simp: RetireSentPacket_def flight_ok_def carries_keys_def)
  qed (use assms in \<open>simp add: RetireSentPacket_def\<close>)
  then show "flight_ok (RetireSentPacket s tr)" "om_find s (zt_sent_packets (RetireSentPacket s tr)) = None" by auto
qed

lemma si_Add_keys: "length (si_keys (foldl (\<lambda>info p. if pr_reliable p then si_Add (pr_key p) info else info) i batch)) \<le> si_kMaxKeys"
  if "length (si_keys i) \<le> si_kMaxKeys"
  using that by (induction batch arbitrary: i) (simp_all add: si_Add_def)

lemma flight_SendBatch:
  assumes "flight_ok tr"
  shows "flight_ok (snd (SendBatch now fl batch tr))"
proof (cases "net_socket (zt_net tr) = None \<or> net_peer (zt_net tr) = None")
  case False
  then obtain sock peer where p: "net_socket (zt_net tr) = Some sock" "net_peer (zt_net tr) = Some peer" by auto
  let ?s = "zt_next_packet_seq tr" and ?d = "batch_datagram (batch_header fl batch tr) batch tr"
  let ?tr = "RetireSentPacket ?s (tr\<lparr>zt_next_packet_seq := next_seq ?s, zt_send_scratch := ?d\<rparr>)"
  define info where "info = foldl (\<lambda>info p. if pr_reliable p then si_Add (pr_key p) info else info) \<lparr>si_send_time = now, si_keys = []\<rparr> batch"
  have "next_seq ?s \<noteq> 0" by (simp add: next_seq_def)
  then have "flight_ok (tr\<lparr>zt_next_packet_seq := next_seq ?s, zt_send_scratch := ?d\<rparr>)" using assms by (simp add: flight_ok_def)
  from flight_Retire [OF this, of ?s] obtain tr1 where t: "?tr = tr1" "flight_ok tr1" "om_find ?s (zt_sent_packets tr1) = None" by blast
  have k: "length (si_keys info) \<le> si_kMaxKeys" unfolding info_def by (rule si_Add_keys) simp
  have tot: "om_total carries_keys (om_assign ?s info (zt_sent_packets tr1)) = zt_in_flight_datagrams tr1 + carries_keys ?s info"
    using om.total_fresh [OF _ t(3), of carries_keys info] t(2) by (simp add: flight_ok_def)
  have s: "snd (SendBatch now fl batch tr) = (SendTo sock peer (buf_bytes ?d) tr1)\<lparr>zt_sent_packets := om_assign ?s info (zt_sent_packets tr1),
      zt_last_send := now, zt_needs_ack := False, zt_in_flight_datagrams := zt_in_flight_datagrams tr1 + (if si_keys info \<noteq> [] then 1 else 0)\<rparr>"
    using p by (simp add: SendBatch_def Let_def t(1) flip: info_def)
  have "?s \<noteq> 0" using assms by (simp add: flight_ok_def)
  then show ?thesis
    unfolding s using t(2) tot k set_om_assign [of ?s info "zt_sent_packets tr1"]
    by (auto simp: flight_ok_def SendTo_def carries_keys_def)
qed (use assms SendBatch_no_path in simp)

interpretation flight: run_invariant conn flight_ok for conn
  by (unfold_locales; (simp only: flight_SendBatch flight_Retire(1))?)
    (auto simp: flight_ok_def Close_def take_send_seq_def StageOutbound_def PruneReassembly_tr_def Let_def SendTo_def split_beta split: option.split)

section \<open>Size on the wire\<close>

definition wire_ok :: "ZDTConnection \<Rightarrow> ZDTTransport \<Rightarrow> bool" where
  "wire_ok conn tr \<longleftrightarrow> scratch_ok (zt_send_scratch tr)
     \<and> (\<forall>(sock, peer, bs) \<in> set (net_wire (zt_net tr)). length bs \<le> relay_overhead conn + conn_budget conn)"

lemma wire_SendBatch:
  assumes "base conn tr" and "wire_ok conn tr" and "fits conn batch" and "control_flags fl"
  shows "wire_ok conn (snd (SendBatch now fl batch tr))"
proof (cases "net_socket (zt_net tr) = None \<or> net_peer (zt_net tr) = None")
  case False
  then obtain sock peer where p: "net_socket (zt_net tr) = Some sock" "net_peer (zt_net tr) = Some peer" by auto
  have c: "zt_connection tr = conn" "conn_mtu conn \<noteq> 0" using assms(1) by (simp_all add: base_def)
  have "scratch_ok (zt_send_scratch tr)" using assms(2) by (simp add: wire_ok_def)
  note w = SendBatch_wire [OF assms(4) _ _ this p, of batch now] and l = length_datagram [OF assms(4), of tr batch]
  show ?thesis using w l assms(2,3) c by (auto simp: wire_ok_def)
qed (use assms SendBatch_no_path in simp)

definition fin_header :: "ZDTConnection \<Rightarrow> ZDTHeader" where
  "fin_header conn = (if conn_migration_enabled conn
     then ZDTHeader_init\<lparr>hdr_flags := kFlagOnline OR kFlagFin OR kFlagHasCid, hdr_cid := conn_local_guid conn, hdr_packet_seq := 0\<rparr>
     else ZDTHeader_init\<lparr>hdr_flags := kFlagOnline OR kFlagFin, hdr_packet_seq := 0\<rparr>)"

lemma fin_header_ok: "header_ok (fin_header conn)"
  by (simp add: fin_header_def header_ok_def has_flag_def kFlagOnline_def kFlagFin_def kFlagHasCid_def ZDTHeader_init_def)

lemma fin_bytes:
  "buf_bytes (WriteZDTHeader (fin_header (zt_connection tr)) (BeginDatagram tr (Buffer_new BigEndian)))
     = enc_datagram (zt_connection tr) (fin_header (zt_connection tr)) []"
  "length (enc_datagram (zt_connection tr) (fin_header (zt_connection tr)) []) \<le> relay_overhead (zt_connection tr) + kZDTHeaderReserve"
proof -
  let ?d = "enc_datagram (zt_connection tr) (fin_header (zt_connection tr)) []"
  show len: "length ?d \<le> relay_overhead (zt_connection tr) + kZDTHeaderReserve"
    using length_enc_header [OF fin_header_ok, of BigEndian "zt_connection tr"]
    by (simp add: enc_datagram_def length_relay_prefix) (simp add: fin_header_def ZDTHeader_init_def zdt_sizes)
  have "relay_overhead (zt_connection tr) + kZDTHeaderReserve < 2 ^ 61"
    by (simp add: relay_overhead_def kZDTRelayHeaderSize_def zdt_sizes)
  then have "length ?d < 2 ^ 61" using len by linarith
  from emitted_scratch(1) [OF emits_datagram [OF fin_header_ok [of "zt_connection tr"], where tr = tr and batch = "[]"] net_of_scratch_new this]
  show "buf_bytes (WriteZDTHeader (fin_header (zt_connection tr)) (BeginDatagram tr (Buffer_new BigEndian))) = ?d"
    by (simp add: Buffer_Reset_def Buffer_new_def Let_def)
qed

lemma Close_eq:
  assumes "\<not> zt_is_closed tr"
  shows "snd (Close tr) = (let tr = tr\<lparr>zt_is_closed := True\<rparr>;
      tr = (case (net_socket (zt_net tr), net_peer (zt_net tr)) of
              (Some sock, Some peer) \<Rightarrow> SendTo sock peer (enc_datagram (zt_connection tr) (fin_header (zt_connection tr)) []) tr
            | _ \<Rightarrow> tr)
    in case net_socket (zt_net tr) of
         Some sock \<Rightarrow> if net_drains_own_socket (zt_net tr)
           then tr\<lparr>zt_net := (zt_net tr)\<lparr>net_shut := net_shut (zt_net tr) @ [sock]\<rparr>\<rparr> else tr
       | None \<Rightarrow> tr)"
proof -
  let ?c = "zt_connection tr"
  have h: "fin_header ?c = (let header = ZDTHeader_init\<lparr>hdr_flags := kFlagOnline OR kFlagFin\<rparr>;
      header = (if conn_migration_enabled ?c then header\<lparr>hdr_flags := hdr_flags header OR kFlagHasCid, hdr_cid := conn_local_guid ?c\<rparr>
                else header) in header\<lparr>hdr_packet_seq := 0\<rparr>)"
    by (simp add: fin_header_def Let_def or.assoc)
  define bs where "bs = enc_datagram ?c (fin_header ?c) []"
  have "buf_bytes (WriteZDTHeader (fin_header ?c) (BeginDatagram (tr\<lparr>zt_is_closed := True\<rparr>) (Buffer_new BigEndian))) = bs"
    using fin_bytes(1) [of "tr\<lparr>zt_is_closed := True\<rparr>"] by (simp add: bs_def)
  then have w: "buf_bytes (WriteZDTHeader (let header = ZDTHeader_init\<lparr>hdr_flags := kFlagOnline OR kFlagFin\<rparr>;
      header = (if conn_migration_enabled ?c then header\<lparr>hdr_flags := hdr_flags header OR kFlagHasCid, hdr_cid := conn_local_guid ?c\<rparr>
                else header) in header\<lparr>hdr_packet_seq := 0\<rparr>)
      (BeginDatagram (tr\<lparr>zt_is_closed := True\<rparr>) (Buffer_new BigEndian))) = bs" by (simp only: h)
  have e: "enc_datagram (zt_connection (tr\<lparr>zt_is_closed := True\<rparr>)) (fin_header (zt_connection (tr\<lparr>zt_is_closed := True\<rparr>))) [] = bs"
    by (simp add: bs_def)
  show ?thesis
    unfolding Let_def e using assms w
    by (cases "net_socket (zt_net tr)"; cases "net_peer (zt_net tr)"; cases "conn_migration_enabled ?c")
      (simp_all add: Close_def Let_def SendTo_def cong: option.case_cong if_cong)
qed

lemma wire_Close:
  assumes "zt_connection tr = conn" and "wire_ok conn tr"
  shows "wire_ok conn (snd (Close tr))"
proof (cases "zt_is_closed tr")
  case True
  then show ?thesis using assms by (simp add: Close_def)
next
  case False
  have "kZDTHeaderReserve \<le> conn_budget conn" by (simp add: conn_budget_def)
  then show ?thesis using assms fin_bytes(2) [of tr]
    by (auto simp: Close_eq [OF False] wire_ok_def SendTo_def Let_def split: option.splits)
qed

interpretation wire: run_invariant conn "wire_ok conn" for conn
proof (unfold_locales, goal_cases)
  case (3 tr)
  then show ?case by (simp add: wire_Close base_def)
qed (auto simp: wire_SendBatch, auto simp: wire_ok_def take_send_seq_def StageOutbound_def PruneReassembly_tr_def Let_def split_beta split: option.split)

section \<open>Bytes held for reassembly\<close>

definition rx_ok :: "ZDTOptions \<Rightarrow> ZDTTransport \<Rightarrow> bool" where
  "rx_ok config tr \<longleftrightarrow> zt_config tr = config \<and> max_reassemblies config \<le> 2 ^ 32 \<and> reassembly_ok config (zt_rx tr)"

interpretation reassembly: run_invariant conn "rx_ok config" for conn config
proof (unfold_locales, goal_cases)
  case (13 tr data now r)
  then show ?case by (simp add: rx_ok_def OnRecord_accounts)
next
  case (14 tr now)
  then show ?case by (simp add: rx_ok_def PruneReassembly_tr_def PruneReassembly_accounts)
qed (simp_all add: rx_ok_def, simp_all add: reassembly_ok_def take_send_seq_def StageOutbound_def Let_def split_beta)

section \<open>Properties\<close>

lemma base_new: "conn_mtu connection \<noteq> 0 \<Longrightarrow>
    base connection (ZDTTransport_new t socket peer config own inbox connection common)"
  by (simp add: base_def ZDTTransport_new_def om_ok_def)

text \<open>
  C30. The number of datagrams in flight, which the send window is compared with, is exact:
  after any sequence of calls it is the number of datagrams on record that carry a
  reliable message; the sequence number 0 is never used for one of them, and none is on
  record with more messages than a datagram can carry.
\<close>

theorem in_flight_exact:
  assumes "conn_mtu connection \<noteq> 0"
    and "tr = run_transport (ZDTTransport_new t socket peer config own inbox connection common) calls"
  shows "zt_in_flight_datagrams tr = length (filter (\<lambda>(seq, info). si_keys info \<noteq> []) (zt_sent_packets tr))
    \<and> distinct (map fst (zt_sent_packets tr)) \<and> zt_next_packet_seq tr \<noteq> 0 \<and> 0 \<notin> fst ` set (zt_sent_packets tr)
    \<and> list_all (\<lambda>(seq, info). length (si_keys info) \<le> si_kMaxKeys) (zt_sent_packets tr)"
proof -
  have "flight_ok (ZDTTransport_new t socket peer config own inbox connection common)"
    by (simp add: flight_ok_def ZDTTransport_new_def om_ok_def)
  then have "flight_ok tr"
    using flight.good_run [of connection] base_new [OF assms(1)] assms(2) by (simp add: flight.good_def)
  moreover have "om_total carries_keys m = length (filter (\<lambda>(seq, info). si_keys info \<noteq> []) m)" for m
    by (induction m) (auto simp: carries_keys_def)
  ultimately show ?thesis
    by (auto simp: flight_ok_def om_ok_def strict_sorted_iff list_all_iff simp flip: om_find_None)
qed

theorem in_flight_exact_witness:
  "zt_in_flight_datagrams (run_transport sample_transport (sample_send @ [CallFlush 5]))
     = length (filter (\<lambda>(seq, info). si_keys info \<noteq> []) (zt_sent_packets (run_transport sample_transport (sample_send @ [CallFlush 5]))))"
  using in_flight_exact [OF sample_run(2) refl, of 0 "Some 3" "Some (InetAddressIPv4 [10, 0, 0, 1] 4000)" ZDTOptions_default False None
      CommonOptions_default "sample_send @ [CallFlush 5]"]
  by (simp only: sample_transport_def)

text \<open>
  C31. No datagram is larger than the path was probed for: whatever the application sends and
  the peer answers, the bytes handed to the socket never exceed the settled MTU, provided
  it leaves room for the headers and one byte of a fragment.
\<close>

theorem datagrams_within_mtu:
  assumes "kZDTRelayHeaderSize + kZDTCidSize + kZDTHeaderReserve + kZDTFragRecordHeaderSize < unat (conn_mtu connection)"
    and "tr = run_transport (ZDTTransport_new t socket peer config own inbox connection common) calls"
    and "(sock, to, bs) \<in> set (net_wire (zt_net tr))"
  shows "length bs \<le> unat (conn_mtu connection)"
proof -
  have m: "conn_mtu connection \<noteq> 0" using assms(1) by auto
  have "wire_ok connection (ZDTTransport_new t socket peer config own inbox connection common)"
    by (simp add: wire_ok_def ZDTTransport_new_def net_of_scratch_new)
  then have "wire_ok connection tr"
    using wire.good_run [of connection] base_new [OF m] assms(2) by (simp add: wire.good_def)
  then have "length bs \<le> relay_overhead connection + conn_budget connection" using assms(3) by (auto simp: wire_ok_def)
  also have "\<dots> \<le> unat (conn_mtu connection)"
    using assms(1) by (auto simp: relay_overhead_def conn_budget_def conn_mtu_left_def Let_def zdt_sizes)
  finally show ?thesis .
qed

theorem datagrams_within_mtu_witness:
  "net_wire (zt_net (run_transport sample_transport [CallClose]))
     = [(3, InetAddressIPv4 [10, 0, 0, 1] 4000, enc_datagram ZDTConnection_default (fin_header ZDTConnection_default) [])]
   \<and> length (enc_datagram ZDTConnection_default (fin_header ZDTConnection_default) []) \<le> 1200"
proof -
  let ?d = "enc_datagram ZDTConnection_default (fin_header ZDTConnection_default) []"
  have "\<not> zt_is_closed sample_transport" by (simp add: sample_transport_def ZDTTransport_new_def)
  then have w: "net_wire (zt_net (run_transport sample_transport [CallClose])) = [(3, InetAddressIPv4 [10, 0, 0, 1] 4000, ?d)]"
    using Close_eq [of sample_transport] by (simp add: Let_def) (simp add: sample_transport_def ZDTTransport_new_def SendTo_def)
  have "length ?d \<le> unat (conn_mtu ZDTConnection_default)"
    by (rule datagrams_within_mtu [where calls = "[CallClose]" and t = 0 and socket = "Some 3"
        and peer = "Some (InetAddressIPv4 [10, 0, 0, 1] 4000)" and config = ZDTOptions_default and own = False and inbox = None
        and common = CommonOptions_default and sock = 3 and to = "InetAddressIPv4 [10, 0, 0, 1] 4000", OF _ refl])
      (use w in \<open>simp_all add: ZDTConnection_default_def kZDTRelayHeaderSize_def zdt_sizes flip: sample_transport_def [unfolded ZDTConnection_default_def]\<close>)
  then show ?thesis using w by (simp add: ZDTConnection_default_def)
qed

text \<open>
  C32. The receiver's memory for unfinished messages is accounted for exactly and bounded: after
  any sequence of calls the byte counter is the sum of the fragments held, there are at
  most \<open>max_reassemblies\<close> unfinished messages, none of them complete, and together they
  hold at most 16 MiB each.
\<close>

theorem reassembly_accounted:
  assumes "conn_mtu connection \<noteq> 0" and "max_reassemblies config \<le> 2 ^ 32"
    and "tr = run_transport (ZDTTransport_new t socket peer config own inbox connection common) calls"
  shows "rx_reassembly_bytes (zt_rx tr) = sum_list (map (\<lambda>(key, a). sum_list (map (\<lambda>(i, bs). length bs) (ra_fragments a))) (rx_reassembly (zt_rx tr)))
    \<and> length (rx_reassembly (zt_rx tr)) \<le> max_reassemblies config
    \<and> list_all (\<lambda>(key, a). length (ra_fragments a) < unat (ra_frag_count a)) (rx_reassembly (zt_rx tr))
    \<and> rx_reassembly_bytes (zt_rx tr) \<le> max_reassemblies config * 2 ^ 24"
proof -
  have "rx_ok config (ZDTTransport_new t socket peer config own inbox connection common)"
    using assms(2) by (simp add: rx_ok_def reassembly_ok_def ZDTTransport_new_def om_ok_def)
  then have ok: "rx_ok config tr"
    using reassembly.good_run [of connection] base_new [OF assms(1)] assms(3) by (simp add: reassembly.good_def)
  have t: "om_total (\<lambda>_. length) m = sum_list (map (\<lambda>(i, bs). length bs) m)" for m :: "(u8, bytes) omap"
    by (induction m) auto
  have "om_total (\<lambda>_. held) m = sum_list (map (\<lambda>(key, a). sum_list (map (\<lambda>(i, bs). length bs) (ra_fragments a))) m)" for m :: "(MsgKey, Reassembly) omap"
    by (induction m) (auto simp: held_def t)
  then show ?thesis
    using ok reassembly_bytes_bound [of config "zt_rx tr"] by (auto simp: rx_ok_def reassembly_ok_def assembly_ok_def list_all_iff)
qed

theorem reassembly_accounted_witness:
  "length (rx_reassembly (zt_rx (run_transport sample_transport (sample_send @ [CallFlush 5])))) \<le> 256"
  using reassembly_accounted [OF sample_run(2) _ refl, of ZDTOptions_default 0 "Some 3" "Some (InetAddressIPv4 [10, 0, 0, 1] 4000)" False None
      CommonOptions_default "sample_send @ [CallFlush 5]", folded sample_transport_def]
  by (simp add: ZDTOptions_default_def)

end
