(* ===== verification/Zdt_Reliability.thy ===== *)
theory Zdt_Reliability
  imports Zdt_Guarantees
begin

text \<open>
  Acknowledgment and retransmission: what an acknowledged datagram retires, that the window on
  the sequence numbers keeps them unambiguous for the receiver, and what happens to a
  message that runs out of retries.
\<close>

section \<open>Acknowledgment\<close>

lemma unacked_Retires: "zt_unacked (foldl (\<lambda>tr seq. if seq \<noteq> s then RetireSentPacket seq tr else tr) tr seqs) = zt_unacked tr"
  by (induction seqs arbitrary: tr) simp_all

lemma unacked_ack_key: "om_ok (zt_unacked tr) \<Longrightarrow> zt_unacked (ack_key s tr key) = om_erase key (zt_unacked tr)"
  by (auto simp: ack_key_def Let_def unacked_Retires erase_absent split: option.split)

lemma unacked_ack_keys:
  "om_ok (zt_unacked tr) \<Longrightarrow> zt_unacked (foldl (ack_key s) tr keys) = foldl (\<lambda>m key. om_erase key m) (zt_unacked tr) keys"
  by (induction keys arbitrary: tr) (simp_all add: unacked_ack_key)

lemma find_erase_all:
  "om_ok m \<Longrightarrow> om_find k (foldl (\<lambda>m key. om_erase key m) m keys) = (if k \<in> set keys then None else om_find k m)"
  by (induction keys arbitrary: m) auto

lemma flight_ack_keys: "flight_ok tr \<Longrightarrow> flight_ok (foldl (ack_key s) tr keys)"
proof (induction keys arbitrary: tr)
  case (Cons key keys)
  have "flight_ok (foldl (\<lambda>tr seq. if seq \<noteq> s then RetireSentPacket seq tr else tr) tr seqs)" if "flight_ok tr" for seqs tr
    using that by (induction seqs arbitrary: tr) (simp_all add: flight_Retire)
  then have "flight_ok (ack_key s tr key)"
    using Cons.prems by (auto simp: ack_key_def Let_def flight_ok_def split: option.split)
  then show ?case using Cons.IH by simp
qed simp

text \<open>
  C33. Acknowledging a datagram retires exactly what it carried: the messages filed with it are
  no longer awaiting an acknowledgment, every other message still is, as it was, and the
  datagram is off the record, with the count of datagrams in flight still exact. A
  sequence number that is not on record changes nothing.
\<close>

theorem ack_retires_its_messages:
  assumes "flight_ok tr" and "om_ok (zt_unacked tr)" and "AckPacket seq arrival tr = (fresh, tr')"
  shows "case om_find seq (zt_sent_packets tr) of
      None \<Rightarrow> \<not> fresh \<and> tr' = tr
    | Some info \<Rightarrow> fresh \<and> flight_ok tr' \<and> om_find seq (zt_sent_packets tr') = None
        \<and> (\<forall>key. om_find key (zt_unacked tr') = (if key \<in> set (si_keys info) then None else om_find key (zt_unacked tr)))"
proof (cases "om_find seq (zt_sent_packets tr)")
  case None
  then show ?thesis using assms(3) by (auto simp: AckPacket_def split: if_splits)
next
  case (Some info)
  then have s: "seq \<noteq> 0" using assms(1) by (auto simp: flight_ok_def)
  let ?tr = "tr\<lparr>zt_rtt := OnSample (arrival - si_send_time info) arrival (rto_min (zt_config tr)) (rto_max (zt_config tr)) (zt_rtt tr)\<rparr>"
  let ?acked = "foldl (ack_key seq) ?tr (si_keys info)"
  have t: "fresh" "tr' = RetireSentPacket seq ?acked" using assms(3) Some s by (auto simp: AckPacket_def Let_def)
  have "flight_ok ?tr" using assms(1) by (simp add: flight_ok_def)
  then have "flight_ok ?acked" by (rule flight_ack_keys)
  moreover have "zt_unacked ?acked = foldl (\<lambda>m key. om_erase key m) (zt_unacked tr) (si_keys info)"
    using unacked_ack_keys [of ?tr seq "si_keys info"] assms(2) by simp
  ultimately show ?thesis using Some t flight_Retire [of ?acked seq] find_erase_all [OF assms(2)] by simp
qed

theorem ack_retires_its_messages_witness:
  "fst (AckPacket 9 5 sample_transport) = False \<and> snd (AckPacket 9 5 sample_transport) = sample_transport"
proof -
  have "flight_ok sample_transport" "om_ok (zt_unacked sample_transport)" "om_find 9 (zt_sent_packets sample_transport) = None"
    by (simp_all add: flight_ok_def sample_transport_def ZDTTransport_new_def om_ok_def)
  then show ?thesis
    using ack_retires_its_messages [of sample_transport 9 5 "fst (AckPacket 9 5 sample_transport)" "snd (AckPacket 9 5 sample_transport)"]
    by simp
qed

section \<open>The window on the sequence numbers\<close>

lemma channel_key_le:
  assumes "MsgKey c True 0 0 \<le> k" and "key_channel k = c" and "key_reliable k" and "k \<le> k'" and "key_channel k' = c" and "key_reliable k'"
  shows "key_message_seq k \<le> key_message_seq k'"
  using assms by (auto simp: less_eq_MsgKey_def key_tie_def less_eq_prod_def)

lemma channel_key_bottom: "key_channel k = c \<Longrightarrow> key_reliable k \<Longrightarrow> MsgKey c True 0 0 \<le> k"
  by (auto simp: less_eq_MsgKey_def key_tie_def less_eq_prod_def)


definition sample_in_flight :: ZDTTransport where
  "sample_in_flight = sample_transport\<lparr>
     zt_unacked := [(MsgKey 0 True 0 65530, \<lparr>or_message = Buffer_new LittleEndian, or_offset = 0, or_length = 0, or_channel = 0,
       or_message_seq = 65530, or_frag_index = 0, or_frag_count = 1, or_data_flags = kRecReliable, or_last_send = 0,
       or_send_count = 10, or_packets = TransmissionLog_empty\<rparr>)],
     zt_rx := (zt_rx sample_transport)\<lparr>rx_channels := (\<lambda>_. ChannelState_init\<lparr>rel_send := 65540\<rparr>)\<rparr>\<rparr>"


section \<open>Giving up\<close>

lemma SendBatch_rtt [simp]: "zt_rtt (snd (SendBatch now fl batch tr)) = zt_rtt tr"
  by (simp add: SendBatch_def Let_def SendTo_def split: option.split)

lemma scan_resend:
  assumes "om_ok (zt_unacked tr)" and "om_find key (zt_unacked tr) = Some msg"
  obtains msg' where "zt_unacked (ResendReliable now key msg tr) = om_assign key msg' (zt_unacked tr)"
    and "zt_rtt (ResendReliable now key msg tr) = zt_rtt tr" and "zt_config (ResendReliable now key msg tr) = zt_config tr"
    and "or_send_count msg' = or_send_count msg"
proof -
  let ?p = "resend_record key msg"
  obtain packet tr1 where s: "SendBatch now 0 [?p] tr = (packet, tr1)" by fastforce
  note f = SendBatch_frame(1,4) [of now 0 "[?p]" tr, unfolded s snd_conv] SendBatch_rtt [of now 0 "[?p]" tr, unfolded s snd_conv]
  show ?thesis
    by (rule that [of "msg\<lparr>or_packets := log_Add packet (or_packets msg)\<rparr>"])
      (use s f in \<open>simp_all add: ResendReliable_def Let_def resend_record_def\<close>)
qed

text \<open>A scan that reaches a message out of retries closes the transport.\<close>

lemma scan_gives_up:
  assumes "om_ok (zt_unacked tr)" and "key \<in> set keys" and "distinct keys" and "om_find key (zt_unacked tr) = Some msg"
    and "resend_threshold msg tr \<le> now - or_last_send msg" and "max_retries (zt_config tr) \<le> or_send_count msg"
  shows "fst (retransmit_scan now keys earliest timed_out tr) = None
    \<and> zt_is_closed (snd (retransmit_scan now keys earliest timed_out tr))"
  using assms
proof (induction keys arbitrary: tr earliest timed_out)
  case (Cons k keys)
  show ?case
  proof (cases "k = key")
    case True
    then show ?thesis using Cons.prems by (simp add: Let_def)
  next
    case False
    then have k: "key \<in> set keys" "distinct keys" using Cons.prems by auto
    show ?thesis
    proof (cases "om_find k (zt_unacked tr)")
      case None
      then show ?thesis using Cons.IH [OF Cons.prems(1) k] Cons.prems by simp
    next
      case (Some m)
      obtain m' where r: "zt_unacked (ResendReliable now k m tr) = om_assign k m' (zt_unacked tr)"
          "zt_rtt (ResendReliable now k m tr) = zt_rtt tr" "zt_config (ResendReliable now k m tr) = zt_config tr"
        using scan_resend [OF Cons.prems(1) Some] by metis
      define tr2 where "tr2 = (let tr = ResendReliable now k m tr;
          tr = (case om_find k (zt_unacked tr) of Some msg \<Rightarrow> tr\<lparr>zt_unacked := om_assign k
              (msg\<lparr>or_last_send := now, or_send_count := or_send_count msg + 1\<rparr>) (zt_unacked tr)\<rparr> | None \<Rightarrow> tr)
        in tr\<lparr>zt_tail_probe_at := now + TailProbeDelay tr\<rparr>)"
      have t: "om_ok (zt_unacked tr2)" "om_find key (zt_unacked tr2) = Some msg" "zt_rtt tr2 = zt_rtt tr" "zt_config tr2 = zt_config tr"
        using r Cons.prems(1,4) False by (simp_all add: tr2_def Let_def)
      then have "resend_threshold msg tr2 = resend_threshold msg tr" by (simp add: resend_threshold_def)
      then have ih: "fst (retransmit_scan now keys e b tr2) = None \<and> zt_is_closed (snd (retransmit_scan now keys e b tr2))" for e b
        using Cons.IH [OF t(1) k t(2)] Cons.prems(5,6) t(4) by simp
      show ?thesis
        using ih Cons.IH [OF Cons.prems(1) k] Cons.prems(4-6) Some by (simp add: Let_def flip: tr2_def [unfolded Let_def])
    qed
  qed
qed simp



end
