(* ===== verification/Buffer_Layout.thy ===== *)
theory Buffer_Layout
  imports Buffer_Stream
begin

text \<open>
  How the send pipeline lays out a message in one buffer: headroom in front, an exact
  reservation, fields written in place, a header that is skipped and filled in afterwards,
  and bytes prepended into the headroom. The lemmas give the readable bytes after each of
  these steps; \<open>spare b n\<close> says that \<open>n\<close> more bytes fit without another allocation.
\<close>

definition spare :: "Buffer \<Rightarrow> nat \<Rightarrow> bool" where
  "spare b n \<longleftrightarrow> stream_ok b \<and> buf_read_limit b = size_max \<and> buf_data b \<noteq> None
     \<and> buf_write_cursor b + n \<le> buf_allocated_size b \<and> buf_allocated_size b < 2 ^ 61"

lemma spare_room: "spare b n \<Longrightarrow> room b n"
  by (simp add: spare_def room_def)

lemma spare_stream_ok: "spare b n \<Longrightarrow> stream_ok b"
  by (simp add: spare_def)

lemma room_headroom: "h + n < 2 ^ 61 \<Longrightarrow> room (ReserveHeadroom h (Buffer_new e)) n"
  by (simp add: room_def ReserveHeadroom_def stream_ok_def buf_wf_def Buffer_new_def readable_bytes_eq
      size_max_def)

lemma headroom_new [simp]:
  "contents (ReserveHeadroom h (Buffer_new e)) = []"
  "buf_endianness (ReserveHeadroom h (Buffer_new e)) = e"
  "buf_last_error (ReserveHeadroom h (Buffer_new e)) = NoBufferError"
  "buf_data (ReserveHeadroom h (Buffer_new e)) = None"
  "buf_write_cursor (ReserveHeadroom h (Buffer_new e)) = h"
  "buf_read_cursor (ReserveHeadroom h (Buffer_new e)) = h"
  by (simp_all add: ReserveHeadroom_def Buffer_new_def contents_def readable_bytes_eq read_cursor_data_def)

lemma appended_Nil_room: "appended b b' [] \<Longrightarrow> room b n \<Longrightarrow> room b' n"
  using appended_room [of b b' "[]" n] by simp

section \<open>Reserving\<close>

context total_allocator
begin

lemma ReserveExact_spare:
  assumes "room b n" and "buf_data b = None" and "buf_write_cursor b + n \<le> sz" and "sz < 2 ^ 61"
  shows "appended b (snd (ReserveExact nw sz b)) []" and "spare (snd (ReserveExact nw sz b)) n"
proof -
  obtain d where d: "nw sz = Some d" "length d = sz" using new_obtain [of sz] assms(4) by auto
  then have r: "snd (ReserveExact nw sz b) = b\<lparr>buf_data := Some d, buf_allocated_size := sz\<rparr>"
    using assms(2) by (simp add: ReserveExact_def Reserve_def)
  show "appended b (snd (ReserveExact nw sz b)) []"
    unfolding r using assms d
    by (auto simp: appended_def room_def stream_ok_def buf_wf_def contents_def readable_bytes_eq)
  then show "spare (snd (ReserveExact nw sz b)) n"
    using assms unfolding r by (simp add: spare_def appended_def room_def)
qed

text \<open>A reservation the buffer has room for leaves the bytes as they are.\<close>

lemma ReserveIncremental_ignored:
  "room b n \<Longrightarrow> appended b (snd (ReserveIncremental nw n b)) []"
  by (rule ReserveIncremental_ok [of b n]) (auto simp: room_def)

end

section \<open>Writing in place\<close>

lemma spare_noop: "spare b n \<Longrightarrow> ReserveIncremental nw n b = (True, b)"
  by (auto simp: spare_def stream_ok_def buf_wf_def intro!: ReserveIncremental_noop)

lemma spare_poke:
  assumes "spare b (length bs + n)"
  shows "appended b (CommitWrite (length bs) (poke (buf_write_cursor b) bs b)) bs"
    and "spare (CommitWrite (length bs) (poke (buf_write_cursor b) bs b)) n"
proof -
  obtain d where d: "buf_data b = Some d" "length d = buf_allocated_size b"
    using assms by (auto simp: spare_def stream_ok_def buf_wf_def)
  show a: "appended b (CommitWrite (length bs) (poke (buf_write_cursor b) bs b)) bs"
    using assms d by (intro appended_poke [where d = d]) (simp_all add: spare_def)
  have "buf_data (CommitWrite (length bs) (poke (buf_write_cursor b) bs b)) \<noteq> None"
    "buf_allocated_size (CommitWrite (length bs) (poke (buf_write_cursor b) bs b)) = buf_allocated_size b"
    using d by (simp_all add: CommitWrite_def poke_def)
  then show "spare (CommitWrite (length bs) (poke (buf_write_cursor b) bs b)) n"
    using assms a by (simp add: spare_def appended_def)
qed

lemma spare_mono: "spare b n \<Longrightarrow> m \<le> n \<Longrightarrow> spare b m"
  by (simp add: spare_def)

lemma spare_Write:
  assumes "spare b (length bs + n)"
  shows "appended b (Write nw bs b) bs" and "spare (Write nw bs b) n"
  using spare_poke [OF assms] spare_noop [OF spare_mono [OF assms, of "length bs"]]
  by (simp_all add: Write_def)

lemma spare_WriteByte:
  assumes "spare b (1 + n)"
  shows "appended b (WriteInt nw (x :: u8) b) [x]" and "spare (WriteInt nw x b) n"
  using spare_poke [of b "[x]" n] assms spare_noop [OF spare_mono [OF assms, of 1]]
  by (simp_all add: WriteInt_def WriteNumber_def to_wire_order_eq)

text \<open>Bytes skipped while writing are whatever the allocation held there.\<close>

lemma spare_SkipWrite:
  assumes "spare b (k + n)"
  obtains gap where "length gap = k" and "appended b (SkipWrite nw k b) gap" and "spare (SkipWrite nw k b) n"
proof -
  obtain d where d: "buf_data b = Some d" "length d = buf_allocated_size b"
    using assms by (auto simp: spare_def stream_ok_def buf_wf_def)
  define gap where "gap = take k (drop (buf_write_cursor b) d)"
  have len: "length gap = k" using assms d by (simp add: gap_def spare_def min_def) linarith
  have "overlay d (buf_write_cursor b) gap = d"
    using len append_take_drop_id [of k "drop (buf_write_cursor b) d"]
    by (simp add: overlay_def gap_def add.commute)
  then have "poke (buf_write_cursor b) gap b = b" using d by (simp add: poke_def)
  then have "SkipWrite nw k b = CommitWrite (length gap) (poke (buf_write_cursor b) gap b)"
    using spare_noop [OF spare_mono [OF assms, of k]] len by (simp add: SkipWrite_def)
  then show thesis using that [OF len] spare_poke [of b gap n] assms len by simp
qed

section \<open>Filling in a skipped field\<close>

lemma stream_overlay:
  assumes "stream_ok b" and "buf_read_limit b = size_max" and "buf_data b = Some d"
    and "contents b = xs @ ys @ zs" and "length hs = length ys"
  shows "stream_ok (poke (buf_read_cursor b + length xs) hs b)"
    and "contents (poke (buf_read_cursor b + length xs) hs b) = xs @ hs @ zs"
proof -
  let ?rc = "buf_read_cursor b" let ?b = "poke (?rc + length xs) hs b"
  have len: "length d = buf_allocated_size b" "?rc \<le> buf_write_cursor b" "buf_write_cursor b \<le> length d"
    using assms(1,3) by (auto simp: stream_ok_def buf_wf_def)
  have c: "drop ?rc (take (buf_write_cursor b) d) = xs @ ys @ zs"
    using contents_full [OF assms(1-3)] assms(4) by simp
  define p q where "p = take ?rc d" and "q = drop (buf_write_cursor b) d"
  have "take (buf_write_cursor b) d = p @ xs @ ys @ zs"
    using append_take_drop_id [of ?rc "take (buf_write_cursor b) d"] c len
    by (simp add: p_def min_def)
  then have d: "d = p @ xs @ ys @ zs @ q" "length p = ?rc"
    and "length (take (buf_write_cursor b) d) = length (p @ xs @ ys @ zs)"
    using append_take_drop_id [of "buf_write_cursor b" d] len by (auto simp: q_def p_def)
  then have n: "buf_write_cursor b = length (p @ xs @ ys @ zs)" using len by simp
  have b: "buf_data ?b = Some (overlay d (?rc + length xs) hs)" using assms(3) by (simp add: poke_def)
  have f: "buf_read_cursor ?b = ?rc" "buf_write_cursor ?b = buf_write_cursor b" "buf_read_limit ?b = size_max"
    "buf_allocated_size ?b = buf_allocated_size b"
    using assms(2) by (simp_all add: poke_def)
  show ok: "stream_ok ?b"
    using assms(1,2,5) len d n by (simp add: stream_ok_def buf_wf_def b f)
  have "overlay d (?rc + length xs) hs = p @ xs @ hs @ zs @ q"
    unfolding d(1) using assms(5) d(2) by (simp add: overlay_def)
  then show "contents ?b = xs @ hs @ zs"
    using contents_full [OF ok f(3) b] d(2) n assms(5) by (simp add: f)
qed

text \<open>A message behind at least \<open>k\<close> bytes of headroom.\<close>

definition headroom :: "nat \<Rightarrow> Buffer \<Rightarrow> bool" where
  "headroom k b \<longleftrightarrow> stream_ok b \<and> buf_read_limit b = size_max \<and> buf_data b \<noteq> None \<and> k \<le> buf_read_cursor b"

text \<open>
  The write cursor is set to a field inside the message, the field is written, and the cursor
  is set to the end again.
\<close>

lemma backfill:
  assumes "headroom k b" and "contents b = xs @ ys @ zs" and "length hs = length ys"
    and "pos = buf_read_cursor b + length xs" and "fin = buf_write_cursor b"
  shows "headroom k (set_write_cursor fin (Write nw hs (set_write_cursor pos b)))"
    and "contents (set_write_cursor fin (Write nw hs (set_write_cursor pos b))) = xs @ hs @ zs"
    and "buf_endianness (set_write_cursor fin (Write nw hs (set_write_cursor pos b))) = buf_endianness b"
    and "buf_last_error (set_write_cursor fin (Write nw hs (set_write_cursor pos b))) = buf_last_error b"
proof -
  obtain d where d: "buf_data b = Some d" "length d = buf_allocated_size b"
    using assms(1) by (auto simp: headroom_def stream_ok_def buf_wf_def)
  have ok: "stream_ok b" "buf_read_limit b = size_max" using assms(1) by (simp_all add: headroom_def)
  let ?b = "poke pos hs b"
  have len: "length (contents b) = buf_write_cursor b - buf_read_cursor b" "buf_write_cursor b < 2 ^ 62"
    using ok length_contents [OF ok(1)]
    by (simp_all add: readable_bytes_eq stream_ok_def size_max_def min_def)
  then have fit: "pos + length hs \<le> buf_write_cursor b"
    using assms(2-4) ok(1) by (simp add: stream_ok_def) linarith
  have "ReserveIncremental nw (length hs) (set_write_cursor pos b) = (True, set_write_cursor pos b)"
    by (rule ReserveIncremental_noop [where d = d])
      (use ok(1) d fit len in \<open>auto simp: set_write_cursor_def stream_ok_def buf_wf_def\<close>)
  then have eq: "set_write_cursor fin (Write nw hs (set_write_cursor pos b)) = ?b"
    using assms(5) d
    by (simp add: Write_def CommitWrite_def set_write_cursor_def poke_def)
  note o = stream_overlay [OF ok d(1) assms(2,3), folded assms(4)]
  show "headroom k (set_write_cursor fin (Write nw hs (set_write_cursor pos b)))"
    unfolding eq using assms(1) o(1) by (simp add: headroom_def) (simp add: poke_def)
  show "contents (set_write_cursor fin (Write nw hs (set_write_cursor pos b))) = xs @ hs @ zs"
    unfolding eq by (rule o(2))
  show "buf_endianness (set_write_cursor fin (Write nw hs (set_write_cursor pos b))) = buf_endianness b"
    and "buf_last_error (set_write_cursor fin (Write nw hs (set_write_cursor pos b))) = buf_last_error b"
    unfolding eq by (simp_all add: poke_def)
qed

text \<open>Writing an integer is writing its bytes.\<close>

lemma WriteInt_Write: "WriteInt nw w b = Write nw (enc_int (buf_endianness b) w) b"
proof -
  have "buf_endianness (snd (ReserveIncremental nw n b)) = buf_endianness b" for n
    by (auto simp: ReserveIncremental_def Reserve_def Let_def set_error_def split: option.split)
  then show ?thesis
    by (auto simp: WriteInt_def WriteNumber_def Write_def enc_int_def to_wire_order_eq case_prod_beta)
qed

section \<open>Prepending into the headroom\<close>

lemma PrependInt8_headroom:
  assumes "headroom (Suc k) b"
  obtains b' where "PrependInt8 x b = (True, b')" and "headroom k b'" and "contents b' = x # contents b"
    and "buf_endianness b' = buf_endianness b" and "buf_last_error b' = buf_last_error b"
proof -
  obtain d where d: "buf_data b = Some d" using assms by (auto simp: headroom_def)
  let ?c = "b\<lparr>buf_read_cursor := buf_read_cursor b - 1\<rparr>"
  have b: "stream_ok b" "buf_read_limit b = size_max" "Suc k \<le> buf_read_cursor b"
    using assms by (simp_all add: headroom_def)
  then have len: "buf_read_cursor b \<le> buf_write_cursor b" "buf_write_cursor b \<le> length d"
    using d by (simp_all add: stream_ok_def buf_wf_def)
  have c: "stream_ok ?c" "buf_read_limit ?c = size_max" "buf_data ?c = Some d"
    using b d by (auto simp: stream_ok_def buf_wf_def)
  have "contents ?c = [d ! (buf_read_cursor b - 1)] @ contents b"
    using contents_full [OF c] contents_full [OF b(1,2) d] b(3) len
    by (simp add: Cons_nth_drop_Suc [symmetric])
  then have "contents ?c = [] @ [d ! (buf_read_cursor b - 1)] @ contents b" by simp
  note o = stream_overlay [OF c this, of "[x]", simplified]
  have "PrependInt8 x b = (True, poke (buf_read_cursor b - 1) [x] ?c)"
    using b(3) d by (auto simp: PrependInt8_def Let_def)
  moreover have "headroom k (poke (buf_read_cursor b - 1) [x] ?c)"
    using o(1) b(2,3) d by (simp add: headroom_def) (simp add: poke_def)
  ultimately show thesis using that o(2) by (simp add: poke_def)
qed

end
