(* ===== verification/Replay_Window.thy ===== *)
theory Replay_Window
  imports Prelude
begin

text \<open>
  The anti-replay window of the cipher, \<open>ReplayWindow\<close> of \<open>encryption.h\<close>: the highest
  counter seen and a 64-bit map of the ones below it. It is shown to decide exactly as the
  reference that remembers every counter it ever accepted, so no counter passes twice and
  reordering by up to 64 is tolerated.
\<close>

section \<open>The window\<close>

record ReplayWindow =
  rw_highest :: u64
  rw_window :: u64
  rw_seen_any :: bool

definition ReplayWindow_init :: ReplayWindow where
  "ReplayWindow_init = \<lparr>rw_highest = 0, rw_window = 0, rw_seen_any = False\<rparr>"

definition kWidth :: u64 where
  "kWidth = 64"

definition Accept :: "u64 \<Rightarrow> ReplayWindow \<Rightarrow> bool \<times> ReplayWindow" where
  "Accept counter w =
     (if \<not> rw_seen_any w
      then (True, w\<lparr>rw_seen_any := True, rw_highest := counter, rw_window := 0\<rparr>)
      else if counter > rw_highest w
      then let shift = counter - rw_highest w;
               win = (if shift > kWidth then 0
                      else if shift = kWidth then push_bit (unat (kWidth - 1)) 1
                      else push_bit (unat shift) (rw_window w) OR push_bit (unat (shift - 1)) 1)
           in (True, w\<lparr>rw_window := win, rw_highest := counter\<rparr>)
      else let back = rw_highest w - counter
           in if back = 0 \<or> back > kWidth then (False, w)
              else let bt = push_bit (unat (back - 1)) 1
                   in if rw_window w AND bt \<noteq> 0 then (False, w)
                      else (True, w\<lparr>rw_window := rw_window w OR bt\<rparr>))"

section \<open>The reference: remembering every counter\<close>

primrec accept_all :: "u64 list \<Rightarrow> ReplayWindow \<Rightarrow> bool list" where
  "accept_all [] w = []"
| "accept_all (c # cs) w = (let (ok, w1) = Accept c w in ok # accept_all cs w1)"

definition fresh :: "u64 \<Rightarrow> u64 list \<Rightarrow> bool" where
  "fresh c seen \<longleftrightarrow> seen = [] \<or> (\<forall>s\<in>set seen. s < c)
     \<or> (c \<notin> set seen \<and> (\<forall>s\<in>set seen. unat s \<le> unat c + 64))"

primrec accept_spec :: "u64 list \<Rightarrow> u64 list \<Rightarrow> bool list" where
  "accept_spec [] seen = []"
| "accept_spec (c # cs) seen = fresh c seen # accept_spec cs (if fresh c seen then c # seen else seen)"

definition accepted :: "u64 list \<Rightarrow> bool list \<Rightarrow> u64 list" where
  "accepted cs oks = map fst (filter snd (zip cs oks))"

lemma accepted_simps [simp]:
  "accepted [] oks = []"
  "accepted (c # cs) (ok # oks) = (if ok then c # accepted cs oks else accepted cs oks)"
  by (simp_all add: accepted_def)

section \<open>The window is the reference\<close>

definition window_of :: "u64 list \<Rightarrow> ReplayWindow \<Rightarrow> bool" where
  "window_of seen w \<longleftrightarrow> (rw_seen_any w \<longleftrightarrow> seen \<noteq> [])
     \<and> (seen \<noteq> [] \<longrightarrow> rw_highest w \<in> set seen \<and> (\<forall>s\<in>set seen. s \<le> rw_highest w)
          \<and> (\<forall>i<64. bit (rw_window w) i
               \<longleftrightarrow> (\<exists>s\<in>set seen. unat s + Suc i = unat (rw_highest w))))"

lemma single_bit: "(w AND push_bit n 1 \<noteq> 0) \<longleftrightarrow> bit w n" if "n < 64" for w :: u64
  using that by (simp add: push_bit_eq_mult bit_iff_and_push_bit_not_eq_0)

lemma bit_push_one: "i < 64 \<Longrightarrow> bit (2 ^ n :: u64) i \<longleftrightarrow> i = n"
  by (auto simp: bit_exp_iff)

lemma unat_diff: "b \<le> a \<Longrightarrow> unat (a - b) = unat a - unat b" for a b :: u64
  by (simp add: unat_sub)

lemma window_init: "window_of [] ReplayWindow_init"
  by (simp add: window_of_def ReplayWindow_init_def)

lemma Accept_first: "window_of [] w \<Longrightarrow> fst (Accept c w) \<and> window_of [c] (snd (Accept c w))"
  by (simp add: Accept_def window_of_def)

lemma Accept_ahead:
  assumes "window_of seen w" and "seen \<noteq> []" and "rw_highest w < c"
  shows "fst (Accept c w)" and "window_of (c # seen) (snd (Accept c w))"
proof -
  let ?h = "rw_highest w" let ?d = "unat c - unat ?h"
  have any: "rw_seen_any w" and top: "?h \<in> set seen" "\<And>s. s \<in> set seen \<Longrightarrow> s \<le> ?h"
    and bits: "\<And>i. i < 64 \<Longrightarrow> bit (rw_window w) i \<longleftrightarrow> (\<exists>s\<in>set seen. unat s + Suc i = unat ?h)"
    using assms(1,2) by (auto simp: window_of_def)
  have lt: "unat ?h < unat c" using assms(3) by (simp add: word_less_nat_alt)
  have shift: "unat (c - ?h) = ?d" using assms(3) by (simp add: unat_diff)
  have s1: "unat (c - ?h - 1) = ?d - 1" using lt shift by (metis unat_minus_one unat_0 zero_less_diff less_numeral_extra(3))
  have le: "unat s \<le> unat ?h" if "s \<in> set seen" for s
    using top(2) [OF that] by (simp add: word_le_nat_alt)
  show "fst (Accept c w)" using any assms(3) by (simp add: Accept_def Let_def)
  let ?w = "rw_window (snd (Accept c w))"
  have "bit ?w i \<longleftrightarrow> (\<exists>s\<in>set (c # seen). unat s + Suc i = unat c)" if i: "i < 64" for i
  proof -
    have rhs: "(\<exists>s\<in>set (c # seen). unat s + Suc i = unat c) \<longleftrightarrow> (\<exists>s\<in>set seen. unat s + Suc i = unat c)"
      by auto
    consider "?d > 64" | "?d = 64" | "?d < 64" by linarith
    then show ?thesis
    proof cases
      case 1
      then have "?w = 0" using any assms(3) shift by (simp add: Accept_def Let_def kWidth_def word_less_nat_alt)
      moreover have "\<not> (\<exists>s\<in>set seen. unat s + Suc i = unat c)" using le 1 i by force
      ultimately show ?thesis using rhs by simp
    next
      case 2
      then have "c - ?h = 64" using shift by (simp add: word_unat_eq_iff)
      then have "?w = 2 ^ 63" using any assms(3) by (simp add: Accept_def Let_def kWidth_def)
      then have "bit ?w i \<longleftrightarrow> i = 63" using i by (simp only: bit_push_one)
      moreover have "(\<exists>s\<in>set seen. unat s + Suc i = unat c) \<longleftrightarrow> i = 63"
        using le 2 i top(1) lt by force
      ultimately show ?thesis using rhs by simp
    next
      case 3
      then have "?w = push_bit ?d (rw_window w) OR push_bit (?d - 1) 1"
        using any assms(3) shift s1 by (simp add: Accept_def Let_def kWidth_def word_less_nat_alt word_unat_eq_iff)
      then have "bit ?w i \<longleftrightarrow> (?d \<le> i \<and> bit (rw_window w) (i - ?d)) \<or> i = ?d - 1"
        using i 3 by (auto simp: bit_or_iff bit_push_bit_iff bit_push_one)
      also have "\<dots> \<longleftrightarrow> (\<exists>s\<in>set seen. unat s + Suc i = unat c)"
        using bits [of "i - ?d"] le i lt top(1) by force
      finally show ?thesis using rhs by simp
    qed
  qed
  moreover have "rw_highest (snd (Accept c w)) = c" "rw_seen_any (snd (Accept c w))"
    using any assms(3) by (simp_all add: Accept_def Let_def)
  moreover have "\<forall>s\<in>set (c # seen). s \<le> c"
    using top(2) assms(3) by (auto intro: order.trans less_imp_le)
  ultimately show "window_of (c # seen) (snd (Accept c w))"
    unfolding window_of_def by simp
qed

lemma Accept_behind:
  assumes "window_of seen w" and "seen \<noteq> []" and "\<not> rw_highest w < c"
  shows "fst (Accept c w) \<longleftrightarrow> c \<notin> set seen \<and> unat (rw_highest w) \<le> unat c + 64"
    and "window_of (if fst (Accept c w) then c # seen else seen) (snd (Accept c w))"
proof -
  let ?h = "rw_highest w" let ?d = "unat ?h - unat c"
  have any: "rw_seen_any w" and top: "?h \<in> set seen" "\<And>s. s \<in> set seen \<Longrightarrow> s \<le> ?h"
    and bits: "\<And>i. i < 64 \<Longrightarrow> bit (rw_window w) i \<longleftrightarrow> (\<exists>s\<in>set seen. unat s + Suc i = unat ?h)"
    using assms(1,2) by (auto simp: window_of_def)
  have le: "unat c \<le> unat ?h" using assms(3) by (simp add: word_less_nat_alt)
  have dist: "unat (?h - c) = ?d" using assms(3) by (simp add: unat_diff)
  consider "?d = 0" | "64 < ?d" | "0 < ?d" "?d \<le> 64" by linarith
  then have *: "(fst (Accept c w) \<longleftrightarrow> c \<notin> set seen \<and> unat ?h \<le> unat c + 64)
    \<and> window_of (if fst (Accept c w) then c # seen else seen) (snd (Accept c w))"
  proof cases
    case 1
    then have "?h = c" using le by (simp add: word_unat_eq_iff)
    then show ?thesis using any assms top(1) by (simp add: Accept_def)
  next
    case 2
    then have "Accept c w = (False, w)"
      using any assms(3) dist by (simp add: Accept_def Let_def kWidth_def word_less_nat_alt)
    then show ?thesis using 2 assms(1) by auto
  next
    case 3
    let ?bt = "push_bit (?d - 1) 1 :: u64"
    have "?h - c \<noteq> 0" using 3 dist by (metis less_irrefl unat_0)
    moreover from this have "unat (?h - c - 1) = ?d - 1" using dist by (simp add: unat_minus_one)
    ultimately have acc: "Accept c w = (if bit (rw_window w) (?d - 1) then (False, w)
        else (True, w\<lparr>rw_window := rw_window w OR ?bt\<rparr>))"
      using any assms(3) dist 3
      by (simp add: Accept_def Let_def kWidth_def word_less_nat_alt flip: single_bit)
    have "unat s + Suc (?d - 1) = unat ?h \<longleftrightarrow> unat s = unat c" for s :: u64 using 3 le by linarith
    then have "bit (rw_window w) (?d - 1) \<longleftrightarrow> (\<exists>s\<in>set seen. unat s = unat c)"
      using bits [of "?d - 1"] 3 by simp
    then have seen: "bit (rw_window w) (?d - 1) \<longleftrightarrow> c \<in> set seen" by (auto simp: word_unat_eq_iff [symmetric])
    have set: "bit (rw_window w OR ?bt) i \<longleftrightarrow> (\<exists>s\<in>set (c # seen). unat s + Suc i = unat ?h)" if "i < 64" for i
      using bits [OF that] that 3 le by (auto simp: bit_or_iff bit_push_bit_iff bit_push_one)
    show ?thesis
    proof (cases "c \<in> set seen")
      case False
      then have "window_of (c # seen) (w\<lparr>rw_window := rw_window w OR ?bt\<rparr>)"
        using any top assms(3) set by (simp add: window_of_def)
      then show ?thesis using False seen acc 3 le by simp
    qed (use seen acc assms(1) in simp)
  qed
  then show "fst (Accept c w) \<longleftrightarrow> c \<notin> set seen \<and> unat (rw_highest w) \<le> unat c + 64"
    and "window_of (if fst (Accept c w) then c # seen else seen) (snd (Accept c w))" by blast+
qed

lemma Accept_step:
  assumes "window_of seen w"
  shows "fst (Accept c w) \<longleftrightarrow> fresh c seen"
    and "window_of (if fresh c seen then c # seen else seen) (snd (Accept c w))"
proof -
  have "(fst (Accept c w) \<longleftrightarrow> fresh c seen)
    \<and> window_of (if fresh c seen then c # seen else seen) (snd (Accept c w))"
  proof (cases "seen = []")
    case True
    then show ?thesis using Accept_first assms by (simp add: fresh_def)
  next
    case ne: False
    then have top: "rw_highest w \<in> set seen" "\<forall>s\<in>set seen. s \<le> rw_highest w"
      using assms by (simp_all add: window_of_def)
    show ?thesis
    proof (cases "rw_highest w < c")
      case True
      then have "fresh c seen" using top(2) by (auto simp: fresh_def intro: order.strict_trans1)
      then show ?thesis using Accept_ahead [OF assms ne True] by simp
    next
      case False
      have "(\<forall>s\<in>set seen. unat s \<le> unat c + 64) \<longleftrightarrow> unat (rw_highest w) \<le> unat c + 64"
        using top by (force simp: word_le_nat_alt)
      then have "fresh c seen \<longleftrightarrow> c \<notin> set seen \<and> unat (rw_highest w) \<le> unat c + 64"
        using ne False top(1) by (auto simp: fresh_def)
      then show ?thesis using Accept_behind [OF assms ne False] by (simp only: simp_thms)
    qed
  qed
  then show "fst (Accept c w) \<longleftrightarrow> fresh c seen"
    and "window_of (if fresh c seen then c # seen else seen) (snd (Accept c w))" by blast+
qed

lemma accept_all_spec: "window_of seen w \<Longrightarrow> accept_all cs w = accept_spec cs seen"
proof (induction cs arbitrary: seen w)
  case (Cons c cs)
  then show ?case using Accept_step [OF Cons.prems, of c]
    by (simp add: case_prod_beta Let_def del: if_split)
qed simp

lemma accept_spec_distinct:
  "distinct (accepted cs (accept_spec cs seen)) \<and> set (accepted cs (accept_spec cs seen)) \<inter> set seen = {}"
proof (induction cs arbitrary: seen)
  case (Cons c cs)
  have "fresh c seen \<Longrightarrow> c \<notin> set seen" by (auto simp: fresh_def)
  then show ?case using Cons [of "if fresh c seen then c # seen else seen"]
    by auto
qed simp

text \<open>
  C36. The replay window decides every sequence of counters exactly as the reference that
  remembers all of them does: a counter is accepted when it is above every accepted one, or
  was not accepted before and lies at most 64 below the highest. So no counter is ever
  accepted twice, however the messages are reordered, duplicated or lost.
\<close>

theorem replay_window_exact:
  "accept_all cs ReplayWindow_init = accept_spec cs []
     \<and> distinct (accepted cs (accept_all cs ReplayWindow_init))"
  using accept_all_spec [OF window_init] accept_spec_distinct [of cs "[]"] by simp

end
