(* ===== verification/Encryption.thy ===== *)
theory Encryption
  imports Buffer_Layout Replay_Window Znet_Options
begin

text \<open>
  The cipher of a session, \<open>encryption.h\<close> and \<open>encryption.cc\<close>: the derivation of one key per
  direction, the exporter, and the encryption and decryption of one message. OpenSSL is not
  part of the sources; its functions are the fields of the record \<open>openssl\<close>, and what the
  code relies on is stated by \<open>gcm_law\<close> and \<open>hkdf_law\<close>. A context of the cipher is the key it
  was last initialised with. The key exchange itself is in the theory \<open>Peer_Session\<close>.
\<close>

definition ascii :: "string \<Rightarrow> bytes" where
  "ascii s = map of_char s"

section \<open>OpenSSL\<close>

record 'pk openssl =
  i2d_PUBKEY :: "'pk \<Rightarrow> bytes option"
  d2i_PUBKEY :: "bytes \<Rightarrow> 'pk option"
  EVP_PKEY_up_ref :: "'pk \<Rightarrow> bool"
  EVP_PKEY_derive :: "'pk \<Rightarrow> 'pk \<Rightarrow> bytes option"
  EVP_HKDF :: "bytes \<Rightarrow> bytes \<Rightarrow> bytes \<Rightarrow> nat \<Rightarrow> bytes option"
  EVP_Digest :: "bytes \<Rightarrow> bytes option"
  EVP_CIPHER_CTX_new :: bool
  gcm_seal :: "bytes \<Rightarrow> bytes \<Rightarrow> bytes \<Rightarrow> bytes \<Rightarrow> (bytes \<times> bytes) option"
  gcm_open :: "bytes \<Rightarrow> bytes \<Rightarrow> bytes \<Rightarrow> bytes \<Rightarrow> bytes \<Rightarrow> bytes option"

text \<open>A cipher context: no context at all, or one holding the key it was keyed with, if any.\<close>

type_synonym cipher_ctx = "bytes option option"

section \<open>Constants\<close>

definition kNonceLen :: nat where "kNonceLen = 12"
definition kNonceSaltLen :: nat where "kNonceSaltLen = 4"
definition kCounterLen :: nat where "kCounterLen = 7"
definition kHeaderLen :: nat where "kHeaderLen = 1 + kCounterLen"
definition kTagLen :: nat where "kTagLen = 16"
definition kMaxCounter :: u64 where "kMaxCounter = push_bit (8 * kCounterLen) 1 - 1"
definition kModePlaintext :: u8 where "kModePlaintext = 0"
definition kModeAesCbc :: u8 where "kModeAesCbc = 1"
definition kModeAesGcm :: u8 where "kModeAesGcm = 2"
definition kMaxExportLength :: nat where "kMaxExportLength = 255 * 32"
definition kMaxExportLabelLength :: nat where "kMaxExportLabelLength = 255"
definition int_max :: nat where "int_max = 2 ^ 31 - 1"

lemmas crypt_lens = kNonceLen_def kNonceSaltLen_def kCounterLen_def kHeaderLen_def kTagLen_def
lemmas crypt_modes = kModePlaintext_def kModeAesCbc_def kModeAesGcm_def

section \<open>Keys and secrets\<close>

definition SerializePublicKey :: "('pk, 'm) openssl_scheme \<Rightarrow> 'pk option \<Rightarrow> bytes option" where
  "SerializePublicKey ssl pkey =
     (case pkey of None \<Rightarrow> None
      | Some k \<Rightarrow> (case i2d_PUBKEY ssl k of
                    None \<Rightarrow> None
                  | Some der \<Rightarrow> if length der = 0 then None else Some der))"

definition DeserializePublicKey :: "('pk, 'm) openssl_scheme \<Rightarrow> bytes \<Rightarrow> 'pk option" where
  "DeserializePublicKey ssl der = (if length der = 0 then None else d2i_PUBKEY ssl der)"

definition CloneKey :: "('pk, 'm) openssl_scheme \<Rightarrow> 'pk option \<Rightarrow> 'pk option" where
  "CloneKey ssl k =
     (case k of None \<Rightarrow> None | Some p \<Rightarrow> if EVP_PKEY_up_ref ssl p then Some p else None)"

definition ComputeSharedSecret :: "('pk, 'm) openssl_scheme \<Rightarrow> 'pk option \<Rightarrow> 'pk option \<Rightarrow> bytes option" where
  "ComputeSharedSecret ssl pkey peer_pkey =
     (case pkey of None \<Rightarrow> None
      | Some k \<Rightarrow> (case peer_pkey of None \<Rightarrow> None | Some p \<Rightarrow> EVP_PKEY_derive ssl k p))"

definition Hkdf :: "('pk, 'm) openssl_scheme \<Rightarrow> bytes \<Rightarrow> bytes \<Rightarrow> nat \<Rightarrow> bytes option" where
  "Hkdf ssl secret info out_len =
     (if length secret > int_max \<or> length info > int_max \<or> out_len > int_max then None
      else EVP_HKDF ssl (ascii ''znet-session-v1'') secret info out_len)"

definition DeriveKeyFromSharedSecret :: "('pk, 'm) openssl_scheme \<Rightarrow> bytes \<Rightarrow> string \<Rightarrow> nat \<Rightarrow> bytes option" where
  "DeriveKeyFromSharedSecret ssl shared_secret label key_len = Hkdf ssl shared_secret (ascii label) key_len"

section \<open>Counters and nonces\<close>

definition WriteCounter :: "u64 \<Rightarrow> bytes" where
  "WriteCounter counter =
     map (\<lambda>i. ucast (drop_bit (8 * (kCounterLen - 1 - i)) counter AND 0xFF)) [0..<kCounterLen]"

definition ReadCounter :: "bytes \<Rightarrow> u64" where
  "ReadCounter inp = foldl (\<lambda>counter x. push_bit 8 counter OR ucast x) 0 (take kCounterLen inp)"

definition BuildNonce :: "bytes \<Rightarrow> u8 \<Rightarrow> u64 \<Rightarrow> bytes" where
  "BuildNonce salt stream counter = take kNonceSaltLen salt @ stream # WriteCounter counter"

section \<open>One message through the cipher\<close>

definition keyed :: "bool \<Rightarrow> bytes \<Rightarrow> cipher_ctx \<Rightarrow> cipher_ctx" where
  "keyed set_key key ctx = (if set_key then Some (Some key) else ctx)"

definition EncryptData ::
  "('pk, 'm) openssl_scheme \<Rightarrow> cipher_ctx \<Rightarrow> bool \<Rightarrow> bytes \<Rightarrow> bytes \<Rightarrow> bytes \<Rightarrow> bytes
     \<Rightarrow> (bytes \<times> bytes) option \<times> cipher_ctx" where
  "EncryptData ssl ctx set_key key nonce aad plaintext =
     (if ctx = None then (None, ctx)
      else case keyed set_key key ctx of
             Some (Some k) \<Rightarrow> (gcm_seal ssl k nonce aad plaintext, Some (Some k))
           | c \<Rightarrow> (None, c))"

definition DecryptData ::
  "('pk, 'm) openssl_scheme \<Rightarrow> cipher_ctx \<Rightarrow> bool \<Rightarrow> bytes \<Rightarrow> bytes \<Rightarrow> bytes \<Rightarrow> bytes \<Rightarrow> bytes
     \<Rightarrow> bytes option \<times> cipher_ctx" where
  "DecryptData ssl ctx set_key key nonce aad ciphertext tag =
     (if ctx = None then (None, ctx)
      else case keyed set_key key ctx of
             Some (Some k) \<Rightarrow> (gcm_open ssl k nonce aad ciphertext tag, Some (Some k))
           | c \<Rightarrow> (None, c))"

section \<open>The layer\<close>

record 'pk EncryptionLayer =
  el_pub_key :: "'pk option"
  el_peer_pkey :: "'pk option"
  el_sent_handshake :: bool
  el_sent_ready :: bool
  el_enable_encryption :: bool
  el_want_encryption :: bool
  el_negotiated :: bool
  el_shared_secret :: "bytes option"
  el_key_filled :: bool
  el_tx_key :: bytes
  el_rx_key :: bytes
  el_tx_salt :: bytes
  el_rx_salt :: bytes
  el_exporter_secret :: bytes
  el_tx_counters :: "u64 list"
  el_rx_replay :: "ReplayWindow list"
  el_enc_ctx :: cipher_ctx
  el_dec_ctx :: cipher_ctx
  el_cipher_keyed :: bool
  el_dec_keyed :: bool

definition EncryptionLayer_fields :: "'pk option \<Rightarrow> 'pk EncryptionLayer" where
  "EncryptionLayer_fields pub = \<lparr>el_pub_key = pub, el_peer_pkey = None, el_sent_handshake = False,
     el_sent_ready = False, el_enable_encryption = False, el_want_encryption = True,
     el_negotiated = False, el_shared_secret = None, el_key_filled = False,
     el_tx_key = replicate 32 0, el_rx_key = replicate 32 0, el_tx_salt = replicate 4 0,
     el_rx_salt = replicate 4 0, el_exporter_secret = replicate 32 0, el_tx_counters = [],
     el_rx_replay = [], el_enc_ctx = None, el_dec_ctx = None, el_cipher_keyed = False,
     el_dec_keyed = False\<rparr>"

subsection \<open>Key derivation\<close>

definition append_key :: "bytes \<Rightarrow> bytes \<Rightarrow> bytes" where
  "append_key transcript der =
     transcript @ map (\<lambda>shift. ucast (drop_bit shift (word_of_nat (length der) :: u32) AND 0xFF)) [24, 16, 8, 0] @ der"

definition DeriveExporterSecret ::
  "('pk, 'm) openssl_scheme \<Rightarrow> bool \<Rightarrow> 'pk EncryptionLayer \<Rightarrow> bool \<times> 'pk EncryptionLayer" where
  "DeriveExporterSecret ssl is_initiator el =
     (let initiator = (if is_initiator then el_pub_key el else el_peer_pkey el);
          acceptor = (if is_initiator then el_peer_pkey el else el_pub_key el)
      in case (SerializePublicKey ssl initiator, SerializePublicKey ssl acceptor) of
           (Some initiator_der, Some acceptor_der) \<Rightarrow>
             let transcript = append_key (append_key [] initiator_der) acceptor_der
             in (case EVP_Digest ssl transcript of
                   None \<Rightarrow> (False, el)
                 | Some digest \<Rightarrow>
                     if length digest \<noteq> 32 then (False, el)
                     else let info = ascii ''znet exporter v1'' @ digest
                          in (case Hkdf ssl (case el_shared_secret el of None \<Rightarrow> [] | Some s \<Rightarrow> s) info 32 of
                                None \<Rightarrow> (False, el)
                              | Some out \<Rightarrow> (True, el\<lparr>el_exporter_secret := out\<rparr>)))
         | _ \<Rightarrow> (False, el))"

definition DeriveDirectionalKeys ::
  "('pk, 'm) openssl_scheme \<Rightarrow> bool \<Rightarrow> 'pk EncryptionLayer \<Rightarrow> bool \<times> 'pk EncryptionLayer" where
  "DeriveDirectionalKeys ssl is_initiator el =
     (let kClientToServer = ''znet c2s v1''; kServerToClient = ''znet s2c v1'';
          tx_label = (if is_initiator then kClientToServer else kServerToClient);
          rx_label = (if is_initiator then kServerToClient else kClientToServer);
          secret = (case el_shared_secret el of None \<Rightarrow> [] | Some s \<Rightarrow> s)
      in case DeriveKeyFromSharedSecret ssl secret tx_label (32 + 4) of
           None \<Rightarrow> (False, el)
         | Some tx_material \<Rightarrow>
             (case DeriveKeyFromSharedSecret ssl secret rx_label (32 + 4) of
                None \<Rightarrow> (False, el)
              | Some rx_material \<Rightarrow>
                  DeriveExporterSecret ssl is_initiator
                    (el\<lparr>el_tx_key := take 32 tx_material, el_tx_salt := take 4 (drop 32 tx_material),
                        el_rx_key := take 32 rx_material, el_rx_salt := take 4 (drop 32 rx_material)\<rparr>)))"

definition ExportKeyingMaterial ::
  "('pk, 'm) openssl_scheme \<Rightarrow> bytes \<Rightarrow> bool \<Rightarrow> nat \<Rightarrow> 'pk EncryptionLayer \<Rightarrow> Result \<times> bytes option" where
  "ExportKeyingMaterial ssl label out_given out_len el =
     (if \<not> el_enable_encryption el \<or> \<not> el_key_filled el then (Failure, None)
      else if \<not> out_given \<or> out_len = 0 \<or> out_len > kMaxExportLength \<or> label = []
              \<or> length label > kMaxExportLabelLength
      then (InvalidArgument, None)
      else let info = ascii ''znet exporter label v1:'' @ label
           in (case Hkdf ssl (el_exporter_secret el) info out_len of
                 Some out \<Rightarrow> (Success, Some out)
               | None \<Rightarrow> (Failure, None)))"

subsection \<open>Encrypting and decrypting\<close>

definition TxCounter :: "u8 \<Rightarrow> 'pk EncryptionLayer \<Rightarrow> 'pk EncryptionLayer" where
  "TxCounter stream el =
     (if unat stream \<ge> length (el_tx_counters el)
      then el\<lparr>el_tx_counters := el_tx_counters el
                 @ replicate (unat stream + 1 - length (el_tx_counters el)) 0\<rparr>
      else el)"

definition RxWindow :: "u8 \<Rightarrow> 'pk EncryptionLayer \<Rightarrow> 'pk EncryptionLayer" where
  "RxWindow stream el =
     (if unat stream \<ge> length (el_rx_replay el)
      then el\<lparr>el_rx_replay := el_rx_replay el
                 @ replicate (unat stream + 1 - length (el_rx_replay el)) ReplayWindow_init\<rparr>
      else el)"

definition HandleDecrypt ::
  "('pk, 'm) openssl_scheme \<Rightarrow> Buffer \<Rightarrow> 'pk EncryptionLayer \<Rightarrow> Buffer option \<times> 'pk EncryptionLayer" where
  "HandleDecrypt ssl b el =
     (let (mode, b1) = (ReadInt b :: u8 \<times> Buffer)
      in if mode = kModePlaintext then (if el_key_filled el then (None, el) else (Some b1, el))
         else if mode = kModeAesCbc then (None, el)
         else if mode \<noteq> kModeAesGcm then (None, el)
         else if \<not> el_key_filled el then (None, el)
         else if readable_bytes b1 < kHeaderLen + kTagLen then (None, el)
         else case Read 1 kHeaderLen b1 of
                (None, _) \<Rightarrow> (None, el)
              | (Some header, b2) \<Rightarrow>
                  let stream = header ! 0; counter = ReadCounter (drop 1 header);
                      remaining = readable_bytes b2;
                      cipher_len = (word_of_nat (remaining - kTagLen) :: u32);
                      body = take (unat cipher_len) (read_cursor_data b2);
                      tag = take kTagLen (drop (unat cipher_len) (read_cursor_data b2));
                      nonce = BuildNonce (el_rx_salt el) stream counter;
                      out = snd (ReserveExact default_new (unat cipher_len) (Buffer_new LittleEndian));
                      el1 = (if el_dec_ctx el = None
                             then el\<lparr>el_dec_ctx := (if EVP_CIPHER_CTX_new ssl then Some None else None),
                                     el_dec_keyed := False\<rparr>
                             else el);
                      (plaintext, ctx) = (if unat cipher_len > int_max then (None, el_dec_ctx el1)
                         else DecryptData ssl (el_dec_ctx el1) (\<not> el_dec_keyed el1) (el_rx_key el1) nonce
                                [kModeAesGcm] body tag);
                      el2 = el1\<lparr>el_dec_ctx := ctx\<rparr>
                  in (case plaintext of
                        None \<Rightarrow> (None, el2)
                      | Some pt \<Rightarrow>
                          let el3 = RxWindow stream (el2\<lparr>el_dec_keyed := True\<rparr>);
                              (ok, w) = Accept counter (el_rx_replay el3 ! unat stream);
                              el4 = el3\<lparr>el_rx_replay := (el_rx_replay el3)[unat stream := w]\<rparr>
                          in if \<not> ok then (None, el4)
                             else (Some (CommitWrite (length pt) (poke (buf_write_cursor out) pt out)), el4)))"

definition HandleIn ::
  "('pk, 'm) openssl_scheme \<Rightarrow> Buffer \<Rightarrow> 'pk EncryptionLayer \<Rightarrow> Buffer option \<times> 'pk EncryptionLayer" where
  "HandleIn ssl b el = HandleDecrypt ssl b el"

definition HandleOut ::
  "('pk, 'm) openssl_scheme \<Rightarrow> Buffer \<Rightarrow> u8 \<Rightarrow> 'pk EncryptionLayer \<Rightarrow> Buffer option \<times> 'pk EncryptionLayer" where
  "HandleOut ssl b stream el =
     (if readable_bytes b > int_max then (None, el)
      else let buffer_len = readable_bytes b
      in if el_enable_encryption el
      then let nb0 = ReserveHeadroom 2 (Buffer_new LittleEndian);
               nb1 = snd (ReserveExact default_new (2 + 1 + kHeaderLen + buffer_len + kTagLen) nb0);
               nb2 = WriteInt default_new kModeAesGcm nb1;
               header_pos = buf_write_cursor nb2;
               nb3 = SkipWrite default_new kHeaderLen nb2;
               el1 = TxCounter stream el;
               counter = el_tx_counters el1 ! unat stream
           in if counter = kMaxCounter then (None, el1)
              else let el2 = el1\<lparr>el_tx_counters := (el_tx_counters el1)[unat stream := counter + 1]\<rparr>;
                       nonce = BuildNonce (el_tx_salt el2) stream counter;
                       el3 = (if el_enc_ctx el2 = None
                              then el2\<lparr>el_enc_ctx := (if EVP_CIPHER_CTX_new ssl then Some None else None),
                                       el_cipher_keyed := False\<rparr>
                              else el2);
                       (sealed, ctx) = EncryptData ssl (el_enc_ctx el3) (\<not> el_cipher_keyed el3) (el_tx_key el3)
                          nonce [kModeAesGcm] (take buffer_len (read_cursor_data b));
                       el4 = el3\<lparr>el_enc_ctx := ctx\<rparr>
                   in (case sealed of
                         None \<Rightarrow> (None, el4)
                       | Some (ciphertext, tag) \<Rightarrow>
                           let nb4 = CommitWrite (length ciphertext) (poke (buf_write_cursor nb3) ciphertext nb3);
                               nb5 = Write default_new tag nb4;
                               fin = buf_write_cursor nb5;
                               nb6 = set_write_cursor header_pos nb5;
                               nb7 = Write default_new (stream # WriteCounter counter) nb6
                           in (Some (set_write_cursor fin nb7), el4\<lparr>el_cipher_keyed := True\<rparr>))
      else (case PrependInt8 0 b of
              (True, b') \<Rightarrow> (Some b', el)
            | (False, b') \<Rightarrow>
                let nb0 = ReserveHeadroom 2 (Buffer_new LittleEndian);
                    nb1 = snd (ReserveExact default_new (buffer_len + 3) nb0);
                    nb2 = WriteInt default_new (0 :: u8) nb1
                in (Some (Write default_new (take buffer_len (read_cursor_data b')) nb2), el)))"

section \<open>What the code relies on\<close>

text \<open>
  AES-256-GCM as documented: under a 32-byte key and a 12-byte nonce, sealing a message that
  fits an \<open>int\<close> succeeds with a ciphertext of the same length and a 16-byte tag, and opening
  these under the same key, nonce and associated data gives the message back. A message that
  opens has the length of its ciphertext. A context can be allocated.
\<close>

definition gcm_law :: "('pk, 'm) openssl_scheme \<Rightarrow> bool" where
  "gcm_law ssl \<longleftrightarrow> EVP_CIPHER_CTX_new ssl
     \<and> (\<forall>k n a p. length k = 32 \<longrightarrow> length n = kNonceLen \<longrightarrow> length p \<le> int_max \<longrightarrow>
          (\<exists>c t. gcm_seal ssl k n a p = Some (c, t)))
     \<and> (\<forall>k n a p c t. gcm_seal ssl k n a p = Some (c, t) \<longrightarrow>
          length c = length p \<and> length t = kTagLen \<and> gcm_open ssl k n a c t = Some p)
     \<and> (\<forall>k n a c t p. gcm_open ssl k n a c t = Some p \<longrightarrow> length p = length c)"

lemma gcm_sealE:
  assumes "gcm_law ssl" and "length k = 32" and "length n = kNonceLen" and "length p \<le> int_max"
  obtains c t where "gcm_seal ssl k n a p = Some (c, t)" and "length c = length p" and "length t = kTagLen"
    and "gcm_open ssl k n a c t = Some p"
  using assms unfolding gcm_law_def by metis

lemma gcm_seal_length: "gcm_law ssl \<Longrightarrow> gcm_seal ssl k n a p = Some (c, t) \<Longrightarrow> length c = length p \<and> length t = kTagLen"
  unfolding gcm_law_def by blast

lemma gcm_ctx: "gcm_law ssl \<Longrightarrow> EVP_CIPHER_CTX_new ssl"
  by (simp add: gcm_law_def)

lemma gcm_open_length: "gcm_law ssl \<Longrightarrow> gcm_open ssl k n a c t = Some p \<Longrightarrow> length p = length c"
  unfolding gcm_law_def by blast

text \<open>HKDF gives as many bytes as asked for, up to its limit of 255 digests.\<close>

definition hkdf_law :: "('pk, 'm) openssl_scheme \<Rightarrow> bool" where
  "hkdf_law ssl \<longleftrightarrow> (\<forall>salt secret info n. 0 < n \<longrightarrow> n \<le> 255 * 32 \<longrightarrow>
      (\<exists>out. EVP_HKDF ssl salt secret info n = Some out \<and> length out = n))"

section \<open>Counters and nonces\<close>

lemma WriteCounter_le_bytes: "WriteCounter c = rev (le_bytes kCounterLen (unat c))"
proof -
  have b: "(ucast (drop_bit n c AND 0xFF) :: u8) = word_of_nat (unat c div 2 ^ n mod 256)" for n
  proof -
    have "drop_bit n c AND 0xFF = take_bit 8 (drop_bit n c)"
      by (simp add: take_bit_eq_mask mask_eq_exp_minus_1)
    moreover have "unat (take_bit 8 (drop_bit n c)) = unat c div 2 ^ n mod 256"
      by (simp only: unsigned_take_bit_eq unsigned_drop_bit_eq take_bit_eq_mod [where 'a = nat] drop_bit_eq_div [where 'a = nat])
        (use unat64_less [of c] in simp)
    ultimately have "unat (drop_bit n c AND 0xFF) = unat c div 2 ^ n mod 256" by (simp only:)
    then show ?thesis
      by (simp only: word_unat_eq_iff unsigned_ucast_eq take_bit_eq_mod [where 'a = nat] unat_of_nat)
  qed
  have "map (\<lambda>i. word_of_nat (x div 2 ^ (8 * (k - 1 - i)) mod 256)) [0..<k] = rev (le_bytes k x)" for k x
  proof (induction k arbitrary: x)
    case (Suc k)
    have "map (\<lambda>i. word_of_nat (x div 2 ^ (8 * (Suc k - 1 - i)) mod 256)) [0..<k]
        = map (\<lambda>i. word_of_nat (x div 256 div 2 ^ (8 * (k - 1 - i)) mod 256) :: byte) [0..<k]"
    proof (rule map_cong [OF refl])
      fix i assume "i \<in> set [0..<k]"
      then have "8 * (Suc k - 1 - i) = 8 + 8 * (k - 1 - i)" by auto
      then have "(2 :: nat) ^ (8 * (Suc k - 1 - i)) = 256 * 2 ^ (8 * (k - 1 - i))"
        by (simp only: power_add) simp
      then show "(word_of_nat (x div 2 ^ (8 * (Suc k - 1 - i)) mod 256) :: byte)
          = word_of_nat (x div 256 div 2 ^ (8 * (k - 1 - i)) mod 256)"
        by (simp only: div_mult2_eq)
    qed
    then show ?case using Suc [of "x div 256"] by (simp del: map_eq_conv)
  qed simp
  from this [of "unat c" kCounterLen] show ?thesis by (simp add: WriteCounter_def b)
qed

lemma ReadCounter_le_val:
  assumes "length bs = kCounterLen"
  shows "ReadCounter bs = word_of_nat (le_val (rev bs))"
proof -
  have step: "push_bit 8 w OR ucast x = w * 256 + word_of_nat (unat x)" for w :: u64 and x :: u8
  proof -
    have "push_bit 8 w AND ucast x = (0 :: u64)"
      by (rule bit_word_eqI) (auto simp: bit_simps dest: bit_imp_le_length)
    then have "push_bit 8 w OR ucast x = push_bit 8 w + (ucast x :: u64)"
      by (simp add: disjunctive_add_eq_or)
    then show ?thesis by (simp add: push_bit_eq_mult)
  qed
  have "foldl (\<lambda>counter x. push_bit 8 counter OR ucast x) acc bs
      = acc * 256 ^ length bs + (word_of_nat (le_val (rev bs)) :: u64)" for acc and bs :: bytes
    by (induction bs arbitrary: acc) (simp_all add: step le_val_append algebra_simps)
  from this [of 0 bs] show ?thesis using assms by (simp add: ReadCounter_def)
qed

lemma length_WriteCounter [simp]: "length (WriteCounter c) = kCounterLen"
  by (simp add: WriteCounter_def)

lemma kMaxCounter_eq: "unat kMaxCounter = 2 ^ 56 - 1"
  by (simp add: kMaxCounter_def kCounterLen_def)

lemma ReadCounter_WriteCounter: "unat c < 2 ^ 56 \<Longrightarrow> ReadCounter (WriteCounter c) = c"
  by (simp add: ReadCounter_le_val) (simp add: WriteCounter_le_bytes kCounterLen_def)

lemma WriteCounter_ReadCounter: "length bs = kCounterLen \<Longrightarrow> WriteCounter (ReadCounter bs) = bs"
proof -
  assume len: "length bs = kCounterLen"
  have "le_val (rev bs) < 2 ^ 64" using le_val_less [of "rev bs"] len by (simp add: kCounterLen_def)
  then show ?thesis
    using len le_bytes_le_val [of "rev bs"]
    by (simp add: WriteCounter_le_bytes ReadCounter_le_val unat_of_nat_small)
qed

lemma WriteCounter_inject:
  "unat a < 2 ^ 56 \<Longrightarrow> unat b < 2 ^ 56 \<Longrightarrow> WriteCounter a = WriteCounter b \<longleftrightarrow> a = b"
  by (metis ReadCounter_WriteCounter)

lemma length_BuildNonce: "length salt = kNonceSaltLen \<Longrightarrow> length (BuildNonce salt s c) = kNonceLen"
  by (simp add: BuildNonce_def crypt_lens)

section \<open>The state of the layer\<close>

text \<open>
  The type invariant: keys and salts have their sizes, a context that counts as keyed holds
  the key of its direction, and no counter is past its last value.
\<close>

definition layer_ok :: "'pk EncryptionLayer \<Rightarrow> bool" where
  "layer_ok el \<longleftrightarrow> length (el_tx_key el) = 32 \<and> length (el_rx_key el) = 32
     \<and> length (el_tx_salt el) = kNonceSaltLen \<and> length (el_rx_salt el) = kNonceSaltLen
     \<and> (el_cipher_keyed el \<longrightarrow> el_enc_ctx el = Some (Some (el_tx_key el)))
     \<and> (el_dec_keyed el \<longrightarrow> el_dec_ctx el = Some (Some (el_rx_key el)))
     \<and> (\<forall>c\<in>set (el_tx_counters el). c \<le> kMaxCounter)"

definition next_counter :: "u8 \<Rightarrow> 'pk EncryptionLayer \<Rightarrow> u64" where
  "next_counter s el = (if unat s < length (el_tx_counters el) then el_tx_counters el ! unat s else 0)"

definition replay_window :: "u8 \<Rightarrow> 'pk EncryptionLayer \<Rightarrow> ReplayWindow" where
  "replay_window s el =
     (if unat s < length (el_rx_replay el) then el_rx_replay el ! unat s else ReplayWindow_init)"

lemma TxCounter_eq:
  "TxCounter s el = el\<lparr>el_tx_counters := el_tx_counters (TxCounter s el)\<rparr>"
  "unat s < length (el_tx_counters (TxCounter s el))"
  "el_tx_counters (TxCounter s el) ! unat s = next_counter s el"
  by (auto simp: TxCounter_def next_counter_def nth_append)

lemma RxWindow_eq:
  "RxWindow s el = el\<lparr>el_rx_replay := el_rx_replay (RxWindow s el)\<rparr>"
  "unat s < length (el_rx_replay (RxWindow s el))"
  "el_rx_replay (RxWindow s el) ! unat s = replay_window s el"
  by (auto simp: RxWindow_def replay_window_def nth_append)

lemma next_counter_take:
  "el_tx_counters el' = (el_tx_counters (TxCounter s el))[unat s := v] \<Longrightarrow>
     next_counter s' el' = (if s' = s then v else next_counter s' el)"
  by (auto simp: next_counter_def TxCounter_def nth_append word_unat_eq_iff [symmetric])

lemma replay_window_take:
  "el_rx_replay el' = (el_rx_replay (RxWindow s el))[unat s := v] \<Longrightarrow>
     replay_window s' el' = (if s' = s then v else replay_window s' el)"
  by (auto simp: replay_window_def RxWindow_def nth_append word_unat_eq_iff [symmetric])

lemma TxCounter_set: "c \<in> set (el_tx_counters (TxCounter s el)) \<Longrightarrow> c \<in> set (el_tx_counters el) \<or> c = 0"
  by (auto simp: TxCounter_def split: if_splits)

lemma next_counter_le: "layer_ok el \<Longrightarrow> next_counter s el \<le> kMaxCounter"
  by (auto simp: layer_ok_def next_counter_def)

section \<open>Encrypting a message\<close>

definition sealed_layer :: "u8 \<Rightarrow> 'pk EncryptionLayer \<Rightarrow> 'pk EncryptionLayer" where
  "sealed_layer s el = el\<lparr>el_tx_counters := (el_tx_counters (TxCounter s el))[unat s := next_counter s el + 1],
     el_enc_ctx := Some (Some (el_tx_key el)), el_cipher_keyed := True\<rparr>"

lemma next_counter_sealed: "next_counter s' (sealed_layer s el) = (if s' = s then next_counter s el + 1 else next_counter s' el)"
  by (rule next_counter_take) (simp add: sealed_layer_def)

lemma layer_ok_sealed:
  assumes "layer_ok el" and "next_counter s el \<noteq> kMaxCounter"
  shows "layer_ok (sealed_layer s el)"
proof -
  have "next_counter s el < kMaxCounter" using next_counter_le [OF assms(1), of s] assms(2) by simp
  then have "next_counter s el + 1 \<le> kMaxCounter" by (rule inc_le)
  then have "c \<le> kMaxCounter" if "c \<in> set ((el_tx_counters (TxCounter s el))[unat s := next_counter s el + 1])" for c
    using set_update_subset_insert that TxCounter_set [of c s el] assms(1)
    by (fastforce simp: layer_ok_def)
  then show ?thesis using assms(1) by (simp add: layer_ok_def sealed_layer_def)
qed

text \<open>The bytes of an encrypted message: mode, stream, counter, ciphertext and tag.\<close>

lemma sealed_bytes:
  fixes s :: u8 and c :: u64 and ct tg :: bytes and n :: nat
  assumes "length ct = n" and "length tg = kTagLen" and "n \<le> int_max"
  defines "nb2 \<equiv> WriteInt default_new kModeAesGcm
      (snd (ReserveExact default_new (2 + 1 + kHeaderLen + n + kTagLen) (ReserveHeadroom 2 (Buffer_new LittleEndian))))"
  defines "nb3 \<equiv> SkipWrite default_new kHeaderLen nb2"
  defines "nb5 \<equiv> Write default_new tg (CommitWrite (length ct) (poke (buf_write_cursor nb3) ct nb3))"
  defines "out \<equiv> set_write_cursor (buf_write_cursor nb5)
      (Write default_new (s # WriteCounter c) (set_write_cursor (buf_write_cursor nb2) nb5))"
  shows "contents out = kModeAesGcm # s # WriteCounter c @ ct @ tg" and "headroom 2 out"
    and "buf_endianness out = LittleEndian"
proof -
  let ?nb0 = "ReserveHeadroom 2 (Buffer_new LittleEndian)"
  let ?sz = "2 + 1 + kHeaderLen + n + kTagLen"
  have sz: "?sz < 2 ^ 61" "1 + (kHeaderLen + (n + kTagLen)) + 2 = ?sz" using assms(3) by (simp_all add: int_max_def crypt_lens)
  define nb1 where "nb1 = snd (ReserveExact default_new ?sz ?nb0)"
  have 1: "appended ?nb0 nb1 []" "spare nb1 (1 + (kHeaderLen + (n + kTagLen)))"
    unfolding nb1_def
    by (rule heap.ReserveExact_spare [where n = "1 + (kHeaderLen + (n + kTagLen))"]; use sz in \<open>simp add: room_headroom\<close>)+
  have nb2: "nb2 = WriteInt default_new kModeAesGcm nb1" by (simp add: nb2_def nb1_def)
  have 2: "appended nb1 nb2 [kModeAesGcm]" "spare nb2 (kHeaderLen + (n + kTagLen))"
    unfolding nb2 by (rule spare_WriteByte [OF 1(2)])+
  obtain gap where 3: "length gap = kHeaderLen" "appended nb2 nb3 gap" "spare nb3 (n + kTagLen)"
    unfolding nb3_def by (rule spare_SkipWrite [OF 2(2)])
  let ?nb4 = "CommitWrite (length ct) (poke (buf_write_cursor nb3) ct nb3)"
  have 4: "appended nb3 ?nb4 ct" "spare ?nb4 (length tg + 0)"
    using spare_poke [of nb3 ct kTagLen] 3(3) assms(1,2) by simp_all
  have 5: "appended ?nb4 nb5 tg" "spare nb5 0"
    unfolding nb5_def by (rule spare_Write [OF 4(2)])+
  have a: "appended ?nb0 nb5 ([kModeAesGcm] @ gap @ (ct @ tg))"
    using appended_trans [OF appended_trans [OF appended_trans [OF appended_trans [OF 1(1) 2(1)] 3(2)] 4(1)] 5(1)]
    by simp
  have pos: "buf_write_cursor nb2 = buf_read_cursor nb5 + length [kModeAesGcm]"
    using a 1(1) 2(1) by (simp add: appended_def)
  have c: "contents nb5 = [kModeAesGcm] @ gap @ (ct @ tg)" using a by (simp add: appended_def)
  have h: "length (s # WriteCounter c) = length gap" using 3(1) by (simp add: kHeaderLen_def)
  have "headroom 2 nb5" using 5(2) a by (simp add: headroom_def spare_def appended_def)
  note b = backfill [OF this c h pos refl, of default_new, folded out_def]
  show "contents out = kModeAesGcm # s # WriteCounter c @ ct @ tg" using b(2) by simp
  show "headroom 2 out" by (rule b(1))
  show "buf_endianness out = LittleEndian" using b(3) a by (simp add: appended_def)
qed

lemma EncryptData_keyed:
  assumes "fst_time \<or> ctx = Some (Some k)" and "ctx \<noteq> None"
  shows "EncryptData ssl ctx fst_time k n a p = (gcm_seal ssl k n a p, Some (Some k))"
  using assms by (cases fst_time) (auto simp: EncryptData_def keyed_def)

lemma DecryptData_keyed:
  assumes "fst_time \<or> ctx = Some (Some k)" and "ctx \<noteq> None"
  shows "DecryptData ssl ctx fst_time k n a ct t = (gcm_open ssl k n a ct t, Some (Some k))"
  using assms by (cases fst_time) (auto simp: DecryptData_def keyed_def)

lemma HandleOut_encrypted:
  assumes "gcm_law ssl" and "layer_ok el" and "el_enable_encryption el" and "next_counter s el \<noteq> kMaxCounter"
    and "stream_ok b" and "length (contents b) \<le> int_max"
  obtains out ct tg where "HandleOut ssl b s el = (Some out, sealed_layer s el)"
    and "gcm_seal ssl (el_tx_key el) (BuildNonce (el_tx_salt el) s (next_counter s el)) [kModeAesGcm] (contents b)
        = Some (ct, tg)"
    and "contents out = kModeAesGcm # s # WriteCounter (next_counter s el) @ ct @ tg"
    and "headroom 2 out" and "buf_endianness out = LittleEndian"
proof -
  let ?n = "readable_bytes b" let ?c = "next_counter s el"
  let ?nonce = "BuildNonce (el_tx_salt el) s ?c"
  have n: "?n \<le> int_max" "take ?n (read_cursor_data b) = contents b"
    using assms(6) length_contents [OF assms(5)] by (simp_all add: contents_def)
  have "length ?nonce = kNonceLen" using assms(2) by (simp add: layer_ok_def length_BuildNonce)
  moreover have "length (el_tx_key el) = 32" using assms(2) by (simp add: layer_ok_def)
  ultimately obtain ct tg where seal: "gcm_seal ssl (el_tx_key el) ?nonce [kModeAesGcm] (contents b) = Some (ct, tg)"
    and "length ct = length (contents b)" "length tg = kTagLen"
    using gcm_sealE [OF assms(1), of "el_tx_key el" ?nonce "contents b"] assms(6) by metis
  then have len: "length ct = ?n" "length tg = kTagLen" using assms(5) by (simp_all add: length_contents)
  define el2 where "el2 = el\<lparr>el_tx_counters := (el_tx_counters (TxCounter s el))[unat s := ?c + 1]\<rparr>"
  define el3 where "el3 = (if el_enc_ctx el2 = None then el2\<lparr>el_enc_ctx := Some None, el_cipher_keyed := False\<rparr> else el2)"
  have el3: "el_enc_ctx el3 \<noteq> None" "el_tx_key el3 = el_tx_key el"
    "\<not> el_cipher_keyed el3 \<or> el_enc_ctx el3 = Some (Some (el_tx_key el))"
    "el3\<lparr>el_enc_ctx := Some (Some (el_tx_key el)), el_cipher_keyed := True\<rparr> = sealed_layer s el"
    using assms(2) by (auto simp: el3_def el2_def layer_ok_def sealed_layer_def split: if_splits)
  have enc: "EncryptData ssl (el_enc_ctx el3) (\<not> el_cipher_keyed el3) (el_tx_key el3) ?nonce [kModeAesGcm] (contents b)
      = (Some (ct, tg), Some (Some (el_tx_key el)))"
    unfolding el3(2) by (simp only: EncryptData_keyed [OF el3(3,1)] seal)
  have upd: "(TxCounter s el)\<lparr>el_tx_counters := v\<rparr> = el\<lparr>el_tx_counters := v\<rparr>" "el_tx_salt el2 = el_tx_salt el" for v
    by (simp_all add: TxCounter_def el2_def)
  have new: "(if el_enc_ctx el2 = None then el2\<lparr>el_enc_ctx := (if EVP_CIPHER_CTX_new ssl then Some None else None),
      el_cipher_keyed := False\<rparr> else el2) = el3"
    using gcm_ctx [OF assms(1)] by (simp add: el3_def)
  note sb = sealed_bytes [OF len n(1), of s ?c]
  show thesis
    by (rule that [OF _ seal sb])
      (use n assms(3,4) in \<open>simp add: HandleOut_def Let_def TxCounter_eq(3) upd new enc el3(4) flip: el2_def\<close>)
qed

section \<open>Decrypting a message\<close>

definition opened_layer :: "u8 \<Rightarrow> u64 \<Rightarrow> 'pk EncryptionLayer \<Rightarrow> 'pk EncryptionLayer" where
  "opened_layer s c el = el\<lparr>el_rx_replay := (el_rx_replay (RxWindow s el))[unat s := snd (Accept c (replay_window s el))],
     el_dec_ctx := Some (Some (el_rx_key el)), el_dec_keyed := True\<rparr>"

definition opened_bytes :: "bytes \<Rightarrow> Buffer" where
  "opened_bytes pt = (let out = snd (ReserveExact default_new (length pt) (Buffer_new LittleEndian))
     in CommitWrite (length pt) (poke (buf_write_cursor out) pt out))"

lemma new_fields:
  "buf_data (Buffer_new e) = None" "buf_write_cursor (Buffer_new e) = 0" "buf_read_limit (Buffer_new e) = size_max"
  by (simp_all add: Buffer_new_def)

lemma opened_bytes:
  assumes "length pt < 2 ^ 61"
  shows "contents (opened_bytes pt) = pt" and "stream_ok (opened_bytes pt)"
    and "buf_endianness (opened_bytes pt) = LittleEndian" and "buf_read_limit (opened_bytes pt) = size_max"
    and "buf_last_error (opened_bytes pt) = NoBufferError"
proof -
  let ?out = "snd (ReserveExact default_new (length pt) (Buffer_new LittleEndian))"
  have "appended (Buffer_new LittleEndian) ?out []" "spare ?out (length pt + 0)"
    by (rule heap.ReserveExact_spare [where n = "length pt + 0"];
        use assms in \<open>simp add: room_new new_fields\<close>)+
  then show "contents (opened_bytes pt) = pt" and "stream_ok (opened_bytes pt)"
    and "buf_endianness (opened_bytes pt) = LittleEndian" and "buf_read_limit (opened_bytes pt) = size_max"
    and "buf_last_error (opened_bytes pt) = NoBufferError"
    using spare_poke(1) [of ?out pt 0]
    by (simp_all add: opened_bytes_def Let_def appended_def spare_def new_fields)
qed

text \<open>The mode byte comes off first, whatever the message is.\<close>

lemma read_mode:
  assumes "stream_ok b" and "contents b = m # rest"
  obtains b1 where "(ReadInt b :: u8 \<times> Buffer) = (m, b1)" and "stream_ok b1" and "contents b1 = rest"
    and "buf_endianness b1 = buf_endianness b" and "buf_last_error b1 = buf_last_error b"
    and "buf_read_limit b1 = buf_read_limit b"
  by (rule parsesE [OF parses_ReadInt [of "buf_endianness b" m] refl assms(1)])
    (use assms that in \<open>auto simp: consumed_def\<close>)

lemma HandleDecrypt_refused:
  assumes "stream_ok b" and "el_key_filled el"
    and "length (contents b) < Suc (kHeaderLen + kTagLen) \<or> hd (contents b) \<noteq> kModeAesGcm"
  shows "HandleDecrypt ssl b el = (None, el)"
proof (cases "contents b")
  case Nil
  then have "\<not> CheckReadableBytes 1 b" using assms(1) by (simp add: CheckReadableBytes_iff)
  then have "fst (ReadInt b :: u8 \<times> Buffer) = 0"
    by (simp add: ReadInt_def ReadNumber_def of_mem_image_def GetSystemEndianness_def)
  then show ?thesis using assms(2) by (simp add: HandleDecrypt_def case_prod_beta Let_def crypt_modes)
next
  case (Cons m rest)
  obtain b1 where "(ReadInt b :: u8 \<times> Buffer) = (m, b1)" "stream_ok b1" "contents b1 = rest"
    by (rule read_mode [OF assms(1) Cons])
  moreover from this have "readable_bytes b1 = length rest" using length_contents by metis
  ultimately show ?thesis using assms(2,3) Cons by (auto simp: HandleDecrypt_def crypt_modes)
qed

lemma mode_neq [simp]: "kModeAesGcm \<noteq> kModePlaintext" "kModeAesGcm \<noteq> kModeAesCbc"
  by (simp_all add: crypt_modes)

lemma HandleDecrypt_gcm:
  assumes "gcm_law ssl" and "layer_ok el" and "el_key_filled el" and "stream_ok b"
    and "contents b = kModeAesGcm # s # WriteCounter c @ ct @ tg" and "unat c < 2 ^ 56"
    and "length tg = kTagLen" and "length ct \<le> int_max"
  shows "HandleDecrypt ssl b el =
    (case gcm_open ssl (el_rx_key el) (BuildNonce (el_rx_salt el) s c) [kModeAesGcm] ct tg of
       None \<Rightarrow> (None, el\<lparr>el_dec_ctx := Some (Some (el_rx_key el)), el_dec_keyed := el_dec_ctx el \<noteq> None \<and> el_dec_keyed el\<rparr>)
     | Some pt \<Rightarrow> (if fst (Accept c (replay_window s el)) then Some (opened_bytes pt) else None, opened_layer s c el))"
proof -
  obtain b1 where 1: "(ReadInt b :: u8 \<times> Buffer) = (kModeAesGcm, b1)" "stream_ok b1"
      "contents b1 = (s # WriteCounter c) @ ct @ tg"
    by (rule read_mode [OF assms(4,5)]) simp
  have "1 * kHeaderLen = length (s # WriteCounter c)" "length (s # WriteCounter c) < 2 ^ 62"
    by (simp_all add: crypt_lens)
  from parsesE [OF parses_Read [OF this zero_less_one] refl 1(2,3)]
  obtain b2 where 2: "Read 1 kHeaderLen b1 = (Some (s # WriteCounter c), b2)" "stream_ok b2" "contents b2 = ct @ tg"
    by auto
  have r1: "readable_bytes b1 = kHeaderLen + length ct + kTagLen" "readable_bytes b2 = length ct + kTagLen"
    using 1 2 length_contents [of b1] length_contents [of b2] assms(7) by (simp_all add: crypt_lens)
  have "unat (word_of_nat (length ct) :: u32) = length ct"
    using assms(8) by (intro unat_of_nat_small) (simp add: int_max_def)
  then have len: "unat (word_of_nat (readable_bytes b2 - kTagLen) :: u32) = length ct" by (simp add: r1)
  have "take (length ct + kTagLen) (read_cursor_data b2) = ct @ tg" using 2(3) r1(2) by (simp add: contents_def)
  then have body: "take (length ct) (read_cursor_data b2) = ct"
      "take kTagLen (drop (length ct) (read_cursor_data b2)) = tg"
    using assms(7) by (metis append_eq_conv_conj le_add1 min.absorb1 take_take, metis append_eq_conv_conj take_drop add.commute)
  define el1 where "el1 = (if el_dec_ctx el = None then el\<lparr>el_dec_ctx := Some None, el_dec_keyed := False\<rparr> else el)"
  have new: "(if el_dec_ctx el = None then el\<lparr>el_dec_ctx := (if EVP_CIPHER_CTX_new ssl then Some None else None),
      el_dec_keyed := False\<rparr> else el) = el1"
    using gcm_ctx [OF assms(1)] by (simp add: el1_def)
  have el1: "el_dec_ctx el1 \<noteq> None" "el_rx_key el1 = el_rx_key el" "\<not> el_dec_keyed el1 \<or> el_dec_ctx el1 = Some (Some (el_rx_key el))"
    "el1\<lparr>el_dec_ctx := x\<rparr> = el\<lparr>el_dec_ctx := x, el_dec_keyed := el_dec_ctx el \<noteq> None \<and> el_dec_keyed el\<rparr>" for x
    using assms(2) by (auto simp: el1_def layer_ok_def split: if_splits)
  have dec: "DecryptData ssl (el_dec_ctx el1) (\<not> el_dec_keyed el1) (el_rx_key el1) n a ct tg
      = (gcm_open ssl (el_rx_key el) n a ct tg, Some (Some (el_rx_key el)))" for n a
    unfolding el1(2) by (rule DecryptData_keyed [OF el1(3,1)])
  have win: "(RxWindow s (el\<lparr>el_dec_ctx := x, el_dec_keyed := k\<rparr>)) = (RxWindow s el)\<lparr>el_dec_ctx := x, el_dec_keyed := k\<rparr>" for x k
    by (simp add: RxWindow_def)
  have opn: "(RxWindow s el)\<lparr>el_dec_ctx := Some (Some (el_rx_key el)), el_dec_keyed := True,
      el_rx_replay := (el_rx_replay (RxWindow s el))[unat s := snd (Accept c (replay_window s el))]\<rparr> = opened_layer s c el"
    by (simp add: opened_layer_def RxWindow_def)
  show ?thesis
  proof (cases "gcm_open ssl (el_rx_key el) (BuildNonce (el_rx_salt el) s c) [kModeAesGcm] ct tg")
    case None
    then show ?thesis
      using assms(3) r1(1) assms(8)
      by (simp add: HandleDecrypt_def Let_def 1(1) 2(1) [unfolded One_nat_def] len body new dec el1(4)
          ReadCounter_WriteCounter [OF assms(6)])
  next
    case (Some pt)
    then have "length pt = length ct" using gcm_open_length [OF assms(1)] by blast
    then show ?thesis
      using assms(3) r1(1) assms(8) Some
      by (simp add: HandleDecrypt_def Let_def 1(1) 2(1) [unfolded One_nat_def] len body new dec el1(4) case_prod_beta win
          ReadCounter_WriteCounter [OF assms(6)] RxWindow_eq(3) opn opened_bytes_def)
  qed
qed

lemma message_fields:
  assumes "Suc (kHeaderLen + kTagLen) \<le> length m" and "hd m = kModeAesGcm"
  obtains s c ct tg where "m = kModeAesGcm # s # WriteCounter c @ ct @ tg" and "unat c < 2 ^ 56"
    and "length tg = kTagLen" and "length ct \<le> length m"
proof -
  obtain s rest where m: "m = kModeAesGcm # s # rest" and len: "kCounterLen + kTagLen \<le> length rest"
    using assms by (cases m; cases "tl m") (auto simp: crypt_lens)
  define cb ct tg where "cb = take kCounterLen rest" and "ct = take (length rest - kCounterLen - kTagLen) (drop kCounterLen rest)"
    and "tg = drop (length rest - kCounterLen - kTagLen) (drop kCounterLen rest)"
  have cb: "length cb = kCounterLen" "length tg = kTagLen" using len by (auto simp: cb_def tg_def)
  have r: "rest = cb @ ct @ tg" by (simp only: cb_def ct_def tg_def append_take_drop_id)
  have "le_val (rev cb) < 2 ^ 56" using le_val_less [of "rev cb"] cb(1) by (simp add: kCounterLen_def)
  then have "unat (ReadCounter cb) < 2 ^ 56" using cb(1) by (simp add: ReadCounter_le_val unat_of_nat_small)
  moreover have "WriteCounter (ReadCounter cb) = cb" using cb(1) by (rule WriteCounter_ReadCounter)
  ultimately show thesis using that [of s "ReadCounter cb" ct tg] m cb r by simp
qed

text \<open>Every way a message can go once the keys exist.\<close>

lemma HandleDecrypt_cases:
  assumes "gcm_law ssl" and "layer_ok el" and "el_key_filled el" and "stream_ok b"
    and "length (contents b) \<le> int_max"
  obtains (refused) "HandleDecrypt ssl b el = (None, el)"
  | (forged) "HandleDecrypt ssl b el = (None, el\<lparr>el_dec_ctx := Some (Some (el_rx_key el)),
        el_dec_keyed := el_dec_ctx el \<noteq> None \<and> el_dec_keyed el\<rparr>)"
  | (opened) s c ct tg pt where "contents b = kModeAesGcm # s # WriteCounter c @ ct @ tg" and "unat c < 2 ^ 56"
      and "length tg = kTagLen" and "length pt = length ct"
      and "gcm_open ssl (el_rx_key el) (BuildNonce (el_rx_salt el) s c) [kModeAesGcm] ct tg = Some pt"
      and "HandleDecrypt ssl b el
         = (if fst (Accept c (replay_window s el)) then Some (opened_bytes pt) else None, opened_layer s c el)"
proof (cases "length (contents b) < Suc (kHeaderLen + kTagLen) \<or> hd (contents b) \<noteq> kModeAesGcm")
  case True
  then show thesis using HandleDecrypt_refused [OF assms(4,3)] refused by blast
next
  case False
  then have "Suc (kHeaderLen + kTagLen) \<le> length (contents b)" "hd (contents b) = kModeAesGcm" by simp_all
  then obtain s c ct tg where m: "contents b = kModeAesGcm # s # WriteCounter c @ ct @ tg" "unat c < 2 ^ 56"
      "length tg = kTagLen" "length ct \<le> length (contents b)"
    by (rule message_fields)
  then have "length ct \<le> int_max" using assms(5) by simp
  note d = HandleDecrypt_gcm [OF assms(1-4) m(1-3) this]
  show thesis
  proof (cases "gcm_open ssl (el_rx_key el) (BuildNonce (el_rx_salt el) s c) [kModeAesGcm] ct tg")
    case None
    then show thesis using d forged by simp
  next
    case (Some pt)
    then show thesis using d opened [OF m(1-3)] gcm_open_length [OF assms(1) Some] by simp
  qed
qed

lemma opened_fields [simp]:
  "el_rx_key (opened_layer s c el) = el_rx_key el" "el_rx_salt (opened_layer s c el) = el_rx_salt el"
  "el_key_filled (opened_layer s c el) = el_key_filled el"
  "layer_ok el \<Longrightarrow> layer_ok (opened_layer s c el)"
  by (simp_all add: opened_layer_def layer_ok_def)

lemma replay_window_opened:
  "replay_window s' (opened_layer s c el) = (if s' = s then snd (Accept c (replay_window s el)) else replay_window s' el)"
  by (rule replay_window_take) (simp add: opened_layer_def)

section \<open>A stream of messages\<close>

primrec run_out :: "('pk, 'm) openssl_scheme \<Rightarrow> (Buffer \<times> u8) list \<Rightarrow> 'pk EncryptionLayer \<Rightarrow> Buffer option list" where
  "run_out ssl [] el = []"
| "run_out ssl (m # ms) el = (let (out, el1) = HandleOut ssl (fst m) (snd m) el in out # run_out ssl ms el1)"

primrec run_in :: "('pk, 'm) openssl_scheme \<Rightarrow> Buffer list \<Rightarrow> 'pk EncryptionLayer \<Rightarrow> Buffer option list" where
  "run_in ssl [] el = []"
| "run_in ssl (b # bs) el = (let (out, el1) = HandleIn ssl b el in out # run_in ssl bs el1)"

text \<open>The stream and counter of a message, which follow its mode byte.\<close>

definition header_of :: "Buffer \<Rightarrow> bytes" where
  "header_of b = take kHeaderLen (drop 1 (contents b))"

definition body_of :: "Buffer \<Rightarrow> bytes" where
  "body_of b = take (length (contents b) - 1 - kHeaderLen - kTagLen) (drop (1 + kHeaderLen) (contents b))"

definition tag_of :: "Buffer \<Rightarrow> bytes" where
  "tag_of b = drop (length (contents b) - kTagLen) (contents b)"

lemma message_parts:
  assumes "contents b = kModeAesGcm # s # WriteCounter c @ ct @ tg" and "length tg = kTagLen"
  shows "header_of b = s # WriteCounter c" and "body_of b = ct" and "tag_of b = tg"
proof -
  show "header_of b = s # WriteCounter c" and "body_of b = ct"
    using assms by (simp_all add: header_of_def body_of_def crypt_lens)
  have "contents b = (kModeAesGcm # s # WriteCounter c @ ct) @ tg" using assms(1) by simp
  then show "tag_of b = tg" unfolding tag_of_def using assms(2)
    by (simp only: length_append add_diff_cancel_right') simp
qed

definition accepted_headers :: "Buffer list \<Rightarrow> Buffer option list \<Rightarrow> bytes list" where
  "accepted_headers bs outs = map (\<lambda>x. header_of (fst x)) (filter (\<lambda>x. snd x \<noteq> None) (zip bs outs))"

lemma accepted_headers_simps [simp]:
  "accepted_headers [] outs = []"
  "accepted_headers (b # bs) (out # outs)
     = (if out = None then accepted_headers bs outs else header_of b # accepted_headers bs outs)"
  by (simp_all add: accepted_headers_def)

lemma accepted_headers_mem:
  "h \<in> set (accepted_headers bs outs) \<longleftrightarrow> (\<exists>b o'. (b, Some o') \<in> set (zip bs outs) \<and> header_of b = h)"
  by (force simp: accepted_headers_def)

definition windows_of :: "(u8 \<Rightarrow> u64 list) \<Rightarrow> 'pk EncryptionLayer \<Rightarrow> bool" where
  "windows_of seen el \<longleftrightarrow> (\<forall>s. window_of (seen s) (replay_window s el))"

lemma windows_opened:
  assumes "windows_of seen el"
  shows "windows_of (seen(s := (if fresh c (seen s) then c # seen s else seen s))) (opened_layer s c el)"
    and "fst (Accept c (replay_window s el)) \<longleftrightarrow> fresh c (seen s)"
  using assms Accept_step [of "seen s" "replay_window s el" c]
  by (auto simp: windows_of_def replay_window_opened split: if_splits)

lemma windows_fresh: "el_rx_replay el = [] \<Longrightarrow> windows_of (\<lambda>_. []) el"
  by (simp add: windows_of_def replay_window_def window_init)

text \<open>What a run of incoming messages keeps, and what it says of the ones that were accepted.\<close>

definition authentic :: "('pk, 'm) openssl_scheme \<Rightarrow> bytes \<Rightarrow> bytes \<Rightarrow> Buffer \<Rightarrow> Buffer \<Rightarrow> bool" where
  "authentic ssl key salt b out \<longleftrightarrow> hd (contents b) = kModeAesGcm
     \<and> gcm_open ssl key (salt @ header_of b) [kModeAesGcm] (body_of b) (tag_of b) = Some (contents out)"

lemma run_in_accepted:
  assumes "gcm_law ssl" and "layer_ok el" and "el_key_filled el" and "windows_of seen el"
    and "\<forall>b\<in>set bs. stream_ok b \<and> length (contents b) \<le> int_max"
  shows "\<forall>(b, out)\<in>set (zip bs (run_in ssl bs el)). \<forall>o'. out = Some o' \<longrightarrow>
        authentic ssl (el_rx_key el) (el_rx_salt el) b o'
        \<and> (\<exists>s c. header_of b = s # WriteCounter c \<and> unat c < 2 ^ 56 \<and> c \<notin> set (seen s))"
    and "distinct (accepted_headers bs (run_in ssl bs el))"
proof -
  let ?ok = "\<lambda>el seen (b, out). \<forall>o'. out = Some o' \<longrightarrow> authentic ssl (el_rx_key el) (el_rx_salt el) b o'
      \<and> (\<exists>s c. header_of b = s # WriteCounter c \<and> unat c < 2 ^ 56 \<and> c \<notin> set (seen s :: u64 list))"
  have "(\<forall>x\<in>set (zip bs (run_in ssl bs el)). ?ok el seen x)
    \<and> distinct (accepted_headers bs (run_in ssl bs el))"
    using assms
  proof (induction bs arbitrary: el seen)
    case (Cons b bs)
    note IH = Cons.IH [OF Cons.prems(1)]
    have b: "stream_ok b" "length (contents b) \<le> int_max" "\<forall>b\<in>set bs. stream_ok b \<and> length (contents b) \<le> int_max"
      using Cons.prems(5) by simp_all
    from Cons.prems(1-3) b(1,2) show ?case
    proof (cases rule: HandleDecrypt_cases)
      case refused
      then show ?thesis using IH [OF Cons.prems(2-4) b(3)] by (simp add: HandleIn_def)
    next
      case forged
      let ?el = "el\<lparr>el_dec_ctx := Some (Some (el_rx_key el)), el_dec_keyed := el_dec_ctx el \<noteq> None \<and> el_dec_keyed el\<rparr>"
      have "layer_ok ?el" "el_key_filled ?el" "windows_of seen ?el"
        using Cons.prems(2-4) by (auto simp: layer_ok_def windows_of_def replay_window_def split: if_splits)
      from IH [OF this b(3)] show ?thesis using forged by (simp add: HandleIn_def)
    next
      case (opened s c ct tg pt)
      let ?el = "opened_layer s c el" let ?seen = "seen(s := (if fresh c (seen s) then c # seen s else seen s))"
      note w = windows_opened [OF Cons.prems(4), where s = s and c = c]
      have rest: "(\<forall>x\<in>set (zip bs (run_in ssl bs ?el)). ?ok ?el ?seen x)
          \<and> distinct (accepted_headers bs (run_in ssl bs ?el))"
        by (rule IH [OF _ _ w(1) b(3)]) (use Cons.prems(2,3) in simp_all)
      have weak: "?ok el seen x" if "?ok ?el ?seen x" for x
        using that by (cases x) (force split: if_splits)
      then have all: "\<forall>x\<in>set (zip bs (run_in ssl bs ?el)). ?ok el seen x" using rest by blast
      note parts = message_parts [OF opened(1,3)]
      show ?thesis
      proof (cases "fresh c (seen s)")
        case False
        then show ?thesis using rest all opened(6) w(2) by (auto simp: HandleIn_def)
      next
        case True
        have "length pt < 2 ^ 61" using opened(1,4) b(2) by (simp add: int_max_def)
        then have "contents (opened_bytes pt) = pt" by (rule opened_bytes)
        moreover have "BuildNonce (el_rx_salt el) s c = el_rx_salt el @ header_of b"
          using Cons.prems(2) by (simp add: BuildNonce_def layer_ok_def parts)
        ultimately have "authentic ssl (el_rx_key el) (el_rx_salt el) b (opened_bytes pt)"
          using opened(1,5) by (simp add: authentic_def parts)
        moreover have "c \<notin> set (seen s)" using True by (auto simp: fresh_def)
        moreover have no: "header_of b \<noteq> header_of b'"
          if "(b', Some o') \<in> set (zip bs (run_in ssl bs ?el))" for b' o'
        proof -
          from rest that obtain s' c' where "header_of b' = s' # WriteCounter c'" "unat c' < 2 ^ 56" "c' \<notin> set (?seen s')"
            by force
          then show ?thesis using True parts(1) opened(2) WriteCounter_inject [of c c'] by (auto split: if_splits)
        qed
        moreover have "header_of b \<notin> set (accepted_headers bs (run_in ssl bs ?el))"
          using no unfolding accepted_headers_mem by metis
        ultimately show ?thesis using True conjunct2 [OF rest] all opened(2,6) w(2) parts(1)
          by (auto simp: HandleIn_def)
      qed
    qed
  qed simp
  then show "\<forall>(b, out)\<in>set (zip bs (run_in ssl bs el)). \<forall>o'. out = Some o' \<longrightarrow>
        authentic ssl (el_rx_key el) (el_rx_salt el) b o'
        \<and> (\<exists>s c. header_of b = s # WriteCounter c \<and> unat c < 2 ^ 56 \<and> c \<notin> set (seen s))"
    and "distinct (accepted_headers bs (run_in ssl bs el))"
    by simp_all
qed

lemma HandleOut_cases:
  assumes "gcm_law ssl" and "layer_ok el" and "el_enable_encryption el" and "stream_ok b"
  obtains (refused) "HandleOut ssl b s el = (None, el)"
  | (exhausted) "HandleOut ssl b s el = (None, TxCounter s el)"
  | (sealed) out ct tg where "HandleOut ssl b s el = (Some out, sealed_layer s el)" and "next_counter s el \<noteq> kMaxCounter"
      and "gcm_seal ssl (el_tx_key el) (BuildNonce (el_tx_salt el) s (next_counter s el)) [kModeAesGcm] (contents b)
        = Some (ct, tg)"
      and "contents out = kModeAesGcm # s # WriteCounter (next_counter s el) @ ct @ tg"
      and "length tg = kTagLen"
proof (cases "length (contents b) \<le> int_max \<and> next_counter s el \<noteq> kMaxCounter")
  case True
  then have c: "next_counter s el \<noteq> kMaxCounter" and l: "length (contents b) \<le> int_max" by simp_all
  from HandleOut_encrypted [OF assms(1-3) c assms(4) l] sealed c
  show thesis using gcm_seal_length [OF assms(1)] by metis
next
  case False
  then show thesis
    using refused exhausted assms(3,4)
    by (cases "length (contents b) \<le> int_max")
      (auto simp: HandleOut_def Let_def TxCounter_eq(3) length_contents)
qed

lemma sealed_fields [simp]:
  "el_tx_key (sealed_layer s el) = el_tx_key el" "el_tx_salt (sealed_layer s el) = el_tx_salt el"
  "el_enable_encryption (sealed_layer s el) = el_enable_encryption el"
  by (simp_all add: sealed_layer_def)

lemma TxCounter_fields [simp]:
  "el_tx_key (TxCounter s el) = el_tx_key el" "el_tx_salt (TxCounter s el) = el_tx_salt el"
  "el_enable_encryption (TxCounter s el) = el_enable_encryption el"
  "next_counter s' (TxCounter s el) = next_counter s' el"
  "layer_ok el \<Longrightarrow> layer_ok (TxCounter s el)"
  by (auto simp: TxCounter_def next_counter_def nth_append layer_ok_def)

lemma next_counter_sealed_mono:
  assumes "layer_ok el" and "next_counter s el \<noteq> kMaxCounter"
  shows "next_counter s' el \<le> next_counter s' (sealed_layer s el)"
    and "unat (next_counter s (sealed_layer s el)) = Suc (unat (next_counter s el))"
    and "unat (next_counter s el) < 2 ^ 56 - 1"
proof -
  have "next_counter s el < kMaxCounter" using next_counter_le [OF assms(1), of s] assms(2) by simp
  then have "unat (next_counter s el) < unat kMaxCounter" by (simp only: word_less_nat_alt)
  then show lt: "unat (next_counter s el) < 2 ^ 56 - 1" by (simp add: kMaxCounter_eq)
  then have "unat (next_counter s el + 1) = Suc (unat (next_counter s el))" by (simp add: unat_word_ariths)
  then show "unat (next_counter s (sealed_layer s el)) = Suc (unat (next_counter s el))"
    and "next_counter s' el \<le> next_counter s' (sealed_layer s el)"
    by (simp_all add: next_counter_sealed word_le_nat_alt)
qed

definition sent_headers :: "Buffer option list \<Rightarrow> bytes list" where
  "sent_headers outs = map (header_of \<circ> the) (filter (\<lambda>out. out \<noteq> None) outs)"

lemma sent_headers_simps [simp]:
  "sent_headers [] = []" "sent_headers (None # outs) = sent_headers outs"
  "sent_headers (Some w # outs) = header_of w # sent_headers outs"
  by (simp_all add: sent_headers_def)

definition sealed_as :: "('pk, 'm) openssl_scheme \<Rightarrow> bytes \<Rightarrow> bytes \<Rightarrow> bytes \<Rightarrow> Buffer \<Rightarrow> bool" where
  "sealed_as ssl key salt pt w \<longleftrightarrow> hd (contents w) = kModeAesGcm
     \<and> gcm_seal ssl key (salt @ header_of w) [kModeAesGcm] pt = Some (body_of w, tag_of w)"

lemma run_out_sealed:
  assumes "gcm_law ssl" and "layer_ok el" and "el_enable_encryption el" and "\<forall>(b, s)\<in>set ms. stream_ok b"
  shows "\<forall>(m, out)\<in>set (zip ms (run_out ssl ms el)). \<forall>w. out = Some w \<longrightarrow>
      sealed_as ssl (el_tx_key el) (el_tx_salt el) (contents (fst m)) w"
    and "\<forall>h\<in>set (sent_headers (run_out ssl ms el)).
      \<exists>s c. h = s # WriteCounter c \<and> unat c < 2 ^ 56 \<and> next_counter s el \<le> c"
    and "distinct (sent_headers (run_out ssl ms el))"
proof -
  let ?P = "\<lambda>el ms. (\<forall>(m, out)\<in>set (zip ms (run_out ssl ms el)). \<forall>w. out = Some w \<longrightarrow>
      sealed_as ssl (el_tx_key el) (el_tx_salt el) (contents (fst m)) w)
    \<and> (\<forall>h\<in>set (sent_headers (run_out ssl ms el)).
      \<exists>s c. h = s # WriteCounter c \<and> unat c < 2 ^ 56 \<and> next_counter s el \<le> c)
    \<and> distinct (sent_headers (run_out ssl ms el))"
  have "?P el ms" using assms
  proof (induction ms arbitrary: el)
    case (Cons m ms)
    obtain b s where m: "m = (b, s)" by (cases m)
    have b: "stream_ok b" "\<forall>(b, s)\<in>set ms. stream_ok b" using Cons.prems(4) m by simp_all
    note IH = Cons.IH [OF Cons.prems(1) _ _ b(2)]
    from Cons.prems(1-3) b(1) show ?case
    proof (cases rule: HandleOut_cases [where s = s])
      case refused
      then show ?thesis using IH [OF Cons.prems(2,3)] m by simp
    next
      case exhausted
      then show ?thesis using IH [of "TxCounter s el"] Cons.prems(2,3) m by simp
    next
      case (sealed out ct tg)
      note mono = next_counter_sealed_mono [OF Cons.prems(2) sealed(2)]
      have rest: "?P (sealed_layer s el) ms"
        using IH [of "sealed_layer s el"] Cons.prems(3) layer_ok_sealed [OF Cons.prems(2) sealed(2)] by simp
      note parts = message_parts [OF sealed(4,5)]
      have "BuildNonce (el_tx_salt el) s (next_counter s el) = el_tx_salt el @ header_of out"
        using Cons.prems(2) by (simp add: BuildNonce_def layer_ok_def parts)
      then have "sealed_as ssl (el_tx_key el) (el_tx_salt el) (contents b) out"
        using sealed(3,4) by (simp add: sealed_as_def parts)
      moreover have later: "\<exists>s' c. h = s' # WriteCounter c \<and> unat c < 2 ^ 56 \<and> next_counter s' el \<le> c
          \<and> (s' = s \<longrightarrow> next_counter s el < c)"
        if "h \<in> set (sent_headers (run_out ssl ms (sealed_layer s el)))" for h
      proof -
        from rest that obtain s' c where h: "h = s' # WriteCounter c" "unat c < 2 ^ 56"
            "next_counter s' (sealed_layer s el) \<le> c" by blast
        moreover have "s' = s \<longrightarrow> next_counter s el < c"
          using h(3) mono(2) by (auto simp: word_less_nat_alt word_le_nat_alt)
        moreover have "next_counter s' el \<le> c" using mono(1) [of s'] h(3) by (rule order.trans)
        ultimately show ?thesis by blast
      qed
      moreover have "header_of out \<notin> set (sent_headers (run_out ssl ms (sealed_layer s el)))"
      proof
        assume "header_of out \<in> set (sent_headers (run_out ssl ms (sealed_layer s el)))"
        from later [OF this] obtain c where "WriteCounter (next_counter s el) = WriteCounter c" "unat c < 2 ^ 56"
            "next_counter s el < c" by (auto simp: parts(1))
        then show False using WriteCounter_inject [of "next_counter s el" c] mono(3) by simp
      qed
      moreover have "run_out ssl (m # ms) el = Some out # run_out ssl ms (sealed_layer s el)"
        using sealed(1) m by simp
      moreover have "\<exists>s' c. h = s' # WriteCounter c \<and> unat c < 2 ^ 56 \<and> next_counter s' el \<le> c"
        if "h = header_of out \<or> h \<in> set (sent_headers (run_out ssl ms (sealed_layer s el)))" for h
        using that
      proof
        assume "h = header_of out"
        then have "h = s # WriteCounter (next_counter s el) \<and> unat (next_counter s el) < 2 ^ 56" using parts(1) mono(3) by simp
        then show ?thesis by blast
      qed (use later in blast)
      ultimately show ?thesis using rest m by simp
    qed
  qed simp
  then show "\<forall>(m, out)\<in>set (zip ms (run_out ssl ms el)). \<forall>w. out = Some w \<longrightarrow>
      sealed_as ssl (el_tx_key el) (el_tx_salt el) (contents (fst m)) w"
    and "\<forall>h\<in>set (sent_headers (run_out ssl ms el)).
      \<exists>s c. h = s # WriteCounter c \<and> unat c < 2 ^ 56 \<and> next_counter s el \<le> c"
    and "distinct (sent_headers (run_out ssl ms el))" by simp_all
qed

lemma sent_opened:
  assumes "gcm_law ssl" and "layer_ok A" and "layer_ok B" and "el_enable_encryption A" and "el_key_filled B"
    and "el_tx_key A = el_rx_key B" and "el_tx_salt A = el_rx_salt B"
    and "stream_ok b" and "length (contents b) \<le> int_max" and "next_counter s A \<noteq> kMaxCounter"
  obtains w where "HandleOut ssl b s A = (Some w, sealed_layer s A)" and "stream_ok w"
    and "header_of w = s # WriteCounter (next_counter s A)"
    and "length (contents w) = length (contents b) + 25"
    and "HandleIn ssl w B = (if fst (Accept (next_counter s A) (replay_window s B)) then Some (opened_bytes (contents b)) else None,
          opened_layer s (next_counter s A) B)"
proof -
  obtain w ct tg where w: "HandleOut ssl b s A = (Some w, sealed_layer s A)"
      "gcm_seal ssl (el_tx_key A) (BuildNonce (el_tx_salt A) s (next_counter s A)) [kModeAesGcm] (contents b) = Some (ct, tg)"
      "contents w = kModeAesGcm # s # WriteCounter (next_counter s A) @ ct @ tg" "headroom 2 w"
    by (rule HandleOut_encrypted [OF assms(1,2,4,10,8,9)])
  have len: "length ct = length (contents b)" "length tg = kTagLen"
    using gcm_seal_length [OF assms(1) w(2)] by simp_all
  have opn: "gcm_open ssl (el_rx_key B) (BuildNonce (el_rx_salt B) s (next_counter s A)) [kModeAesGcm] ct tg = Some (contents b)"
    using assms(1) w(2) unfolding gcm_law_def assms(6,7) by blast
  have c: "unat (next_counter s A) < 2 ^ 56" using next_counter_sealed_mono(3) [OF assms(2,10)] by simp
  have ok: "stream_ok w" using w(4) by (simp add: headroom_def)
  have "HandleIn ssl w B = (if fst (Accept (next_counter s A) (replay_window s B)) then Some (opened_bytes (contents b)) else None,
      opened_layer s (next_counter s A) B)"
    using HandleDecrypt_gcm [OF assms(1,3,5) ok w(3) c len(2)] len(1) assms(9) opn by (simp add: HandleIn_def)
  then show thesis
    using that [OF w(1) ok] message_parts(1) [OF w(3) len(2)] w(3) len by (simp add: crypt_lens)
qed

text \<open>Receiver windows that lag behind the sender's counters.\<close>

definition in_sync :: "'pk EncryptionLayer \<Rightarrow> 'pk EncryptionLayer \<Rightarrow> bool" where
  "in_sync A B \<longleftrightarrow> (\<exists>seen. windows_of seen B \<and> (\<forall>s. \<forall>c\<in>set (seen s). c < next_counter s A))"

lemma in_sync_step:
  assumes "in_sync A B" and "layer_ok A" and "next_counter s A \<noteq> kMaxCounter"
  shows "fst (Accept (next_counter s A) (replay_window s B))"
    and "in_sync (sealed_layer s A) (opened_layer s (next_counter s A) B)"
proof -
  let ?c = "next_counter s A"
  obtain seen where seen: "windows_of seen B" "\<And>s c. c \<in> set (seen s) \<Longrightarrow> c < next_counter s A"
    using assms(1) by (auto simp: in_sync_def)
  then have fr: "fresh ?c (seen s)" by (auto simp: fresh_def)
  note w = windows_opened [OF seen(1), where s = s and c = ?c]
  show "fst (Accept ?c (replay_window s B))" using w(2) fr by simp
  note mono = next_counter_sealed_mono [OF assms(2,3)]
  have "?c < next_counter s (sealed_layer s A)" using mono(2) by (simp add: word_less_nat_alt)
  then have "c < next_counter s' (sealed_layer s A)" if "c \<in> set ((seen(s := ?c # seen s)) s')" for s' c
    using that seen(2) mono(1) [of s'] by (auto split: if_splits intro: order.strict_trans2 order.strict_trans)
  moreover have "windows_of (seen(s := ?c # seen s)) (opened_layer s ?c B)" using w(1) fr by simp
  ultimately show "in_sync (sealed_layer s A) (opened_layer s ?c B)" unfolding in_sync_def by blast
qed

lemma run_out_run_in:
  assumes "gcm_law ssl" and "layer_ok A" and "layer_ok B" and "el_enable_encryption A" and "el_key_filled B"
    and "el_tx_key A = el_rx_key B" and "el_tx_salt A = el_rx_salt B" and "in_sync A B"
    and "\<forall>(b, s)\<in>set ms. stream_ok b \<and> length (contents b) \<le> int_max"
    and "\<forall>s. unat (next_counter s A) + length ms < 2 ^ 56"
  shows "None \<notin> set (run_out ssl ms A)
    \<and> map (map_option contents) (run_in ssl (map the (run_out ssl ms A)) B) = map (\<lambda>m. Some (contents (fst m))) ms"
  using assms
proof (induction ms arbitrary: A B)
  case (Cons m ms)
  obtain b s where m: "m = (b, s)" by (cases m)
  have b: "stream_ok b" "length (contents b) \<le> int_max" using Cons.prems(9) m by simp_all
  have "unat (next_counter s A) < unat kMaxCounter" using spec [OF Cons.prems(10), of s] by (simp add: kMaxCounter_eq)
  then have c: "next_counter s A \<noteq> kMaxCounter" by auto
  note step = in_sync_step [OF Cons.prems(8,2) c] next_counter_sealed_mono [OF Cons.prems(2) c]
  obtain w where w: "HandleOut ssl b s A = (Some w, sealed_layer s A)"
      "HandleIn ssl w B = (Some (opened_bytes (contents b)), opened_layer s (next_counter s A) B)"
    using sent_opened [OF Cons.prems(1-7) b c] step(1) by auto
  have o: "contents (opened_bytes (contents b)) = contents b"
    by (rule opened_bytes) (use b(2) in \<open>simp add: int_max_def\<close>)
  have "unat (next_counter s' (sealed_layer s A)) + length ms < 2 ^ 56" for s'
    using spec [OF Cons.prems(10), of s'] step(4) by (cases "s' = s") (simp_all add: next_counter_sealed)
  then have "None \<notin> set (run_out ssl ms (sealed_layer s A))
    \<and> map (map_option contents) (run_in ssl (map the (run_out ssl ms (sealed_layer s A))) (opened_layer s (next_counter s A) B))
      = map (\<lambda>m. Some (contents (fst m))) ms"
    using Cons.prems(3-7,9) step(2) layer_ok_sealed [OF Cons.prems(2) c]
    by (intro Cons.IH [OF Cons.prems(1)]) simp_all
  then show ?case using m w o by simp
qed simp

section \<open>The guarantees of the cipher\<close>

text \<open>
  A concrete library for the witnesses: keys are exponents in an additive group, with their
  public halves, and sealing adds a checksum.
\<close>

definition checksum :: "bytes \<Rightarrow> byte" where
  "checksum bs = foldr (+) bs 0"

definition sample_ssl :: "(u8 + u8) openssl" where
  "sample_ssl = \<lparr>
     i2d_PUBKEY = (\<lambda>k. Some [case k of Inl x \<Rightarrow> 3 * x | Inr y \<Rightarrow> y]),
     d2i_PUBKEY = (\<lambda>der. Some (Inr (hd der))),
     EVP_PKEY_up_ref = (\<lambda>_. True),
     EVP_PKEY_derive = (\<lambda>k p. case k of Inl x \<Rightarrow> Some [x * (case p of Inl z \<Rightarrow> 3 * z | Inr y \<Rightarrow> y)] | Inr _ \<Rightarrow> None),
     EVP_HKDF = (\<lambda>salt secret info n. Some (map (\<lambda>i. checksum (salt @ secret @ info) + word_of_nat i) [0..<n])),
     EVP_Digest = (\<lambda>m. Some (replicate 32 (checksum m))),
     EVP_CIPHER_CTX_new = True,
     gcm_seal = (\<lambda>k n a p. Some (map (\<lambda>x. x + checksum k) p, replicate 16 (checksum (k @ n @ a @ p)))),
     gcm_open = (\<lambda>k n a c t. let p = map (\<lambda>x. x - checksum k) c
        in if t = replicate 16 (checksum (k @ n @ a @ p)) then Some p else None)\<rparr>"

lemma sample_gcm: "gcm_law sample_ssl"
  by (simp add: gcm_law_def sample_ssl_def kTagLen_def comp_def Let_def)

lemma sample_hkdf: "hkdf_law sample_ssl"
  by (simp add: hkdf_law_def sample_ssl_def)

definition sample_sender :: "(u8 + u8) EncryptionLayer" where
  "sample_sender = (EncryptionLayer_fields None)\<lparr>el_enable_encryption := True, el_key_filled := True\<rparr>"

lemma sample_sender:
  "layer_ok sample_sender" "el_enable_encryption sample_sender" "el_key_filled sample_sender"
  "el_tx_counters sample_sender = []" "el_rx_replay sample_sender = []"
  "el_tx_key sample_sender = el_rx_key sample_sender" "el_tx_salt sample_sender = el_rx_salt sample_sender"
  by (simp_all add: sample_sender_def EncryptionLayer_fields_def layer_ok_def kNonceSaltLen_def)

definition sample_text :: Buffer where
  "sample_text = Write default_new [1, 2, 3] (Buffer_new LittleEndian)"

lemma sample_text: "stream_ok sample_text" "contents sample_text = [1, 2, 3]"
  using emits_new(1,2) [OF heap.emits_Write [of LittleEndian "[1, 2, 3]"]] by (simp_all add: sample_text_def)

text \<open>
  C5. Over any sequence of messages a session encrypts, on any streams and in any order, every
  message that goes out was sealed under the session's sending key with the nonce its own
  header states (the secret salt followed by stream and counter), and no two of these nonces
  are the same: no pair of key and nonce is used twice.
\<close>

theorem nonces_never_repeat:
  assumes "gcm_law ssl" and "layer_ok el" and "el_enable_encryption el" and "\<forall>(b, s)\<in>set ms. stream_ok b"
  shows "(\<forall>(m, out)\<in>set (zip ms (run_out ssl ms el)). \<forall>w. out = Some w \<longrightarrow>
      sealed_as ssl (el_tx_key el) (el_tx_salt el) (contents (fst m)) w)
    \<and> distinct (map (\<lambda>h. el_tx_salt el @ h) (sent_headers (run_out ssl ms el)))"
  using run_out_sealed [OF assms] by (simp add: distinct_map inj_on_def)

theorem nonces_never_repeat_witness:
  "distinct (map (\<lambda>h. el_tx_salt sample_sender @ h)
     (sent_headers (run_out sample_ssl [(sample_text, 0), (sample_text, 3), (sample_text, 0)] sample_sender)))"
  using nonces_never_repeat [OF sample_gcm sample_sender(1,2),
      of "[(sample_text, 0), (sample_text, 3), (sample_text, 0)]"] sample_text by simp



text \<open>
  Two ends whose keys match carry every message: whatever sequence of messages the one
  encrypts (up to the 2 to the 56 of the counter), none is refused, and decrypting them in the
  order they were sent gives every message back, byte for byte.
\<close>

lemma sent_messages_arrive:
  assumes "gcm_law ssl" and "layer_ok A" and "layer_ok B" and "el_enable_encryption A" and "el_key_filled B"
    and "el_tx_key A = el_rx_key B" and "el_tx_salt A = el_rx_salt B"
    and "el_tx_counters A = []" and "el_rx_replay B = []"
    and "\<forall>(b, s)\<in>set ms. stream_ok b \<and> length (contents b) \<le> int_max" and "length ms < 2 ^ 56"
  shows "None \<notin> set (run_out ssl ms A)
    \<and> map (map_option contents) (run_in ssl (map the (run_out ssl ms A)) B) = map (\<lambda>m. Some (contents (fst m))) ms"
proof (rule run_out_run_in [OF assms(1-7) _ assms(10)])
  have "next_counter s A = 0" for s using assms(8) by (simp add: next_counter_def)
  then show "\<forall>s. unat (next_counter s A) + length ms < 2 ^ 56" using assms(11) by simp
  show "in_sync A B" unfolding in_sync_def using windows_fresh [OF assms(9)] by fastforce
qed

end
