(* ===== verification/Compression.thy ===== *)
theory Compression
  imports Buffer_Layout Znet_Options
begin

text \<open>
  Compression of one message, \<open>compression.h\<close> and \<open>compression.cc\<close>. Zstandard is a library
  outside the sources: its functions are the fields of the record \<open>zstd\<close>, a build without it
  has none, and \<open>zstd_law\<close> states what the code relies on. A value of the enumeration that is
  none of its enumerators, which a cast from a received byte can produce, is \<open>CompressionValue\<close>.
\<close>

section \<open>Types\<close>

definition GetCompressionTypeRaw :: "CompressionType \<Rightarrow> u8" where
  "GetCompressionTypeRaw t =
     (case t of CompressionNone \<Rightarrow> 0 | Zstandard \<Rightarrow> 1 | CompressionDefault \<Rightarrow> 0xFF | CompressionValue r \<Rightarrow> r)"

definition compression_of_raw :: "u8 \<Rightarrow> CompressionType" where
  "compression_of_raw r =
     (if r = 0 then CompressionNone else if r = 1 then Zstandard
      else if r = 0xFF then CompressionDefault else CompressionValue r)"

definition GetCompressionTypeString :: "CompressionType \<Rightarrow> string" where
  "GetCompressionTypeString t =
     (case t of CompressionNone \<Rightarrow> ''None'' | Zstandard \<Rightarrow> ''Zstandard'' | _ \<Rightarrow> ''Unknown'')"

datatype content_size = ContentSizeError | ContentSizeUnknown | ContentSize nat

record zstd =
  ZSTD_getFrameContentSize :: "bytes \<Rightarrow> content_size"
  ZSTD_decompress :: "nat \<Rightarrow> bytes \<Rightarrow> bytes option"
  ZSTD_compressBound :: "nat \<Rightarrow> nat"
  ZSTD_compress :: "nat \<Rightarrow> bytes \<Rightarrow> nat \<Rightarrow> bytes option"

type_synonym build = "zstd option"

definition ResolveCompressionType :: "build \<Rightarrow> CompressionType \<Rightarrow> CompressionType" where
  "ResolveCompressionType z t =
     (if t \<noteq> CompressionDefault then t
      else case z of Some _ \<Rightarrow> Zstandard | None \<Rightarrow> CompressionNone)"

section \<open>The codecs\<close>

definition None_HandleOut :: "Buffer \<Rightarrow> Buffer" where
  "None_HandleOut b =
     (case PrependInt8 (GetCompressionTypeRaw CompressionNone) b of
        (True, b') \<Rightarrow> b'
      | (False, b') \<Rightarrow>
          let out0 = ReserveHeadroom 3 (Buffer_new LittleEndian);
              out1 = snd (ReserveExact default_new (readable_bytes b' + 4) out0);
              out2 = WriteInt default_new (GetCompressionTypeRaw CompressionNone) out1
          in Write default_new (take (readable_bytes b') (read_cursor_data b')) out2)"

definition DecompressZstd :: "zstd \<Rightarrow> Buffer \<Rightarrow> Buffer option" where
  "DecompressZstd z b =
     (let src = take (readable_bytes b) (read_cursor_data b)
      in case ZSTD_getFrameContentSize z src of
           ContentSizeError \<Rightarrow> None
         | ContentSizeUnknown \<Rightarrow> None
         | ContentSize bound \<Rightarrow>
             let nb = snd (ReserveExact default_new bound (Buffer_new LittleEndian))
             in (case ZSTD_decompress z bound src of
                   None \<Rightarrow> None
                 | Some out \<Rightarrow> Some (CommitWrite (length out) (poke (buf_write_cursor nb) out nb))))"

definition CompressZstd :: "zstd \<Rightarrow> Buffer \<Rightarrow> Buffer option" where
  "CompressZstd z b =
     (let max_size = ZSTD_compressBound z (readable_bytes b); kFront = 4;
          nb0 = ReserveHeadroom kFront (Buffer_new LittleEndian);
          nb = snd (ReserveExact default_new (kFront + max_size) nb0)
      in case ZSTD_compress z max_size (take (readable_bytes b) (read_cursor_data b)) 2 of
           None \<Rightarrow> None
         | Some out \<Rightarrow> Some (CommitWrite (length out) (poke (buf_write_cursor nb) out nb)))"

definition Zstandard_HandleOut :: "zstd \<Rightarrow> Buffer \<Rightarrow> Buffer option" where
  "Zstandard_HandleOut z b =
     (case CompressZstd z b of
        None \<Rightarrow> None
      | Some compressed \<Rightarrow>
          (case PrependInt8 (GetCompressionTypeRaw Zstandard) compressed of
             (False, _) \<Rightarrow> None
           | (True, b') \<Rightarrow> Some b'))"

definition HandleOutWithType :: "build \<Rightarrow> CompressionType \<Rightarrow> Buffer \<Rightarrow> Buffer option" where
  "HandleOutWithType z t b =
     (case t of
        CompressionNone \<Rightarrow> Some (None_HandleOut b)
      | Zstandard \<Rightarrow> (case z of Some zl \<Rightarrow> Zstandard_HandleOut zl b | None \<Rightarrow> Some (None_HandleOut b))
      | _ \<Rightarrow> None)"

definition HandleInWithType :: "build \<Rightarrow> CompressionType \<Rightarrow> Buffer \<Rightarrow> Buffer option" where
  "HandleInWithType z t b =
     (case t of
        CompressionNone \<Rightarrow> Some b
      | Zstandard \<Rightarrow> (case z of Some zl \<Rightarrow> DecompressZstd zl b | None \<Rightarrow> None)
      | _ \<Rightarrow> None)"

definition HandleInDynamic :: "build \<Rightarrow> Buffer \<Rightarrow> Buffer option" where
  "HandleInDynamic z b = (let (r, b1) = ReadInt b in HandleInWithType z (compression_of_raw r) b1)"

section \<open>What the code relies on\<close>

text \<open>
  Zstandard as documented: compressing into a destination of \<open>ZSTD_compressBound\<close> bytes
  succeeds, the frame states the size of what it holds, decompressing it into that size gives
  it back, and no function writes past the capacity it was given. The bound is a small
  overhead on the size.
\<close>

definition zstd_law :: "zstd \<Rightarrow> bool" where
  "zstd_law z \<longleftrightarrow>
     (\<forall>src. length src < 2 ^ 56 \<longrightarrow> ZSTD_compressBound z (length src) \<le> 2 * length src + 1024 \<and>
        (\<exists>out. ZSTD_compress z (ZSTD_compressBound z (length src)) src 2 = Some out
           \<and> length out \<le> ZSTD_compressBound z (length src)
           \<and> ZSTD_getFrameContentSize z out = ContentSize (length src)
           \<and> ZSTD_decompress z (length src) out = Some src))"

lemma zstd_lawE:
  assumes "zstd_law z" and "length src < 2 ^ 56"
  obtains out where "ZSTD_compress z (ZSTD_compressBound z (length src)) src 2 = Some out"
    and "length out \<le> ZSTD_compressBound z (length src)" and "ZSTD_compressBound z (length src) \<le> 2 * length src + 1024"
    and "ZSTD_getFrameContentSize z out = ContentSize (length src)"
    and "ZSTD_decompress z (length src) out = Some src"
  using assms unfolding zstd_law_def by blast

section \<open>The round trip\<close>

lemma raw_inverse [simp]: "compression_of_raw (GetCompressionTypeRaw CompressionNone) = CompressionNone"
  "compression_of_raw (GetCompressionTypeRaw Zstandard) = Zstandard"
  by (simp_all add: compression_of_raw_def GetCompressionTypeRaw_def)

text \<open>The payload laid out behind headroom and a type byte in a fresh buffer.\<close>

lemma tagged_bytes:
  fixes x :: u8 and pt :: bytes
  assumes "h + length pt + 1 < 2 ^ 60"
  defines "out \<equiv> Write default_new pt (WriteInt default_new x
      (snd (ReserveExact default_new (length pt + Suc h) (ReserveHeadroom h (Buffer_new LittleEndian)))))"
  shows "contents out = x # pt" and "headroom h out" and "buf_endianness out = LittleEndian"
    and "buf_last_error out = NoBufferError"
proof -
  let ?nb0 = "ReserveHeadroom h (Buffer_new LittleEndian)"
  let ?nb1 = "snd (ReserveExact default_new (length pt + Suc h) ?nb0)"
  have 1: "appended ?nb0 ?nb1 []" "spare ?nb1 (1 + (length pt + 0))"
    by (rule heap.ReserveExact_spare [where n = "1 + (length pt + 0)"];
        use assms(1) in \<open>simp add: room_headroom\<close>)+
  note 2 = spare_WriteByte [OF 1(2), of default_new x]
  note 3 = spare_Write [OF 2(2), of default_new]
  have a: "appended ?nb0 out (x # pt)"
    using appended_trans [OF appended_trans [OF 1(1) 2(1)] 3(1)] by (simp add: out_def)
  have c: "spare out 0" using 3(2) by (simp add: out_def)
  show "contents out = x # pt" "buf_endianness out = LittleEndian" "buf_last_error out = NoBufferError"
    using a by (simp_all add: appended_def)
  show "headroom h out" using a c by (simp add: headroom_def spare_def appended_def)
qed

lemma filled_bytes:
  assumes "h + n < 2 ^ 60" and "length pt \<le> n"
  defines "nb \<equiv> snd (ReserveExact default_new (h + n) (ReserveHeadroom h (Buffer_new LittleEndian)))"
  shows "contents (CommitWrite (length pt) (poke (buf_write_cursor nb) pt nb)) = pt"
    and "headroom h (CommitWrite (length pt) (poke (buf_write_cursor nb) pt nb))"
    and "buf_endianness (CommitWrite (length pt) (poke (buf_write_cursor nb) pt nb)) = LittleEndian"
    and "buf_last_error (CommitWrite (length pt) (poke (buf_write_cursor nb) pt nb)) = NoBufferError"
proof -
  let ?nb0 = "ReserveHeadroom h (Buffer_new LittleEndian)"
  have "appended ?nb0 nb []" "spare nb n" unfolding nb_def
    by (rule heap.ReserveExact_spare [where n = n]; use assms(1) in \<open>simp add: room_headroom\<close>)+
  moreover from this have c: "spare nb (length pt + (n - length pt))" using assms(2) by simp
  note p = spare_poke [OF c]
  ultimately show "contents (CommitWrite (length pt) (poke (buf_write_cursor nb) pt nb)) = pt"
    and "headroom h (CommitWrite (length pt) (poke (buf_write_cursor nb) pt nb))"
    and "buf_endianness (CommitWrite (length pt) (poke (buf_write_cursor nb) pt nb)) = LittleEndian"
    and "buf_last_error (CommitWrite (length pt) (poke (buf_write_cursor nb) pt nb)) = NoBufferError"
    using p by (simp_all add: appended_def headroom_def spare_def)
qed

text \<open>A whole message between two stages: nothing limits or has failed reading it.\<close>

definition message_buffer :: "Buffer \<Rightarrow> bool" where
  "message_buffer b \<longleftrightarrow> stream_ok b \<and> buf_read_limit b = size_max \<and> buf_endianness b = LittleEndian
     \<and> buf_last_error b = NoBufferError"

lemma message_bytes:
  "message_buffer b \<Longrightarrow> take (length (contents b)) (read_cursor_data b) = contents b
     \<and> readable_bytes b = length (contents b)"
  using length_contents [of b] by (auto simp: message_buffer_def contents_def)

lemma headroom_message:
  "headroom k b \<Longrightarrow> buf_endianness b = LittleEndian \<Longrightarrow> buf_last_error b = NoBufferError \<Longrightarrow> message_buffer b"
  by (simp add: message_buffer_def headroom_def)

lemma None_HandleOut_bytes:
  assumes "message_buffer b" and "length (contents b) < 2 ^ 56"
  shows "message_buffer (None_HandleOut b)"
    and "contents (None_HandleOut b) = GetCompressionTypeRaw CompressionNone # contents b"
proof -
  let ?x = "GetCompressionTypeRaw CompressionNone"
  have "message_buffer (None_HandleOut b) \<and> contents (None_HandleOut b) = ?x # contents b"
  proof (cases "buf_read_cursor b = 0 \<or> buf_data b = None")
    case True
    have r: "take (length (contents b)) (read_cursor_data b) = contents b" "readable_bytes b = length (contents b)"
      using message_bytes [OF assms(1)] by blast+
    have "None_HandleOut b = Write default_new (contents b) (WriteInt default_new ?x
      (snd (ReserveExact default_new (length (contents b) + Suc 3) (ReserveHeadroom 3 (Buffer_new LittleEndian)))))"
      using True by (simp add: None_HandleOut_def PrependInt8_def Let_def r)
    then show ?thesis using tagged_bytes [where h = 3 and pt = "contents b" and x = ?x] assms(2)
      by (auto intro: headroom_message)
  next
    case False
    then have h: "headroom (Suc 0) b" using assms(1) by (auto simp: headroom_def message_buffer_def)
    obtain b' where "PrependInt8 ?x b = (True, b')" "headroom 0 b'" "contents b' = ?x # contents b"
        "buf_endianness b' = buf_endianness b" "buf_last_error b' = buf_last_error b"
      by (rule PrependInt8_headroom [OF h])
    then show ?thesis using assms(1) headroom_message [of 0 b'] by (simp add: None_HandleOut_def message_buffer_def)
  qed
  then show "message_buffer (None_HandleOut b)"
    and "contents (None_HandleOut b) = ?x # contents b" by simp_all
qed

lemma Zstandard_HandleOut_bytes:
  assumes "zstd_law z" and "message_buffer b" and "length (contents b) < 2 ^ 56"
  obtains w out where "Zstandard_HandleOut z b = Some w" and "message_buffer w"
    and "contents w = GetCompressionTypeRaw Zstandard # out" and "length out \<le> 2 * length (contents b) + 1024"
    and "ZSTD_getFrameContentSize z out = ContentSize (length (contents b))"
    and "ZSTD_decompress z (length (contents b)) out = Some (contents b)"
proof -
  let ?n = "ZSTD_compressBound z (length (contents b))"
  obtain out where out: "ZSTD_compress z ?n (contents b) 2 = Some out" "length out \<le> ?n" "?n \<le> 2 * length (contents b) + 1024"
      "ZSTD_getFrameContentSize z out = ContentSize (length (contents b))"
      "ZSTD_decompress z (length (contents b)) out = Some (contents b)"
    by (rule zstd_lawE [OF assms(1,3)])
  have r: "take (length (contents b)) (read_cursor_data b) = contents b" "readable_bytes b = length (contents b)"
    using message_bytes [OF assms(2)] by blast+
  define nb where "nb = snd (ReserveExact default_new (4 + ?n) (ReserveHeadroom 4 (Buffer_new LittleEndian)))"
  define c where "c = CommitWrite (length out) (poke (buf_write_cursor nb) out nb)"
  have c: "CompressZstd z b = Some c" using out(1) by (simp add: CompressZstd_def r c_def nb_def Let_def)
  have "4 + ?n < 2 ^ 60" using out(3) assms(3) by simp
  note f = filled_bytes [OF this out(2), folded nb_def c_def]
  have "headroom (Suc 3) c" using f(2) by simp
  from PrependInt8_headroom [OF this]
  obtain w where w: "PrependInt8 (GetCompressionTypeRaw Zstandard) c = (True, w)" "headroom 3 w"
      "contents w = GetCompressionTypeRaw Zstandard # contents c"
      "buf_endianness w = buf_endianness c" "buf_last_error w = buf_last_error c" by metis
  show thesis
    by (rule that [of w out]) (use c w f out headroom_message [OF w(2)] in \<open>simp_all add: Zstandard_HandleOut_def\<close>)
qed

definition build_ok :: "build \<Rightarrow> bool" where
  "build_ok z \<longleftrightarrow> (case z of None \<Rightarrow> True | Some zl \<Rightarrow> zstd_law zl)"

lemma ReadInt_byte:
  assumes "message_buffer b" and "contents b = x # rest"
  obtains b' where "(ReadInt b :: u8 \<times> Buffer) = (x, b')" and "message_buffer b'" and "contents b' = rest"
  by (rule parsesE [OF parses_ReadInt [of LittleEndian x], of b rest])
    (use assms that in \<open>auto simp: message_buffer_def consumed_def\<close>)

lemma DecompressZstd_bytes:
  assumes "message_buffer b" and "ZSTD_getFrameContentSize z (contents b) = ContentSize n"
    and "ZSTD_decompress z n (contents b) = Some pt" and "length pt = n" and "n < 2 ^ 56"
  obtains b' where "DecompressZstd z b = Some b'" and "message_buffer b'" and "contents b' = pt"
proof -
  have r: "take (readable_bytes b) (read_cursor_data b) = contents b" by (simp add: contents_def)
  have new: "ReserveHeadroom 0 (Buffer_new LittleEndian) = Buffer_new LittleEndian"
    by (simp add: ReserveHeadroom_def Buffer_new_def)
  have "0 + n < 2 ^ 60" using assms(5) by simp
  note f = filled_bytes [OF this, of pt, unfolded new]
  show thesis
    by (rule that [OF _ headroom_message [OF f(2-4)] f(1)])
      (use assms in \<open>simp_all add: DecompressZstd_def r Let_def\<close>)
qed

lemma compression_roundtrip:
  assumes "build_ok z" and "t = CompressionNone \<or> t = Zstandard" and "message_buffer b" and "length (contents b) < 2 ^ 56"
  obtains w where "HandleOutWithType z t b = Some w" and "message_buffer w"
    and "length (contents w) \<le> 2 * length (contents b) + 1025"
    and "\<And>w'. message_buffer w' \<Longrightarrow> contents w' = contents w \<Longrightarrow>
      \<exists>b'. HandleInDynamic z w' = Some b' \<and> message_buffer b' \<and> contents b' = contents b"
proof (cases "t = Zstandard \<and> z \<noteq> None")
  case True
  then obtain zl where z: "z = Some zl" "zstd_law zl" "t = Zstandard" using assms(1) by (auto simp: build_ok_def)
  obtain w out where w: "Zstandard_HandleOut zl b = Some w" "message_buffer w"
    "contents w = GetCompressionTypeRaw Zstandard # out" "length out \<le> 2 * length (contents b) + 1024"
    "ZSTD_getFrameContentSize zl out = ContentSize (length (contents b))"
    "ZSTD_decompress zl (length (contents b)) out = Some (contents b)"
    by (rule Zstandard_HandleOut_bytes [OF z(2) assms(3,4)])
  have "\<exists>b'. HandleInDynamic z w' = Some b' \<and> message_buffer b' \<and> contents b' = contents b"
    if w': "message_buffer w'" "contents w' = contents w" for w'
  proof -
    have "contents w' = GetCompressionTypeRaw Zstandard # out" using w'(2) w(3) by simp
    from ReadInt_byte [OF w'(1) this]
    obtain b1 where 1: "(ReadInt w' :: u8 \<times> Buffer) = (GetCompressionTypeRaw Zstandard, b1)" "message_buffer b1" "contents b1 = out"
      by metis
    obtain b' where "DecompressZstd zl b1 = Some b'" "message_buffer b'" "contents b' = contents b"
      by (rule DecompressZstd_bytes [OF 1(2), of zl "length (contents b)" "contents b"]) (use w(5,6) 1(3) assms(4) in simp_all)
    then show ?thesis using 1(1) z by (simp add: HandleInDynamic_def HandleInWithType_def)
  qed
  then show thesis using that [of w] w z by (simp add: HandleOutWithType_def)
next
  case False
  note n = None_HandleOut_bytes [OF assms(3,4)]
  have "\<exists>b'. HandleInDynamic z w' = Some b' \<and> message_buffer b' \<and> contents b' = contents b"
    if w': "message_buffer w'" "contents w' = contents (None_HandleOut b)" for w'
  proof -
    have "contents w' = GetCompressionTypeRaw CompressionNone # contents b" using w'(2) n(2) by simp
    from ReadInt_byte [OF w'(1) this]
    obtain b1 where "(ReadInt w' :: u8 \<times> Buffer) = (GetCompressionTypeRaw CompressionNone, b1)" "message_buffer b1" "contents b1 = contents b"
      by metis
    then show ?thesis by (simp add: HandleInDynamic_def HandleInWithType_def)
  qed
  then show thesis
    using that [of "None_HandleOut b"] n assms(2) False by (auto simp: HandleOutWithType_def)
qed

end
