(* ===== verification/Packet_Codec.thy ===== *)
theory Packet_Codec
  imports Compression
begin

text \<open>
  Packets and frames, \<open>codec.h\<close>, \<open>codec.cc\<close> and \<open>packet_serializer.h\<close>: a registry of
  serializers, the framing of one packet, and the loop that decodes a buffer of frames and
  hands the packets to a handler. Packets are of any type, serializers are functions on
  buffers, and a handler is a function on some state; \<open>alive\<close> says of that state whether the
  codec that is being executed still exists, since a handler may release it.
\<close>

section \<open>Serializers and the registry\<close>

text \<open>
  A serializer gets the frame's buffer and leaves it as it likes. It answers with nothing,
  with that same buffer (\<open>Some None\<close>) or with a buffer of its own.
\<close>

record 'p PacketSerializer =
  ser_Serialize :: "'p \<Rightarrow> Buffer \<Rightarrow> Buffer \<times> Buffer option option"
  ser_Deserialize :: "Buffer \<Rightarrow> 'p option \<times> Buffer"

type_synonym 'p Codec = "u64 \<Rightarrow> 'p PacketSerializer option"

definition Codec_new :: "'p Codec" where
  "Codec_new = Map.empty"

definition Codec_Add :: "u64 \<Rightarrow> 'p PacketSerializer \<Rightarrow> 'p Codec \<Rightarrow> 'p Codec" where
  "Codec_Add pid ser codec = (case codec pid of None \<Rightarrow> codec(pid \<mapsto> ser) | Some _ \<Rightarrow> codec)"

section \<open>Framing a packet\<close>

definition Codec_Serialize :: "('p \<Rightarrow> u64) \<Rightarrow> 'p Codec \<Rightarrow> 'p \<Rightarrow> nat \<Rightarrow> Buffer option" where
  "Codec_Serialize packet_id codec p hroom =
     (case codec (packet_id p) of
        None \<Rightarrow> None
      | Some ser \<Rightarrow>
          let b0 = Buffer_new LittleEndian;
              b1 = (if hroom \<noteq> 0 then ReserveHeadroom hroom b0 else b0);
              b2 = WriteVarInt default_new (packet_id p) b1;
              b3 = WriteInt default_new (0 :: u32) b2;
              write_cursor = buf_write_cursor b3;
              (b4, out) = ser_Serialize ser p b3
          in (case out of
                None \<Rightarrow> None
              | Some same \<Rightarrow>
                  let b5 = (case same of
                              None \<Rightarrow> b4
                            | Some own \<Rightarrow> Write default_new (take (readable_bytes own) (read_cursor_data own)) b4);
                      write_cursor_end = buf_write_cursor b5;
                      sz = sz_sub write_cursor_end write_cursor;
                      b6 = set_write_cursor (sz_sub write_cursor 4) b5;
                      b7 = WriteInt default_new (word_of_nat sz :: u32) b6
                  in Some (set_write_cursor write_cursor_end b7)))"

section \<open>Decoding a buffer of frames\<close>

record DecodeStats =
  ds_invalid_frames :: u32
  ds_framing_lost :: bool

definition DecodeStats_init :: DecodeStats where
  "DecodeStats_init = \<lparr>ds_invalid_frames = 0, ds_framing_lost = False\<rparr>"

definition note_invalid :: "DecodeStats \<Rightarrow> DecodeStats" where
  "note_invalid st = st\<lparr>ds_invalid_frames := ds_invalid_frames st + 1\<rparr>"

text \<open>How one round of the loop ends: with the next round, with the loop's end, or by touching a released codec.\<close>

datatype 's frame_step =
    Continue Buffer DecodeStats 's
  | Break DecodeStats 's
  | UseAfterFree 's

definition decode_payload ::
  "'p Codec \<Rightarrow> ('p \<Rightarrow> 's \<Rightarrow> 's) \<Rightarrow> ('s \<Rightarrow> bool) \<Rightarrow> u64 \<Rightarrow> nat \<Rightarrow> Buffer \<Rightarrow> DecodeStats \<Rightarrow> 's \<Rightarrow> 's frame_step" where
  "decode_payload codec Handle alive packet_id sz b st s =
     (let read_cursor = buf_read_cursor b
      in if \<not> alive s then UseAfterFree s
         else (case codec packet_id of
                 None \<Rightarrow> Continue (SkipRead sz b) st s
               | Some ser \<Rightarrow>
                   let (pk, b1) = ser_Deserialize ser (SetReadLimit (sz_add read_cursor sz) b)
                   in (case pk of
                         None \<Rightarrow>
                           Continue (SetReadLimit 0 (SkipRead sz (set_read_cursor read_cursor b1))) (note_invalid st) s
                       | Some p \<Rightarrow>
                           let read_bytes = sz_sub (buf_read_cursor b1) read_cursor
                           in if read_bytes > sz then Break ((note_invalid st)\<lparr>ds_framing_lost := True\<rparr>) s
                              else let b2 = (if read_bytes < sz
                                             then SkipRead sz (set_read_cursor read_cursor b1) else b1)
                                   in Continue (SetReadLimit 0 b2) st (Handle p s))))"

definition decode_frame ::
  "'p Codec \<Rightarrow> ('p \<Rightarrow> 's \<Rightarrow> 's) \<Rightarrow> ('s \<Rightarrow> bool) \<Rightarrow> Buffer \<Rightarrow> DecodeStats \<Rightarrow> 's \<Rightarrow> 's frame_step" where
  "decode_frame codec Handle alive b st s =
     (let (packet_id, b1) = (ReadVarInt b :: u64 \<times> Buffer);
          (sz, b2) = (ReadInt b1 :: u32 \<times> Buffer);
          (err, b3) = GetAndClearLastError b2;
          lost = (note_invalid st)\<lparr>ds_framing_lost := True\<rparr>
      in if err \<noteq> NoBufferError then Break lost s
         else if unat sz > readable_bytes b3 then Break lost s
         else decode_payload codec Handle alive packet_id (unat sz) b3 st s)"

datatype 's decoded = Decoded DecodeStats 's | Crashed 's

primrec decode_frames ::
  "nat \<Rightarrow> 'p Codec \<Rightarrow> ('p \<Rightarrow> 's \<Rightarrow> 's) \<Rightarrow> ('s \<Rightarrow> bool) \<Rightarrow> Buffer \<Rightarrow> DecodeStats \<Rightarrow> 's \<Rightarrow> 's decoded option" where
  "decode_frames 0 codec Handle alive b st s = None"
| "decode_frames (Suc fuel) codec Handle alive b st s =
     (if readable_bytes b > 0
      then (case decode_frame codec Handle alive b st s of
              Continue b1 st1 s1 \<Rightarrow> decode_frames fuel codec Handle alive b1 st1 s1
            | Break st1 s1 \<Rightarrow> Some (Decoded st1 s1)
            | UseAfterFree s1 \<Rightarrow> Some (Crashed s1))
      else Some (Decoded st s))"

text \<open>A buffer has at most as many frames as bytes.\<close>

definition Codec_Deserialize ::
  "'p Codec \<Rightarrow> ('p \<Rightarrow> 's \<Rightarrow> 's) \<Rightarrow> ('s \<Rightarrow> bool) \<Rightarrow> Buffer \<Rightarrow> 's \<Rightarrow> 's decoded option" where
  "Codec_Deserialize codec Handle alive b s =
     decode_frames (Suc (readable_bytes b)) codec Handle alive b DecodeStats_init s"

section \<open>Serializers that only read\<close>

text \<open>
  A local reader: what it returns, how far it reads and the error it leaves are functions of
  the readable bytes and the error before, and it touches nothing but the read cursor and the error flag. The
  operations of the buffer and everything composed of them are local readers.
\<close>

definition cursor_at :: "nat \<Rightarrow> BufferError \<Rightarrow> Buffer \<Rightarrow> Buffer" where
  "cursor_at k err b = b\<lparr>buf_read_cursor := buf_read_cursor b + k, buf_last_error := err\<rparr>"

definition local_reader :: "(Buffer \<Rightarrow> 'a \<times> Buffer) \<Rightarrow> (bytes \<Rightarrow> BufferError \<Rightarrow> 'a \<times> nat \<times> BufferError) \<Rightarrow> bool" where
  "local_reader f g \<longleftrightarrow> (\<forall>b. stream_ok b \<longrightarrow> buf_endianness b = LittleEndian \<longrightarrow>
     (let (v, k, err) = g (contents b) (buf_last_error b)
      in k \<le> length (contents b) \<and> f b = (v, cursor_at k err b)))"

lemma cursor_at:
  assumes "stream_ok b" and "k \<le> length (contents b)"
  shows "stream_ok (cursor_at k err b)" and "contents (cursor_at k err b) = drop k (contents b)"
    and "buf_endianness (cursor_at k err b) = buf_endianness b" and "buf_read_limit (cursor_at k err b) = buf_read_limit b"
proof -
  have c: "cursor_at k err b = set_error err (SkipRead k b)"
    using SkipRead_cursor(1,3) [OF assms] assms(1)
    by (simp add: cursor_at_def set_error_def SkipRead_def)
  show "stream_ok (cursor_at k err b)" "contents (cursor_at k err b) = drop k (contents b)"
    unfolding c using assms by (simp_all add: stream_read)
  show "buf_endianness (cursor_at k err b) = buf_endianness b" "buf_read_limit (cursor_at k err b) = buf_read_limit b"
    by (simp_all add: cursor_at_def)
qed

lemma cursor_at_simps [simp]:
  "cursor_at 0 (buf_last_error b) b = b" "cursor_at k e (cursor_at j d b) = cursor_at (j + k) e b"
  "buf_read_cursor (cursor_at k e b) = buf_read_cursor b + k" "buf_last_error (cursor_at k e b) = e"
  by (simp_all add: cursor_at_def add.assoc)

lemma local_readerI:
  "(\<And>b. stream_ok b \<Longrightarrow> buf_endianness b = LittleEndian \<Longrightarrow>
     fst (snd (g (contents b) (buf_last_error b))) \<le> length (contents b)
     \<and> f b = (fst (g (contents b) (buf_last_error b)), cursor_at (fst (snd (g (contents b) (buf_last_error b))))
           (snd (snd (g (contents b) (buf_last_error b)))) b))
   \<Longrightarrow> local_reader f g"
  by (simp add: local_reader_def case_prod_beta)

lemma local_readerD:
  assumes "local_reader f g" and "stream_ok b" and "buf_endianness b = LittleEndian"
    and "g (contents b) (buf_last_error b) = (v, k, err)"
  shows "k \<le> length (contents b)" and "f b = (v, cursor_at k err b)"
  using assms unfolding local_reader_def by fastforce+

definition bytes_reader :: "(Buffer \<Rightarrow> 'a \<times> Buffer) \<Rightarrow> bool" where
  "bytes_reader f \<longleftrightarrow> (\<exists>g. local_reader f g)"

lemma bytes_reader_ret: "bytes_reader (\<lambda>b. (v, b))" "bytes_reader (\<lambda>b. (v, set_error x b))"
proof -
  have "local_reader (\<lambda>b. (v, b)) (\<lambda>_ e. (v, 0, e))" by (rule local_readerI) simp
  moreover have "local_reader (\<lambda>b. (v, set_error x b)) (\<lambda>_ _. (v, 0, x))"
    by (rule local_readerI) (simp add: cursor_at_def set_error_def)
  ultimately show "bytes_reader (\<lambda>b. (v, b))" "bytes_reader (\<lambda>b. (v, set_error x b))"
    unfolding bytes_reader_def by blast+
qed

lemma bytes_reader_bind:
  assumes "bytes_reader f" and "\<And>v. bytes_reader (h v)"
  shows "bytes_reader (\<lambda>b. let (x, b1) = f b in h x b1)"
proof -
  obtain g where g: "local_reader f g" using assms(1) by (auto simp: bytes_reader_def)
  obtain j where j: "\<And>v. local_reader (h v) (j v)" using assms(2) unfolding bytes_reader_def by metis
  let ?g = "\<lambda>bs err. let (v, k, e) = g bs err; (w, k', e') = j v (drop k bs) e in (w, k + k', e')"
  have "local_reader (\<lambda>b. let (x, b1) = f b in h x b1) ?g"
  proof (rule local_readerI)
    fix b assume b: "stream_ok b" "buf_endianness b = LittleEndian"
    obtain v k e where 1: "g (contents b) (buf_last_error b) = (v, k, e)" by (cases "g (contents b) (buf_last_error b)")
    note f = local_readerD [OF g b 1]
    note c = cursor_at [OF b(1) f(1), of e]
    obtain w k' e' where 2: "j v (drop k (contents b)) e = (w, k', e')" by (cases "j v (drop k (contents b)) e")
    have "buf_endianness (cursor_at k e b) = LittleEndian"
      "j v (contents (cursor_at k e b)) (buf_last_error (cursor_at k e b)) = (w, k', e')"
      using c b(2) 2 by simp_all
    note h = local_readerD [OF j c(1) this, unfolded c(2)]
    show "fst (snd (?g (contents b) (buf_last_error b))) \<le> length (contents b) \<and> (let (x, b1) = f b in h x b1)
        = (fst (?g (contents b) (buf_last_error b)), cursor_at (fst (snd (?g (contents b) (buf_last_error b))))
            (snd (snd (?g (contents b) (buf_last_error b)))) b)"
      using 1 2 f h by simp
  qed
  then show ?thesis unfolding bytes_reader_def by blast
qed

lemma bytes_reader_if:
  assumes "bytes_reader f" and "bytes_reader h"
  shows "bytes_reader (\<lambda>b. if P (contents b) then f b else h b)"
proof -
  obtain g j where "local_reader f g" "local_reader h j" using assms by (auto simp: bytes_reader_def)
  then have "local_reader (\<lambda>b. if P (contents b) then f b else h b) (\<lambda>bs e. if P bs then g bs e else j bs e)"
    by (simp add: local_reader_def)
  then show ?thesis unfolding bytes_reader_def by blast
qed

lemma bytes_reader_clear:
  "bytes_reader (\<lambda>b. let (err, b1) = GetAndClearLastError b in (if err = NoBufferError then v else w, b1))"
proof -
  have "local_reader (\<lambda>b. let (err, b1) = GetAndClearLastError b in (if err = NoBufferError then v else w, b1))
      (\<lambda>_ e. (if e = NoBufferError then v else w, 0, NoBufferError))"
    by (rule local_readerI) (simp add: GetAndClearLastError_def cursor_at_def set_error_def)
  then show ?thesis unfolding bytes_reader_def by blast
qed

lemma bytes_reader_cong:
  "bytes_reader f \<Longrightarrow> (\<And>b. stream_ok b \<Longrightarrow> buf_endianness b = LittleEndian \<Longrightarrow> f b = h b) \<Longrightarrow> bytes_reader h"
  unfolding bytes_reader_def local_reader_def by (elim exE, rule exI) simp

lemma bytes_reader_take:
  assumes "n < 2 ^ 63"
  shows "bytes_reader (\<lambda>b. if n \<le> length (contents b) then (v (take n (read_cursor_data b)), SkipRead n b) else (w, set_error x b))"
proof -
  let ?g = "\<lambda>bs e. if n \<le> length bs then (v (take n bs), n, e) else (w, 0, x)"
  have "local_reader (\<lambda>b. if n \<le> length (contents b) then (v (take n (read_cursor_data b)), SkipRead n b) else (w, set_error x b)) ?g"
  proof (rule local_readerI)
    fix b assume b: "stream_ok b"
    have "SkipRead n b = cursor_at n (buf_last_error b) b" if "n \<le> length (contents b)"
      using SkipRead_cursor(1) [OF b that] by (simp add: SkipRead_def cursor_at_def)
    then show "fst (snd (?g (contents b) (buf_last_error b))) \<le> length (contents b)
      \<and> (if n \<le> length (contents b) then (v (take n (read_cursor_data b)), SkipRead n b) else (w, set_error x b))
        = (fst (?g (contents b) (buf_last_error b)), cursor_at (fst (snd (?g (contents b) (buf_last_error b))))
             (snd (snd (?g (contents b) (buf_last_error b)))) b)"
      using take_contents [OF b, of n] by (simp add: cursor_at_def set_error_def)
  qed
  then show ?thesis unfolding bytes_reader_def by blast
qed

lemma bytes_reader_ReadNumber: "k < 2 ^ 63 \<Longrightarrow> bytes_reader (ReadNumber k)"
  by (rule bytes_reader_cong [OF bytes_reader_take [where v = "wire_order LittleEndian" and w = "replicate k 0" and x = ReadOutOfBounds]])
    (auto simp: ReadNumber_def CheckReadableBytes_iff to_wire_order_eq)

lemma bytes_reader_ReadInt: "whole_bytes TYPE('a::len word) \<Longrightarrow> bytes_reader (ReadInt :: Buffer \<Rightarrow> 'a word \<times> Buffer)"
proof -
  assume "whole_bytes TYPE('a word)"
  then have "LENGTH('a) div 8 < 2 ^ 63" using div_le_mono [of "LENGTH('a)" 64 8] by (simp add: whole_bytes_def)
  then have "bytes_reader (\<lambda>b. let (m, b1) = ReadNumber (LENGTH('a) div 8) b in (of_mem_image m :: 'a word, b1))"
    by (intro bytes_reader_bind bytes_reader_ReadNumber bytes_reader_ret)
  then show ?thesis by (simp only: ReadInt_def [abs_def])
qed

lemma bytes_reader_ReadVarInt:
  assumes "whole_bytes TYPE('a::len word)"
  shows "bytes_reader (ReadVarInt :: Buffer \<Rightarrow> 'a word \<times> Buffer)"
proof -
  let ?z = "LENGTH('a) div 8"
  let ?body = "\<lambda>(n :: u8) b1. if unat n > ?z then (0 :: 'a word, set_error CorruptedFormat b1)
      else (\<lambda>b. if unat n \<le> length (contents b)
        then (of_mem_image (wire_order LittleEndian (take (unat n) (read_cursor_data b)) @ replicate (?z - unat n) 0), SkipRead (unat n) b)
        else (0, set_error ReadOutOfBounds b)) b1"
  have u: "unat n < 2 ^ 63" for n :: u8 using unat_byte_less [of n] by simp
  have body: "bytes_reader (?body n)" for n
    using bytes_reader_ret(2) bytes_reader_take [OF u [of n], where w = "0 :: 'a word" and x = ReadOutOfBounds
        and v = "\<lambda>bs. of_mem_image (wire_order LittleEndian bs @ replicate (?z - unat n) 0)"]
    by (cases "unat n > ?z") simp_all
  have "bytes_reader (\<lambda>b. if 1 \<le> length (contents b) then let (n, b1) = ReadInt b in ?body n b1 else (0 :: 'a word, set_error ReadOutOfBounds b))"
    using bytes_reader_if [OF bytes_reader_bind [OF bytes_reader_ReadInt [where 'a = 8] body] bytes_reader_ret(2), of "\<lambda>bs. 1 \<le> length bs"]
    by simp
  then show ?thesis
  proof (rule bytes_reader_cong)
    fix b assume b: "stream_ok b" "buf_endianness b = LittleEndian"
    obtain n b1 where 1: "ReadInt b = (n :: u8, b1)" by fastforce
    have "stream_ok b1 \<and> buf_endianness b1 = LittleEndian"
    proof -
      obtain g where "local_reader (ReadInt :: Buffer \<Rightarrow> u8 \<times> Buffer) g"
        using bytes_reader_ReadInt [where 'a = 8] by (auto simp: bytes_reader_def)
      from local_readerD [OF this b] 1 cursor_at [OF b(1)] b(2) show ?thesis
        by (cases "g (contents b) (buf_last_error b)") auto
    qed
    then show "(if 1 \<le> length (contents b) then let (n, b1) = ReadInt b in ?body n b1 else (0 :: 'a word, set_error ReadOutOfBounds b)) = ReadVarInt b"
      using b u by (simp add: ReadVarInt_def 1 Let_def CheckReadableBytes_iff to_wire_order_eq)
  qed
qed

lemma bytes_reader_Read: "0 < k \<Longrightarrow> k * n < 2 ^ 63 \<Longrightarrow> bytes_reader (Read k n)"
proof -
  assume k: "0 < k" "k * n < 2 ^ 63"
  then have "n * k \<le> size_max" by (simp add: mult.commute size_max_def)
  then have "n \<le> size_max div k" using k(1) by (simp add: less_eq_div_iff_mult_less_eq)
  then show ?thesis
    using bytes_reader_cong [OF bytes_reader_take [OF k(2), where v = Some and w = None and x = ReadOutOfBounds], of "Read k n"] k(2)
    by (simp add: Read_def CheckReadableBytes_iff Let_def)
qed

lemma bytes_reader_ReadString: "bytes_reader ReadString"
proof -
  let ?body = "\<lambda>(n :: u64) b. if unat n > ZNET_MAX_READ_STRING_LENGTH then ([], set_error ReadLimitExceeded b)
      else (if unat n \<le> length (contents b) then (take (unat n) (read_cursor_data b), SkipRead (unat n) b)
            else ([], set_error ReadOutOfBounds b))"
  have body: "bytes_reader (?body n)" for n
  proof (cases "unat n > ZNET_MAX_READ_STRING_LENGTH")
    case False
    then have "unat n < 2 ^ 63" by (simp add: ZNET_MAX_READ_STRING_LENGTH_def)
    from bytes_reader_take [OF this, where v = "\<lambda>x. x" and w = "[]" and x = ReadOutOfBounds] False
    show ?thesis by simp
  qed (simp add: bytes_reader_ret)
  have "bytes_reader (\<lambda>b. let (n, b1) = ReadVarInt b in ?body n b1)"
    by (intro bytes_reader_bind bytes_reader_ReadVarInt body) simp
  then show ?thesis
  proof (rule bytes_reader_cong)
    fix b assume b: "stream_ok b"
    obtain n b1 where 1: "ReadVarInt b = (n :: u64, b1)" by fastforce
    then have "stream_ok b1" using safe_readerD [OF safe_ReadVarInt [where 'a = 64] b] by simp
    then show "(let (n, b1) = ReadVarInt b in ?body n b1) = ReadString b"
      by (auto simp: ReadString_def 1 CheckReadCount_def Let_def length_contents ZNET_MAX_READ_STRING_LENGTH_def)
  qed
qed

text \<open>A local reader that parses a byte string moves the read cursor over it and does nothing else.\<close>

lemma local_parses:
  assumes "bytes_reader f" and "parses LittleEndian f v bs" and "stream_ok b" and "buf_endianness b = LittleEndian"
    and "contents b = bs @ rest"
  shows "f b = (v, cursor_at (length bs) (buf_last_error b) b)"
proof -
  obtain g where g: "local_reader f g" using assms(1) by (auto simp: bytes_reader_def)
  obtain v' k e where 1: "g (contents b) (buf_last_error b) = (v', k, e)" by (cases "g (contents b) (buf_last_error b)")
  note f = local_readerD [OF g assms(3,4) 1]
  obtain b' where b': "f b = (v, b')" "contents b' = rest" "buf_last_error b' = buf_last_error b"
    using parsesE [OF assms(2,4,3,5)] by metis
  have "drop k (bs @ rest) = rest" using f b' cursor_at(2) [OF assms(3) f(1)] assms(5) by simp
  then have "length (drop k (bs @ rest)) = length rest" by simp
  then have "k = length bs" using f(1) assms(5) by simp
  moreover have "e = buf_last_error b" using f b' by auto
  ultimately show ?thesis using f b' by simp
qed

section \<open>Frames\<close>

definition frame :: "u64 \<Rightarrow> bytes \<Rightarrow> bytes" where
  "frame pid payload =
     enc_varint LittleEndian pid @ enc_int LittleEndian (word_of_nat (length payload) :: u32) @ payload"

definition header_len :: "u64 \<Rightarrow> nat" where
  "header_len pid = length (enc_varint LittleEndian pid) + 4"

lemma frame_nonempty: "0 < length (frame pid payload)" "length payload < length (frame pid payload)" "4 \<le> length (frame pid payload)"
  by (simp_all add: frame_def)

lemma message_cursor:
  assumes "message_buffer b" and "k \<le> length (contents b)"
  shows "message_buffer (cursor_at k NoBufferError b)" and "contents (cursor_at k NoBufferError b) = drop k (contents b)"
  using cursor_at [of b k NoBufferError] assms by (auto simp: message_buffer_def)

lemma message_cursors:
  assumes "message_buffer b"
  shows "length (contents b) = buf_write_cursor b - buf_read_cursor b" and "buf_write_cursor b < 2 ^ 62"
    and "buf_read_cursor b \<le> buf_write_cursor b"
proof -
  have ok: "stream_ok b" "buf_read_limit b = size_max" using assms by (simp_all add: message_buffer_def)
  from ok(1) show "buf_write_cursor b < 2 ^ 62" "buf_read_cursor b \<le> buf_write_cursor b" by (simp_all add: stream_ok_def)
  then show "length (contents b) = buf_write_cursor b - buf_read_cursor b"
    using length_contents [OF ok(1)] ok(2) by (simp add: readable_bytes_eq size_max_def min_def)
qed

text \<open>The header of a frame is read, and the serializer is fenced inside the payload.\<close>

lemma read_header:
  assumes "message_buffer b" and "contents b = frame pid payload @ rest" and "length payload < 2 ^ 32"
  shows "(ReadVarInt b :: u64 \<times> Buffer) = (pid, cursor_at (length (enc_varint LittleEndian pid)) NoBufferError b)"
    and "(ReadInt (cursor_at (length (enc_varint LittleEndian pid)) NoBufferError b) :: u32 \<times> Buffer)
      = (word_of_nat (length payload), cursor_at (header_len pid) NoBufferError b)"
    and "message_buffer (cursor_at (header_len pid) NoBufferError b)"
    and "contents (cursor_at (header_len pid) NoBufferError b) = payload @ rest"
proof -
  let ?n = "length (enc_varint LittleEndian pid)"
  have b: "stream_ok b" "buf_endianness b = LittleEndian" and err: "buf_last_error b = NoBufferError"
    using assms(1) by (simp_all add: message_buffer_def)
  show v: "(ReadVarInt b :: u64 \<times> Buffer) = (pid, cursor_at ?n NoBufferError b)"
    by (rule local_parses [OF bytes_reader_ReadVarInt parses_ReadVarInt b, unfolded err])
      (use assms(2) in \<open>simp_all add: frame_def\<close>)
  have n: "?n \<le> length (contents b)" using assms(2) by (simp add: frame_def)
  note m = message_cursor [OF assms(1) n]
  have "(ReadInt (cursor_at ?n NoBufferError b) :: u32 \<times> Buffer)
      = (word_of_nat (length payload), cursor_at (length (enc_int LittleEndian (word_of_nat (length payload) :: u32))) NoBufferError (cursor_at ?n NoBufferError b))"
    by (rule local_parses [OF bytes_reader_ReadInt parses_ReadInt, where rest = "payload @ rest" and b = "cursor_at ?n NoBufferError b",
          unfolded cursor_at_simps(4)])
      (use m assms(2) in \<open>simp_all add: frame_def message_buffer_def\<close>)
  then show "(ReadInt (cursor_at ?n NoBufferError b) :: u32 \<times> Buffer) = (word_of_nat (length payload), cursor_at (header_len pid) NoBufferError b)"
    by (simp add: header_len_def)
  have h: "header_len pid \<le> length (contents b)" using assms(2) by (simp add: frame_def header_len_def)
  show "message_buffer (cursor_at (header_len pid) NoBufferError b)" "contents (cursor_at (header_len pid) NoBufferError b) = payload @ rest"
    using message_cursor [OF assms(1) h] assms(2) by (simp_all add: frame_def header_len_def)
qed

lemma fence:
  assumes "message_buffer b" and "contents b = payload @ rest" and "0 < buf_read_cursor b"
  defines "f \<equiv> SetReadLimit (sz_add (buf_read_cursor b) (length payload)) b"
  shows "stream_ok f" and "contents f = payload" and "buf_endianness f = LittleEndian"
    and "f = b\<lparr>buf_read_limit := buf_read_cursor b + length payload\<rparr>" and "buf_last_error f = NoBufferError"
proof -
  have ok: "stream_ok b" "buf_read_limit b = size_max" "buf_endianness b = LittleEndian"
    using assms(1) by (simp_all add: message_buffer_def)
  have "length (contents b) = buf_write_cursor b - buf_read_cursor b" "buf_write_cursor b < 2 ^ 62" "buf_read_cursor b \<le> buf_write_cursor b"
    by (rule message_cursors [OF assms(1)])+
  then have le: "buf_read_cursor b + length payload \<le> buf_write_cursor b" "buf_write_cursor b < 2 ^ 62" using assms(2) by simp_all
  then show f: "f = b\<lparr>buf_read_limit := buf_read_cursor b + length payload\<rparr>"
    using assms(3) by (simp add: f_def SetReadLimit_def)
  show "buf_endianness f = LittleEndian" "buf_last_error f = NoBufferError"
    using assms(1) by (simp_all add: f message_buffer_def)
  show "stream_ok f"
  proof -
    have "payload = [] \<or> buf_data b \<noteq> None" using assms(2) by (auto simp: contents_def read_cursor_data_def)
    then show ?thesis using ok(1) le by (auto simp: f stream_ok_def buf_wf_def readable_bytes_eq min_def split: option.splits)
  qed
  have "readable_bytes f = length payload" using le by (simp add: f readable_bytes_eq)
  moreover have "take (length payload) (read_cursor_data b) = payload"
    using take_contents [OF ok(1), of "length payload"] assms(2) by simp
  ultimately show "contents f = payload" by (simp add: contents_def read_cursor_data_def f cong: option.case_cong)
qed

text \<open>What a frame does to the handler's state, by the bytes of its payload alone.\<close>

type_synonym 'p payload_reader = "bytes \<Rightarrow> BufferError \<Rightarrow> 'p option \<times> nat \<times> BufferError"

definition reads_as :: "'p Codec \<Rightarrow> (u64 \<Rightarrow> 'p payload_reader) \<Rightarrow> bool" where
  "reads_as codec g \<longleftrightarrow> (\<forall>pid ser. codec pid = Some ser \<longrightarrow> local_reader (ser_Deserialize ser) (g pid))"

definition clean :: "'a \<times> nat \<times> BufferError \<Rightarrow> bool" where
  "clean r \<longleftrightarrow> snd (snd r) = NoBufferError"

definition dispatch_frame :: "'p Codec \<Rightarrow> (u64 \<Rightarrow> 'p payload_reader) \<Rightarrow> ('p \<Rightarrow> 's \<Rightarrow> 's) \<Rightarrow> u64 \<Rightarrow> bytes \<Rightarrow> 's \<Rightarrow> 's" where
  "dispatch_frame codec g Handle pid payload s =
     (case codec pid of None \<Rightarrow> s
      | Some _ \<Rightarrow> (case fst (g pid payload NoBufferError) of None \<Rightarrow> s | Some p \<Rightarrow> Handle p s))"

definition frame_refused :: "'p Codec \<Rightarrow> (u64 \<Rightarrow> 'p payload_reader) \<Rightarrow> u64 \<Rightarrow> bytes \<Rightarrow> bool" where
  "frame_refused codec g pid payload \<longleftrightarrow> codec pid \<noteq> None \<and> fst (g pid payload NoBufferError) = None"

lemma decode_payload_at:
  assumes "message_buffer b" and "contents b = payload @ rest" and "0 < buf_read_cursor b"
    and "alive s" and "\<And>ser. codec pid = Some ser \<Longrightarrow> local_reader (ser_Deserialize ser) g"
  shows "decode_payload codec Handle alive pid (length payload) b st s =
    (case codec pid of None \<Rightarrow> Continue (cursor_at (length payload) NoBufferError b) st s
     | Some _ \<Rightarrow> Continue (cursor_at (length payload) (snd (snd (g payload NoBufferError))) b)
        (if fst (g payload NoBufferError) = None then note_invalid st else st) (case fst (g payload NoBufferError) of None \<Rightarrow> s | Some p \<Rightarrow> Handle p s))"
proof -
  note cur = message_cursors [OF assms(1)]
  have skip: "SetReadLimit 0 (SkipRead (length payload) (set_read_cursor (buf_read_cursor b)
      (cursor_at k e (b\<lparr>buf_read_limit := l\<rparr>)))) = cursor_at (length payload) e b" for k e l
    using assms(1,2) cur
    by (cases b)
      (simp_all add: SetReadLimit_def SkipRead_def set_read_cursor_def cursor_at_def message_buffer_def)
  show ?thesis
  proof (cases "codec pid")
    case None
    have "SkipRead (length payload) b = cursor_at (length payload) NoBufferError b"
      using assms(1,2) cur by (cases b) (simp add: SkipRead_def cursor_at_def message_buffer_def)
    then show ?thesis using assms(4) None by (simp add: decode_payload_def)
  next
    case (Some ser)
    obtain v k e where r: "g payload NoBufferError = (v, k, e)" by (cases "g payload NoBufferError")
    note f = fence [OF assms(1-3)]
    have rd: "k \<le> length payload" "ser_Deserialize ser (SetReadLimit (sz_add (buf_read_cursor b) (length payload)) b)
        = (v, cursor_at k e (b\<lparr>buf_read_limit := buf_read_cursor b + length payload\<rparr>))"
      using local_readerD [OF assms(5) [OF Some] f(1,3), unfolded f(2,5), OF r] unfolding f(4) by simp_all
    have same: "sz_sub (buf_read_cursor b + j) (buf_read_cursor b) = j" if "j \<le> length payload" for j
      using sz_sub_small [of "buf_read_cursor b" "buf_read_cursor b + j"] that cur assms(2) by simp
    have whole: "SetReadLimit 0 (cursor_at (length payload) e (b\<lparr>buf_read_limit := l\<rparr>)) = cursor_at (length payload) e b" for l
      using assms(1) by (cases b) (simp_all add: SetReadLimit_def cursor_at_def message_buffer_def)
    show ?thesis
      using assms(4) Some rd whole r
      by (cases v; cases "k < length payload") (simp_all add: decode_payload_def skip same Let_def)
  qed
qed

lemma decode_frame_at:
  assumes "message_buffer b" and "contents b = frame pid payload @ rest" and "length payload < 2 ^ 32"
    and "alive s" and "reads_as codec g" and "codec pid \<noteq> None \<Longrightarrow> clean (g pid payload NoBufferError)"
  obtains b' where "decode_frame codec Handle alive b st s
      = Continue b' (if frame_refused codec g pid payload then note_invalid st else st) (dispatch_frame codec g Handle pid payload s)"
    and "message_buffer b'" and "contents b' = rest"
proof -
  note h = read_header [OF assms(1-3)]
  define b3 where "b3 = cursor_at (header_len pid) NoBufferError b"
  have b3: "message_buffer b3" "contents b3 = payload @ rest" "0 < buf_read_cursor b3"
    using h(3,4) by (simp_all add: b3_def header_len_def)
  have clr: "GetAndClearLastError b3 = (NoBufferError, b3)"
    using b3(1) by (simp add: GetAndClearLastError_def message_buffer_def set_error_def)
  have n: "unat (word_of_nat (length payload) :: u32) = length payload" using assms(3) by (simp add: unat_of_nat_small)
  have fits: "length payload \<le> readable_bytes b3"
    using b3(1,2) length_contents [of b3] by (simp add: message_buffer_def)
  have d: "decode_frame codec Handle alive b st s = decode_payload codec Handle alive pid (length payload) b3 st s"
    using h(1,2) clr n fits by (simp add: decode_frame_def b3_def [symmetric])
  have at: "length payload \<le> length (contents b3)" using b3(2) by simp
  show thesis
    by (rule that [of "cursor_at (length payload) NoBufferError b3"])
      (use decode_payload_at [OF b3, where g = "g pid" and codec = codec and pid = pid and alive = alive and s = s, OF assms(4)] assms(5,6) message_cursor [OF b3(1) at] b3(2) d
        in \<open>auto simp: dispatch_frame_def frame_refused_def clean_def reads_as_def split: option.splits\<close>)
qed

section \<open>A buffer of frames\<close>

definition frames :: "(u64 \<times> bytes) list \<Rightarrow> bytes" where
  "frames fs = concat (map (\<lambda>(pid, payload). frame pid payload) fs)"

definition dispatch_frames :: "'p Codec \<Rightarrow> (u64 \<Rightarrow> 'p payload_reader) \<Rightarrow> ('p \<Rightarrow> 's \<Rightarrow> 's) \<Rightarrow> (u64 \<times> bytes) list \<Rightarrow> 's \<Rightarrow> 's" where
  "dispatch_frames codec g Handle fs s = foldl (\<lambda>s (pid, payload). dispatch_frame codec g Handle pid payload s) s fs"

definition refused_frames :: "'p Codec \<Rightarrow> (u64 \<Rightarrow> 'p payload_reader) \<Rightarrow> (u64 \<times> bytes) list \<Rightarrow> nat" where
  "refused_frames codec g fs = length (filter (\<lambda>(pid, payload). frame_refused codec g pid payload) fs)"

lemma frames_Cons: "frames ((pid, payload) # fs) = frame pid payload @ frames fs"
  by (simp add: frames_def)

lemma length_frames: "length fs \<le> length (frames fs)"
proof (induction fs)
  case (Cons f fs)
  obtain pid payload where f: "f = (pid, payload)" by (cases f)
  show ?case using Cons frame_nonempty(2) [of payload pid] by (simp add: f frames_Cons)
qed (simp add: frames_def)

lemma decode_frames_all:
  assumes "message_buffer b" and "contents b = frames fs" and "length fs < fuel" and "reads_as codec g"
    and "\<forall>(pid, payload)\<in>set fs. length payload < 2 ^ 32 \<and> (codec pid \<noteq> None \<longrightarrow> clean (g pid payload NoBufferError))"
    and "\<forall>s. alive s"
  shows "decode_frames fuel codec Handle alive b st s
    = Some (Decoded (st\<lparr>ds_invalid_frames := ds_invalid_frames st + word_of_nat (refused_frames codec g fs)\<rparr>)
        (dispatch_frames codec g Handle fs s))"
  using assms
proof (induction fs arbitrary: b fuel st s)
  case Nil
  then have "readable_bytes b = 0" using message_bytes [of b] by (simp add: frames_def)
  then show ?case using Nil.prems(3) by (cases fuel) (simp_all add: refused_frames_def dispatch_frames_def)
next
  case (Cons f fs)
  obtain pid payload where f: "f = (pid, payload)" by (cases f)
  have p: "length payload < 2 ^ 32" "codec pid \<noteq> None \<Longrightarrow> clean (g pid payload NoBufferError)" using Cons.prems(5) f by auto
  have c: "contents b = frame pid payload @ frames fs" using Cons.prems(2) f by (simp add: frames_Cons)
  obtain b' where b': "decode_frame codec Handle alive b st s
      = Continue b' (if frame_refused codec g pid payload then note_invalid st else st) (dispatch_frame codec g Handle pid payload s)"
      "message_buffer b'" "contents b' = frames fs"
    using decode_frame_at [OF Cons.prems(1) c p(1) _ Cons.prems(4) p(2)] Cons.prems(6) by metis
  obtain n where n: "fuel = Suc n" "length fs < n" using Cons.prems(3) by (cases fuel) auto
  have "0 < readable_bytes b" using message_bytes [OF Cons.prems(1)] c frame_nonempty(1) [of pid payload] by simp
  then show ?case
    using Cons.IH [OF b'(2,3) n(2) Cons.prems(4) _ Cons.prems(6)] Cons.prems(5) b'(1) n(1) f
    by (simp add: dispatch_frames_def refused_frames_def note_invalid_def)
qed


section \<open>The loop ends\<close>

definition frame_buffer :: "Buffer \<Rightarrow> bool" where
  "frame_buffer b \<longleftrightarrow> stream_ok b \<and> buf_read_limit b = size_max \<and> buf_endianness b = LittleEndian"

lemma frame_buffer_message: "frame_buffer b \<Longrightarrow> message_buffer (set_error NoBufferError b)"
  "message_buffer b \<Longrightarrow> frame_buffer b"
  by (auto simp: frame_buffer_def message_buffer_def) (simp_all add: set_error_def)

lemma frame_buffer_cursor: "frame_buffer b \<Longrightarrow> k \<le> length (contents b) \<Longrightarrow> frame_buffer (cursor_at k e b)"
  using cursor_at [of b k e] by (simp add: frame_buffer_def)

lemma ReadInt32_step:
  assumes "stream_ok b"
  shows "4 \<le> length (contents b) \<and> snd (ReadInt b :: u32 \<times> Buffer) = cursor_at 4 (buf_last_error b) b
    \<or> buf_last_error (snd (ReadInt b :: u32 \<times> Buffer)) = ReadOutOfBounds"
proof (cases "4 \<le> length (contents b)")
  case True
  then have "SkipRead 4 b = cursor_at 4 (buf_last_error b) b"
    using SkipRead_cursor(1) [OF assms True] by (simp add: SkipRead_def cursor_at_def)
  then show ?thesis using True assms by (simp add: ReadInt_def ReadNumber_def CheckReadableBytes_iff)
next
  case False
  then show ?thesis using assms by (simp add: ReadInt_def ReadNumber_def CheckReadableBytes_iff set_error_def)
qed

lemma decode_frame_progress:
  assumes "frame_buffer b" and "reads_as codec g" and "decode_frame codec Handle alive b st s = Continue b' st' s'"
  shows "frame_buffer b'" and "length (contents b') < length (contents b)"
proof -
  have b: "stream_ok b" "buf_endianness b = LittleEndian" using assms(1) by (simp_all add: frame_buffer_def)
  obtain gv where gv: "local_reader (ReadVarInt :: Buffer \<Rightarrow> u64 \<times> Buffer) gv"
    using bytes_reader_ReadVarInt [where 'a = 64] by (auto simp: bytes_reader_def)
  obtain pid k e where r: "gv (contents b) (buf_last_error b) = (pid, k, e)" by (cases "gv (contents b) (buf_last_error b)")
  note v = local_readerD [OF gv b r]
  note b1 = frame_buffer_cursor [OF assms(1) v(1), of e] cursor_at [OF b(1) v(1), of e]
  obtain sz b2 where 2: "ReadInt (cursor_at k e b) = (sz :: u32, b2)" by fastforce
  have none: "buf_last_error b2 = NoBufferError" and fit: "unat sz \<le> readable_bytes (set_error NoBufferError b2)"
    and d: "decode_payload codec Handle alive pid (unat sz) (set_error NoBufferError b2) st s = Continue b' st' s'"
    using assms(3) v(2) 2 by (auto simp: decode_frame_def GetAndClearLastError_def Let_def split: if_splits)
  have "buf_last_error (snd (ReadInt (cursor_at k e b) :: u32 \<times> Buffer)) \<noteq> ReadOutOfBounds" using none 2 by simp
  then have four: "4 \<le> length (contents (cursor_at k e b))" "b2 = cursor_at 4 e (cursor_at k e b)"
    using ReadInt32_step [OF b1(2)] 2 by auto
  let ?b3 = "set_error NoBufferError b2"
  have "frame_buffer b2" unfolding four(2) by (rule frame_buffer_cursor [OF b1(1) four(1)])
  then have m: "message_buffer ?b3" by (rule frame_buffer_message)
  have rc: "0 < buf_read_cursor ?b3" using four(2) by (simp add: set_error_def)
  have c3: "length (contents ?b3) < length (contents b)"
    using cursor_at(2) [OF b1(2) four(1), of e] four b1(3) by simp
  let ?p = "take (unat sz) (contents ?b3)"
  have len: "length ?p = unat sz" using fit message_bytes [OF m] by simp
  have al: "alive s" using d by (auto simp: decode_payload_def Let_def split: if_splits)
  have loc: "local_reader (ser_Deserialize ser) (g pid)" if "codec pid = Some ser" for ser
    using assms(2) that by (simp add: reads_as_def)
  have split: "contents ?b3 = ?p @ drop (unat sz) (contents ?b3)" by simp
  have "decode_payload codec Handle alive pid (unat sz) ?b3 st s =
    (case codec pid of None \<Rightarrow> Continue (cursor_at (unat sz) NoBufferError ?b3) st s
     | Some _ \<Rightarrow> Continue (cursor_at (unat sz) (snd (snd (g pid ?p NoBufferError))) ?b3)
        (if fst (g pid ?p NoBufferError) = None then note_invalid st else st) (case fst (g pid ?p NoBufferError) of None \<Rightarrow> s | Some p \<Rightarrow> Handle p s))"
    using decode_payload_at [where codec = codec and pid = pid and alive = alive and s = s and Handle = Handle and st = st,
        OF m split rc al loc] unfolding len .
  then obtain x where x: "b' = cursor_at (unat sz) x ?b3" using d by (cases "codec pid") auto
  have le: "unat sz \<le> length (contents ?b3)" using len by simp
  show "frame_buffer b'" unfolding x by (rule frame_buffer_cursor [OF frame_buffer_message(2) [OF m] le])
  show "length (contents b') < length (contents b)"
    unfolding x using cursor_at(2) [of ?b3 "unat sz" x] m le c3 by (simp add: message_buffer_def)
qed

lemma decode_frames_ends:
  "frame_buffer b \<Longrightarrow> reads_as codec g \<Longrightarrow> length (contents b) < fuel \<Longrightarrow>
     decode_frames fuel codec Handle alive b st s \<noteq> None"
proof (induction fuel arbitrary: b st s)
  case (Suc fuel)
  show ?case
  proof (cases "decode_frame codec Handle alive b st s")
    case (Continue b1 st1 s1)
    note p = decode_frame_progress [OF Suc.prems(1,2) Continue]
    then show ?thesis using Suc.IH [OF p(1) Suc.prems(2), of st1 s1] Suc.prems(3) Continue by simp
  qed simp_all
qed simp

text \<open>
  C37. Decoding ends on every buffer, whatever bytes a peer put into it: the loop over its
  frames returns after at most as many rounds as there are bytes, for every registry of
  serializers that read with the operations of the buffer and for every handler.
\<close>

theorem decoding_ends:
  assumes "frame_buffer b" and "reads_as codec g"
  shows "\<exists>r. Codec_Deserialize codec Handle alive b s = Some r"
proof -
  have "length (contents b) < Suc (readable_bytes b)"
    using assms(1) length_contents [of b] by (simp add: frame_buffer_def)
  then show ?thesis
    using decode_frames_ends [OF assms, of "Suc (readable_bytes b)"]
    by (simp add: Codec_Deserialize_def del: decode_frames.simps)
qed

section \<open>Framing a packet\<close>

text \<open>A serializer writes a payload behind the header, or hands over a buffer that holds it.\<close>

definition serializes :: "'p PacketSerializer \<Rightarrow> 'p \<Rightarrow> bytes \<Rightarrow> bool" where
  "serializes ser p payload \<longleftrightarrow>
     (emits LittleEndian (\<lambda>b. fst (ser_Serialize ser p b)) payload \<and> (\<forall>b. snd (ser_Serialize ser p b) = Some None))
     \<or> (\<exists>own. stream_ok own \<and> contents own = payload \<and> (\<forall>b. ser_Serialize ser p b = (b, Some (Some own))))"

lemma serializesE:
  assumes "serializes ser p payload" and "buf_endianness b = LittleEndian" and "room b (length payload)"
  obtains b4 same where "ser_Serialize ser p b = (b4, Some same)"
    and "appended b (case same of None \<Rightarrow> b4
        | Some own \<Rightarrow> Write default_new (take (readable_bytes own) (read_cursor_data own)) b4) payload"
  using assms(1) unfolding serializes_def
proof (elim disjE exE conjE)
  assume em: "emits LittleEndian (\<lambda>b. fst (ser_Serialize ser p b)) payload" and same: "\<forall>b. snd (ser_Serialize ser p b) = Some None"
  show thesis using that [of "fst (ser_Serialize ser p b)" None] emitsD [OF em assms(2,3)] same by (simp add: prod_eq_iff)
next
  fix own assume own: "stream_ok own" "contents own = payload" "\<forall>b. ser_Serialize ser p b = (b, Some (Some own))"
  have "take (readable_bytes own) (read_cursor_data own) = payload" using own(2) by (simp add: contents_def)
  then show thesis using that [of b "Some own"] own(3) emitsD [OF heap.emits_Write assms(2), of payload] assms(3) by simp
qed

lemma Codec_Serialize_bytes:
  assumes "codec (packet_id p) = Some ser" and "serializes ser p payload" and "hroom + length payload < 2 ^ 32"
  obtains w where "Codec_Serialize packet_id codec p hroom = Some w" and "headroom hroom w" and "message_buffer w"
    and "contents w = frame (packet_id p) payload"
proof -
  define b1 where "b1 = (if hroom \<noteq> 0 then ReserveHeadroom hroom (Buffer_new LittleEndian) else Buffer_new LittleEndian)"
  have b1h: "b1 = ReserveHeadroom hroom (Buffer_new LittleEndian)"
    by (simp add: b1_def ReserveHeadroom_def) (simp add: Buffer_new_def)
  let ?v = "enc_varint LittleEndian (packet_id p)" let ?z = "enc_int LittleEndian (0 :: u32)"
  define b3 where "b3 = WriteInt default_new (0 :: u32) (WriteVarInt default_new (packet_id p) b1)"
  have vl: "length ?v \<le> 9" using length_enc_varint_le [of LittleEndian "packet_id p"] by simp
  have room1: "room b1 (length (?v @ ?z) + length payload)"
    unfolding b1h by (rule room_headroom) (use vl assms(3) in simp)
  have em: "emits LittleEndian (\<lambda>b. WriteInt default_new (0 :: u32) (WriteVarInt default_new (packet_id p) b)) (?v @ ?z)"
    by (rule emits_comp [OF heap.emits_WriteVarInt heap.emits_WriteInt])
  have a3: "appended b1 b3 (?v @ ?z)"
    unfolding b3_def by (rule emitsD [OF em]) (use room1 room_mono in \<open>auto simp: b1h\<close>)
  have b3: "buf_endianness b3 = LittleEndian" "room b3 (length payload)"
    using appended_endianness [OF a3] appended_room [OF a3 room1] by (simp_all add: b1h)
  obtain b4 same where s: "ser_Serialize ser p b3 = (b4, Some same)"
      "appended b3 (case same of None \<Rightarrow> b4
        | Some own \<Rightarrow> Write default_new (take (readable_bytes own) (read_cursor_data own)) b4) payload"
    by (rule serializesE [OF assms(2) b3])
  define b5 where "b5 = (case same of None \<Rightarrow> b4
        | Some own \<Rightarrow> Write default_new (take (readable_bytes own) (read_cursor_data own)) b4)"
  have a5: "appended b1 b5 ((?v @ ?z) @ payload)" using appended_trans [OF a3 s(2)] by (simp add: b5_def)
  have c5: "contents b5 = ?v @ ?z @ payload" "buf_read_cursor b5 = hroom" "stream_ok b5" "buf_read_limit b5 = size_max"
    using a5 room1 by (simp_all add: appended_def b1h room_def)
  have "0 < length (contents b5)" unfolding c5(1) by simp
  then have "buf_data b5 \<noteq> None" by (cases "buf_data b5") (simp_all add: contents_def read_cursor_data_def)
  then have h5: "headroom hroom b5" using c5 by (simp add: headroom_def)
  have wc: "buf_write_cursor b3 = hroom + length ?v + 4" "buf_write_cursor b5 = hroom + length ?v + 4 + length payload"
    using a3 a5 by (simp_all add: appended_def b1h)
  have pos: "sz_sub (buf_write_cursor b3) 4 = buf_read_cursor b5 + length ?v"
    using wc(1) c5(2) vl assms(3) by (simp add: sz_sub_small)
  have sz: "sz_sub (buf_write_cursor b5) (buf_write_cursor b3) = length payload"
    using wc vl assms(3) by (simp add: sz_sub_small)
  let ?len = "enc_int LittleEndian (word_of_nat (length payload) :: u32)"
  have e5: "buf_endianness (set_write_cursor x b5) = LittleEndian" for x
    using a5 by (simp add: appended_def b1h set_write_cursor_def)
  have wi: "WriteInt default_new (word_of_nat (length payload) :: u32) (set_write_cursor x b5)
      = Write default_new ?len (set_write_cursor x b5)" for x
    by (simp add: WriteInt_Write e5)
  have lens: "length ?len = length ?z" by simp
  note f = backfill [OF h5 c5(1) lens pos refl, of default_new]
  let ?w = "set_write_cursor (buf_write_cursor b5) (Write default_new ?len (set_write_cursor (sz_sub (buf_write_cursor b3) 4) b5))"
  have "Codec_Serialize packet_id codec p hroom = Some ?w"
    by (simp only: Codec_Serialize_def Let_def b1_def [symmetric] b3_def [symmetric] assms(1) s(1)
        option.case prod.case b5_def [symmetric] sz wi)
  moreover have "message_buffer ?w"
    by (rule headroom_message [OF f(1)]) (use f(3,4) a5 in \<open>simp_all add: appended_def b1h\<close>)
  ultimately show thesis using that [of ?w] f(1,2) by (simp add: frame_def)
qed

section \<open>Concrete packets\<close>

text \<open>
  A packet of one byte whose serializer checks the buffer's error flag, and one of four bytes
  whose serializer does not.
\<close>

definition sample_serializer :: "u8 PacketSerializer" where
  "sample_serializer = \<lparr>ser_Serialize = (\<lambda>p b. (WriteInt default_new p b, Some None)),
     ser_Deserialize = (\<lambda>b. let (v, b1) = ReadInt b; (err, b2) = GetAndClearLastError b1
        in (if err = NoBufferError then Some v else None, b2))\<rparr>"

definition sample_codec :: "u8 Codec" where
  "sample_codec = Codec_Add 7 sample_serializer Codec_new"

definition sample_reader :: "u64 \<Rightarrow> u8 payload_reader" where
  "sample_reader pid bs err =
     (case bs of [] \<Rightarrow> (None, 0, NoBufferError) | x # _ \<Rightarrow> (if err = NoBufferError then Some x else None, 1, NoBufferError))"

definition unchecked_serializer :: "u32 PacketSerializer" where
  "unchecked_serializer = \<lparr>ser_Serialize = (\<lambda>p b. (WriteInt default_new p b, Some None)),
     ser_Deserialize = (\<lambda>b. let (v, b1) = ReadInt b in (Some v, b1))\<rparr>"

lemma sample_reads: "reads_as sample_codec sample_reader"
proof -
  have "local_reader (ser_Deserialize sample_serializer) (sample_reader 7)"
  proof (rule local_readerI)
    fix b assume b: "stream_ok b" "buf_endianness b = LittleEndian"
    show "fst (snd (sample_reader 7 (contents b) (buf_last_error b))) \<le> length (contents b)
      \<and> ser_Deserialize sample_serializer b = (fst (sample_reader 7 (contents b) (buf_last_error b)),
          cursor_at (fst (snd (sample_reader 7 (contents b) (buf_last_error b)))) (snd (snd (sample_reader 7 (contents b) (buf_last_error b)))) b)"
    proof (cases "contents b")
      case Nil
      then have "(ReadInt b :: u8 \<times> Buffer) = (0, set_error ReadOutOfBounds b)"
        using b(1) by (simp add: ReadInt_def ReadNumber_def CheckReadableBytes_iff of_mem_image_def GetSystemEndianness_def)
      then show ?thesis using Nil
        by (simp add: sample_serializer_def sample_reader_def GetAndClearLastError_def set_error_def cursor_at_def)
    next
      case (Cons x rest)
      then have "(ReadInt b :: u8 \<times> Buffer) = (x, cursor_at 1 (buf_last_error b) b)"
        using local_parses [OF bytes_reader_ReadInt parses_ReadInt [of LittleEndian x] b, of rest] by simp
      then show ?thesis using Cons
        by (simp add: sample_serializer_def sample_reader_def GetAndClearLastError_def set_error_def cursor_at_def)
    qed
  qed
  then show ?thesis
    by (auto simp: reads_as_def sample_codec_def Codec_Add_def Codec_new_def split: if_splits)
qed

lemma message_of:
  assumes "length bs < 2 ^ 61"
  shows "message_buffer (Write default_new bs (Buffer_new LittleEndian))" and "contents (Write default_new bs (Buffer_new LittleEndian)) = bs"
proof -
  have "appended (Buffer_new LittleEndian) (Write default_new bs (Buffer_new LittleEndian)) bs"
    by (rule emitsD [OF heap.emits_Write endianness_new room_new [OF assms]])
  then show "message_buffer (Write default_new bs (Buffer_new LittleEndian))" "contents (Write default_new bs (Buffer_new LittleEndian)) = bs"
    by (simp_all add: appended_def message_buffer_def) (simp add: Buffer_new_def)
qed

definition sample_frames :: "(u64 \<times> bytes) list" where
  "sample_frames = [(7, [5]), (9, [1, 2]), (7, []), (7, [6, 6])]"

lemma sample_frames: "length (frames sample_frames) = 29"
  by code_simp


theorem decoding_ends_witness:
  "\<exists>r. Codec_Deserialize sample_codec (\<lambda>p s. s @ [p]) (\<lambda>_. True) (Write default_new [1, 2, 3] (Buffer_new LittleEndian)) [] = Some r"
  by (rule decoding_ends [OF frame_buffer_message(2) [OF message_of(1)] sample_reads]) simp

text \<open>
  A serializer that leaves the error of a short read in the buffer costs the frames behind it:
  the second frame is whole and its header is read without fault, yet the buffer is dropped
  as if the header could not be read.
\<close>

lemma decode_frame_stale:
  assumes "frame_buffer b" and "contents b = frame pid payload @ rest" and "buf_last_error b \<noteq> NoBufferError"
  shows "decode_frame codec Handle alive b st s = Break ((note_invalid st)\<lparr>ds_framing_lost := True\<rparr>) s"
proof -
  let ?n = "length (enc_varint LittleEndian pid)" let ?e = "buf_last_error b"
  have b: "stream_ok b" "buf_endianness b = LittleEndian" using assms(1) by (simp_all add: frame_buffer_def)
  have v: "(ReadVarInt b :: u64 \<times> Buffer) = (pid, cursor_at ?n ?e b)"
    by (rule local_parses [OF bytes_reader_ReadVarInt parses_ReadVarInt b]) (use assms(2) in \<open>simp_all add: frame_def\<close>)
  have "?n \<le> length (contents b)" using assms(2) by (simp add: frame_def)
  note c = cursor_at [OF b(1) this, of ?e]
  obtain m b2 where "ReadInt (cursor_at ?n ?e b) = (m :: u32, b2)" "buf_last_error b2 = ?e"
    using local_parses [OF bytes_reader_ReadInt parses_ReadInt [of LittleEndian "word_of_nat (length payload) :: u32"] c(1), of "payload @ rest"]
      c(2,3) b(2) assms(2) by (simp add: frame_def)
  then show ?thesis using v assms(3) by (simp add: decode_frame_def GetAndClearLastError_def)
qed

lemma decode_frames_stale:
  assumes "message_buffer b" and "contents b = frame pid [] @ frame pid2 payload2 @ rest" and "codec pid = Some ser"
    and "local_reader (ser_Deserialize ser) g" and "g [] NoBufferError = (Some p, 0, err)" and "err \<noteq> NoBufferError" and "alive s"
  shows "Codec_Deserialize codec Handle alive b s
    = Some (Decoded \<lparr>ds_invalid_frames = 1, ds_framing_lost = True\<rparr> (Handle p s))"
proof -
  have "length ([] :: bytes) < 2 ^ 32" by simp
  note h = read_header [OF assms(1,2) this]
  define b3 where "b3 = cursor_at (header_len pid) NoBufferError b"
  have b3: "message_buffer b3" "contents b3 = [] @ frame pid2 payload2 @ rest" "0 < buf_read_cursor b3"
    using h(3,4) by (simp_all add: b3_def header_len_def)
  have "GetAndClearLastError b3 = (NoBufferError, b3)"
    using b3(1) by (simp add: GetAndClearLastError_def message_buffer_def set_error_def)
  then have "decode_frame codec Handle alive b st s = decode_payload codec Handle alive pid 0 b3 st s" for st
    using h(1,2) by (simp add: decode_frame_def b3_def [symmetric])
  moreover have "decode_payload codec Handle alive pid 0 b3 st s = Continue (cursor_at 0 err b3) st (Handle p s)" for st
    using decode_payload_at [OF b3, where codec = codec and pid = pid and alive = alive and s = s and g = g and Handle = Handle and st = st] assms(3-5,7)
    by simp
  ultimately have first: "decode_frame codec Handle alive b st s = Continue (cursor_at 0 err b3) st (Handle p s)" for st by simp
  have b4: "frame_buffer (cursor_at 0 err b3)" "contents (cursor_at 0 err b3) = frame pid2 payload2 @ rest"
    using frame_buffer_cursor [OF frame_buffer_message(2) [OF b3(1)], of 0 err] cursor_at(2) [of b3 0 err] b3(1,2)
    by (simp_all add: message_buffer_def)
  have second: "decode_frame codec Handle alive (cursor_at 0 err b3) st s' = Break ((note_invalid st)\<lparr>ds_framing_lost := True\<rparr>) s'" for st s'
    by (rule decode_frame_stale [OF b4]) (simp add: assms(6))
  have r: "0 < readable_bytes (cursor_at 0 err b3)" "1 < readable_bytes b"
    using length_contents [of "cursor_at 0 err b3"] b4 frame_nonempty(2) [of payload2 pid2] message_bytes [OF assms(1)] assms(2)
      frame_nonempty(3) [of pid "[]"] by (auto simp: frame_buffer_def)
  then obtain n where "readable_bytes b = Suc n" by (cases "readable_bytes b") auto
  then show ?thesis
    using first second r by (simp add: Codec_Deserialize_def DecodeStats_init_def note_invalid_def)
qed

theorem stale_error_drops_next_frame:
  "Codec_Deserialize (Codec_Add 7 unchecked_serializer Codec_new) (\<lambda>p s. s @ [p]) (\<lambda>_. True)
      (Write default_new (frames [(7, []), (7, [1, 0, 0, 0])]) (Buffer_new LittleEndian)) []
     = Some (Decoded \<lparr>ds_invalid_frames = 1, ds_framing_lost = True\<rparr> [0])"
proof -
  obtain g where g: "local_reader (ser_Deserialize unchecked_serializer) g"
    using bytes_reader_bind [OF bytes_reader_ReadInt [where 'a = 32] bytes_reader_ret(1), of Some]
    by (auto simp: bytes_reader_def unchecked_serializer_def)
  let ?b = "Buffer_new LittleEndian"
  have rd: "ser_Deserialize unchecked_serializer ?b = (Some 0, set_error ReadOutOfBounds ?b)"
    by (simp add: unchecked_serializer_def ReadInt_def ReadNumber_def CheckReadableBytes_iff of_mem_image_def GetSystemEndianness_def)
  obtain v k e where r: "g [] NoBufferError = (v, k, e)" by (cases "g [] NoBufferError")
  have "k \<le> 0" "ser_Deserialize unchecked_serializer ?b = (v, cursor_at k e ?b)"
    using local_readerD [OF g stream_ok_new endianness_new, of v k e] r by simp_all
  then have kv: "k = 0" "v = Some 0" "cursor_at k e ?b = set_error ReadOutOfBounds ?b" using rd by simp_all
  have "buf_last_error (cursor_at k e ?b) = ReadOutOfBounds" unfolding kv(3) by (simp add: set_error_def)
  then have "g [] NoBufferError = (Some 0, 0, ReadOutOfBounds)" using r kv by simp
  moreover have "length (frames [(7, []), (7, [1, 0, 0, 0])]) = 16" by code_simp
  ultimately show ?thesis
    using decode_frames_stale [OF message_of(1) _ _ g, of "frames [(7, []), (7, [1, 0, 0, 0])]" 7 7 "[1, 0, 0, 0]" "[]"
        "Codec_Add 7 unchecked_serializer Codec_new" 0 ReadOutOfBounds "\<lambda>_. True" "[]" "\<lambda>p s. s @ [p]"]
      message_of(2) [of "frames [(7, []), (7, [1, 0, 0, 0])]"]
    by (simp add: frames_def Codec_Add_def Codec_new_def)
qed

end
