(* ===== verification/Message_Pipeline.thy ===== *)
theory Message_Pipeline
  imports Encryption Packet_Codec
begin

text \<open>
  The path of one message between a packet and the bytes a transport carries,
  \<open>message_pipeline.h\<close> and \<open>message_pipeline.cc\<close>: serialize, compress, encrypt, and the
  reverse. The encryption layer belongs to the session and is passed through. Its lemmas
  compose the round trips of the three stages.
\<close>

record 'p MessagePipeline =
  mp_codec :: "'p Codec option"
  mp_out_compression :: CompressionType
  mp_compression_threshold :: nat

definition kSendHeadroom :: nat where "kSendHeadroom = 4"

definition MessagePipeline_new :: "'p MessagePipeline" where
  "MessagePipeline_new = \<lparr>mp_codec = None, mp_out_compression = CompressionNone, mp_compression_threshold = 128\<rparr>"

definition Encode ::
  "('pk, 'm) openssl_scheme \<Rightarrow> build \<Rightarrow> ('p \<Rightarrow> u64) \<Rightarrow> 'p MessagePipeline \<Rightarrow> 'p \<Rightarrow> u8
     \<Rightarrow> 'pk EncryptionLayer \<Rightarrow> Buffer option \<times> 'pk EncryptionLayer" where
  "Encode ssl z packet_id pl packet stream el =
     (case mp_codec pl of
        None \<Rightarrow> (None, el)
      | Some codec \<Rightarrow>
          (case Codec_Serialize packet_id codec packet kSendHeadroom of
             None \<Rightarrow> (None, el)
           | Some b \<Rightarrow>
               let compression = (if readable_bytes b < mp_compression_threshold pl then CompressionNone
                                  else mp_out_compression pl)
               in (case HandleOutWithType z compression b of
                     None \<Rightarrow> (None, el)
                   | Some b1 \<Rightarrow> HandleOut ssl b1 stream el)))"

definition Decode ::
  "('pk, 'm) openssl_scheme \<Rightarrow> build \<Rightarrow> Buffer \<Rightarrow> 'pk EncryptionLayer \<Rightarrow> Buffer option \<times> 'pk EncryptionLayer" where
  "Decode ssl z b el =
     (case HandleIn ssl b el of
        (None, el1) \<Rightarrow> (None, el1)
      | (Some b1, el1) \<Rightarrow> (HandleInDynamic z b1, el1))"

section \<open>Plain messages\<close>

text \<open>Without encryption the mode byte is prepended, and comes off again while no keys exist.\<close>

lemma HandleOut_plain:
  assumes "message_buffer b" and "length (contents b) \<le> int_max" and "\<not> el_enable_encryption el"
  obtains w where "HandleOut ssl b s el = (Some w, el)" and "message_buffer w" and "contents w = kModePlaintext # contents b"
proof -
  note r = message_bytes [OF assms(1)]
  have n: "\<not> readable_bytes b > int_max" using r assms(2) by simp
  show thesis
  proof (cases "buf_read_cursor b = 0 \<or> buf_data b = None")
    case True
    let ?w = "Write default_new (contents b) (WriteInt default_new kModePlaintext
      (snd (ReserveExact default_new (length (contents b) + Suc 2) (ReserveHeadroom 2 (Buffer_new LittleEndian)))))"
    have "HandleOut ssl b s el = (Some ?w, el)"
      using True n assms(3) r by (simp add: HandleOut_def PrependInt8_def Let_def kModePlaintext_def numeral_3_eq_3)
    moreover have "2 + length (contents b) + 1 < 2 ^ 60" using assms(2) by (simp add: int_max_def)
    note t = tagged_bytes [OF this, of kModePlaintext]
    ultimately show thesis using that headroom_message [OF t(2-4)] t(1) by blast
  next
    case False
    then have "headroom (Suc 0) b" using assms(1) by (auto simp: headroom_def message_buffer_def)
    from PrependInt8_headroom [OF this, of kModePlaintext]
    obtain b' where b': "PrependInt8 kModePlaintext b = (True, b')" "headroom 0 b'" "contents b' = kModePlaintext # contents b"
        "buf_endianness b' = buf_endianness b" "buf_last_error b' = buf_last_error b" by metis
    then have "HandleOut ssl b s el = (Some b', el)"
      using n assms(3) by (simp add: HandleOut_def Let_def kModePlaintext_def)
    then show thesis using that b' headroom_message [OF b'(2)] assms(1) by (simp add: message_buffer_def)
  qed
qed

lemma HandleIn_plain:
  assumes "message_buffer w" and "contents w = kModePlaintext # m" and "\<not> el_key_filled el"
  obtains b where "HandleIn ssl w el = (Some b, el)" and "message_buffer b" and "contents b = m"
proof -
  obtain b where "(ReadInt w :: u8 \<times> Buffer) = (kModePlaintext, b)" "message_buffer b" "contents b = m"
    by (rule ReadInt_byte [OF assms(1,2)])
  then show thesis using that assms(3) by (simp add: HandleIn_def HandleDecrypt_def)
qed

section \<open>The round trip\<close>

text \<open>
  Two ends agree on the mode: either neither has keys, or the sender encrypts and the receiver
  holds the matching keys, has seen nothing the sender did not send, and the counter lasts.
\<close>

definition matched :: "'pk EncryptionLayer \<Rightarrow> 'pk EncryptionLayer \<Rightarrow> bool" where
  "matched A B \<longleftrightarrow> (\<not> el_enable_encryption A \<and> \<not> el_key_filled B)
     \<or> (el_enable_encryption A \<and> el_key_filled B \<and> layer_ok A \<and> layer_ok B
        \<and> el_tx_key A = el_rx_key B \<and> el_tx_salt A = el_rx_salt B \<and> in_sync A B)"

lemma cipher_roundtrip:
  assumes "gcm_law ssl" and "matched A B" and "message_buffer b" and "length (contents b) \<le> int_max"
    and "next_counter s A \<noteq> kMaxCounter"
  obtains w A' B' b' where "HandleOut ssl b s A = (Some w, A')" and "stream_ok w"
    and "HandleIn ssl w B = (Some b', B')" and "message_buffer b'" and "contents b' = contents b" and "matched A' B'"
proof (cases "el_enable_encryption A")
  case False
  then have B: "\<not> el_key_filled B" using assms(2) by (simp add: matched_def)
  obtain w where w: "HandleOut ssl b s A = (Some w, A)" "message_buffer w" "contents w = kModePlaintext # contents b"
    by (rule HandleOut_plain [OF assms(3,4) False])
  obtain b' where "HandleIn ssl w B = (Some b', B)" "message_buffer b'" "contents b' = contents b"
    by (rule HandleIn_plain [OF w(2,3) B])
  then show thesis using that w assms(2) by (simp add: message_buffer_def)
next
  case True
  then have m: "el_key_filled B" "layer_ok A" "layer_ok B" "el_tx_key A = el_rx_key B" "el_tx_salt A = el_rx_salt B" "in_sync A B"
    using assms(2) by (simp_all add: matched_def)
  have ok: "stream_ok b" using assms(3) by (simp add: message_buffer_def)
  note step = in_sync_step [OF m(6,2) assms(5)]
  obtain w where w: "HandleOut ssl b s A = (Some w, sealed_layer s A)" "stream_ok w"
      "HandleIn ssl w B = (Some (opened_bytes (contents b)), opened_layer s (next_counter s A) B)"
    using sent_opened [OF assms(1) m(2,3) True m(1,4,5) ok assms(4,5)] step(1) by auto
  have len: "length (contents b) < 2 ^ 61" using assms(4) by (simp add: int_max_def)
  note o = opened_bytes [OF len]
  have "matched (sealed_layer s A) (opened_layer s (next_counter s A) B)"
    using m True step(2) layer_ok_sealed [OF m(2) assms(5)] by (simp add: matched_def)
  moreover have "message_buffer (opened_bytes (contents b))" using o by (simp add: message_buffer_def)
  ultimately show thesis using that w o(1) by blast
qed

lemma pipeline_roundtrip:
  assumes "gcm_law ssl" and "build_ok z" and "matched A B" and "next_counter s A \<noteq> kMaxCounter"
    and "mp_codec pl = Some codec" and "mp_out_compression pl = CompressionNone \<or> mp_out_compression pl = Zstandard"
    and "codec (packet_id p) = Some ser" and "serializes ser p payload" and "length payload < 2 ^ 29"
  obtains w A' B' b where "Encode ssl z packet_id pl p s A = (Some w, A')" and "stream_ok w"
    and "Decode ssl z w B = (Some b, B')" and "message_buffer b" and "contents b = frame (packet_id p) payload"
    and "matched A' B'"
proof -
  have len: "kSendHeadroom + length payload < 2 ^ 32" using assms(9) by (simp add: kSendHeadroom_def)
  obtain f where f: "Codec_Serialize packet_id codec p kSendHeadroom = Some f" "message_buffer f" "contents f = frame (packet_id p) payload"
    using Codec_Serialize_bytes [where codec = codec and packet_id = packet_id and p = p, OF assms(7,8) len] by metis
  have fl: "length (frame (packet_id p) payload) \<le> length payload + 13"
    using length_enc_varint_le [of LittleEndian "packet_id p"] by (simp add: frame_def)
  define t where "t = (if readable_bytes f < mp_compression_threshold pl then CompressionNone else mp_out_compression pl)"
  have t: "t = CompressionNone \<or> t = Zstandard" using assms(6) by (auto simp: t_def)
  have "length (contents f) < 2 ^ 56" using fl f(3) assms(9) by simp
  from compression_roundtrip [OF assms(2) t f(2) this]
  obtain c where c: "HandleOutWithType z t f = Some c" "message_buffer c" "length (contents c) \<le> 2 * length (contents f) + 1025"
      "\<And>w'. message_buffer w' \<Longrightarrow> contents w' = contents c \<Longrightarrow> \<exists>b'. HandleInDynamic z w' = Some b' \<and> message_buffer b' \<and> contents b' = contents f"
    by metis
  have "length (contents c) \<le> int_max" using c(3) fl f(3) assms(9) by (simp add: int_max_def)
  from cipher_roundtrip [OF assms(1,3) c(2) this assms(4)]
  obtain w A' B' b' where w: "HandleOut ssl c s A = (Some w, A')" "stream_ok w" "HandleIn ssl w B = (Some b', B')"
      "message_buffer b'" "contents b' = contents c" "matched A' B'" by metis
  obtain b where "HandleInDynamic z b' = Some b" "message_buffer b" "contents b = contents f"
    using c(4) [OF w(4,5)] by blast
  moreover have "Encode ssl z packet_id pl p s A = (Some w, A')"
    using assms(5) f(1) c(1) w(1) by (simp add: Encode_def t_def Let_def)
  ultimately show thesis using that w f(3) by (simp add: Decode_def)
qed

end
