(* ===== verification/Peer_Session.thy ===== *)
theory Peer_Session
  imports Message_Pipeline Mpsc_Queue
begin

text \<open>
  A session with one peer: \<open>peer_session.h\<close>, \<open>peer_session.cc\<close>, \<open>outbound_queue.h\<close>,
  \<open>packet_handler.h\<close> and the key exchange of \<open>encryption.cc\<close>, which drives the session until
  it is ready. A transport is the table of its virtual functions; the application's packets,
  its codec and its handler are parameters. A handler that is executing refers to the codec
  that called it, so a step that runs on after the handshake has released both is a crash of
  the model.
\<close>

section \<open>Packets\<close>

record 'pk HandshakePacket =
  hp_pub_key :: "'pk option"
  hp_encryption :: bool
  hp_compression :: u8

datatype ('pk, 'a) Packet =
    Handshake "'pk HandshakePacket"
  | ConnectionReady bytes
  | AppPacket 'a

definition HandshakePacketId :: u64 where "HandshakePacketId = - 2"
definition ConnectionReadyPacketId :: u64 where "ConnectionReadyPacketId = - 3"

definition packet_id :: "('a \<Rightarrow> u64) \<Rightarrow> ('pk, 'a) Packet \<Rightarrow> u64" where
  "packet_id app_id p = (case p of
      Handshake _ \<Rightarrow> HandshakePacketId | ConnectionReady _ \<Rightarrow> ConnectionReadyPacketId | AppPacket a \<Rightarrow> app_id a)"

text \<open>A packet of another type cannot reach these serializers: the registry goes by the id.\<close>

definition Handshake_SerializeTyped :: "('pk, 'm) openssl_scheme \<Rightarrow> 'pk HandshakePacket \<Rightarrow> Buffer \<Rightarrow> Buffer" where
  "Handshake_SerializeTyped ssl p b =
     (let b1 = WriteInt default_new (if hp_encryption p then 1 else 0 :: u8) b;
          b2 = WriteInt default_new (hp_compression p) b1;
          data = (case SerializePublicKey ssl (hp_pub_key p) of None \<Rightarrow> [] | Some der \<Rightarrow> der);
          b3 = WriteInt default_new (word_of_nat (length data) :: u32) b2
      in if length data > 0 then Write default_new data b3 else b3)"

definition Handshake_DeserializeTyped :: "('pk, 'm) openssl_scheme \<Rightarrow> Buffer \<Rightarrow> 'pk HandshakePacket \<times> Buffer" where
  "Handshake_DeserializeTyped ssl b =
     (let (enc, b1) = (ReadInt b :: u8 \<times> Buffer);
          (compression, b2) = (ReadInt b1 :: u8 \<times> Buffer);
          (len, b3) = (ReadInt b2 :: u32 \<times> Buffer)
      in if len \<noteq> 0
         then let (tmp, b4) = Read 1 (unat len) b3
              in (\<lparr>hp_pub_key = DeserializePublicKey ssl (case tmp of None \<Rightarrow> replicate (unat len) 0 | Some bs \<Rightarrow> bs),
                   hp_encryption = (enc \<noteq> 0), hp_compression = compression\<rparr>, b4)
         else (\<lparr>hp_pub_key = None, hp_encryption = (enc \<noteq> 0), hp_compression = compression\<rparr>, b3))"

definition HandshakePacketSerializerV1 :: "('pk, 'm) openssl_scheme \<Rightarrow> ('pk, 'a) Packet PacketSerializer" where
  "HandshakePacketSerializerV1 ssl = \<lparr>
     ser_Serialize = (\<lambda>p b. case p of Handshake h \<Rightarrow> (Handshake_SerializeTyped ssl h b, Some None) | _ \<Rightarrow> (b, None)),
     ser_Deserialize = (\<lambda>b. let (h, b1) = Handshake_DeserializeTyped ssl b in (Some (Handshake h), b1))\<rparr>"

definition ConnectionReadyPacketSerializerV1 :: "('pk, 'a) Packet PacketSerializer" where
  "ConnectionReadyPacketSerializerV1 = \<lparr>
     ser_Serialize = (\<lambda>p b. case p of ConnectionReady magic \<Rightarrow> (WriteString default_new magic b, Some None) | _ \<Rightarrow> (b, None)),
     ser_Deserialize = (\<lambda>b. let (magic, b1) = ReadString b in (Some (ConnectionReady magic), b1))\<rparr>"

definition handshake_codec :: "('pk, 'm) openssl_scheme \<Rightarrow> ('pk, 'a) Packet Codec" where
  "handshake_codec ssl = Codec_Add ConnectionReadyPacketId ConnectionReadyPacketSerializerV1
     (Codec_Add HandshakePacketId (HandshakePacketSerializerV1 ssl) Codec_new)"

section \<open>The queue of outgoing packets\<close>

record ('pk, 'a) OutItem =
  oi_packet :: "('pk, 'a) Packet"
  oi_options :: SendOptions

record ('pk, 'a) OutboundQueue =
  oq_queue :: "('pk, 'a) OutItem MpscQueue"
  oq_encoding :: bool
  oq_has_encoder :: bool

definition OutboundQueue_new :: "nat \<Rightarrow> ('pk, 'a) OutboundQueue" where
  "OutboundQueue_new cap = \<lparr>oq_queue = MpscQueue_new cap, oq_encoding = False, oq_has_encoder = False\<rparr>"

text \<open>Whether the push was accepted, and whether it is the one that wakes the encoder.\<close>

definition OutboundQueue_Push ::
  "('pk, 'a) Packet \<Rightarrow> SendOptions \<Rightarrow> ('pk, 'a) OutboundQueue \<Rightarrow> (bool \<times> bool) \<times> ('pk, 'a) OutboundQueue" where
  "OutboundQueue_Push p options q =
     (case Push \<lparr>oi_packet = p, oi_options = options\<rparr> (oq_queue q) of
        (Pushed queued, q1) \<Rightarrow> ((True, queued = 0), q\<lparr>oq_queue := q1\<rparr>)
      | (_, q1) \<Rightarrow> ((False, False), q\<lparr>oq_queue := q1\<rparr>))"

definition kInlineEncodeDepth :: nat where "kInlineEncodeDepth = 1"

definition ShouldEncodeInline :: "('pk, 'a) OutboundQueue \<Rightarrow> bool" where
  "ShouldEncodeInline q \<longleftrightarrow> \<not> oq_has_encoder q \<or> mpsc_size (oq_queue q) \<le> kInlineEncodeDepth"

section \<open>Transports and sessions\<close>

record 't TransportLayer =
  tl_Receive :: "'t \<Rightarrow> Buffer option \<times> 't"
  tl_Send :: "Buffer \<Rightarrow> SendOptions \<Rightarrow> 't \<Rightarrow> bool \<times> 't"
  tl_OrderingDomain :: "SendOptions \<Rightarrow> u8"
  tl_Close :: "bool \<Rightarrow> 't \<Rightarrow> Result \<times> 't"
  tl_IsClosed :: "'t \<Rightarrow> bool"
  tl_Update :: "'t \<Rightarrow> 't"
  tl_Flush :: "'t \<Rightarrow> 't"

datatype handler = HandshakeHandler | AppHandler

record ('pk, 'a, 't) PeerSession =
  ps_is_initiator :: bool
  ps_handler :: "handler option"
  ps_transport :: "'t option"
  ps_pipeline :: "('pk, 'a) Packet MessagePipeline"
  ps_encryption :: "'pk EncryptionLayer"
  ps_options :: CommonOptions
  ps_negotiated_compression :: CompressionType
  ps_is_ready :: bool
  ps_invalid_frames :: u64
  ps_outbound :: "('pk, 'a) OutboundQueue"

record ('pk, 'a, 't) session_env =
  env_ssl :: "'pk openssl"
  env_build :: build
  env_app_id :: "'a \<Rightarrow> u64"
  env_transport :: "'t TransportLayer"
  env_app :: "'a \<Rightarrow> ('pk, 'a, 't) PeerSession \<Rightarrow> ('pk, 'a, 't) PeerSession"

definition IsAlive :: "('pk, 'a, 't) session_env \<Rightarrow> ('pk, 'a, 't) PeerSession \<Rightarrow> bool" where
  "IsAlive env s = (case ps_transport s of None \<Rightarrow> False | Some t \<Rightarrow> \<not> tl_IsClosed (env_transport env) t)"

definition session_Close ::
  "('pk, 'a, 't) session_env \<Rightarrow> bool \<Rightarrow> ('pk, 'a, 't) PeerSession \<Rightarrow> Result \<times> ('pk, 'a, 't) PeerSession" where
  "session_Close env no_linger s = (case ps_transport s of
      None \<Rightarrow> (InvalidTransport, s)
    | Some t \<Rightarrow> (let (r, t1) = tl_Close (env_transport env) no_linger t in (r, s\<lparr>ps_transport := Some t1\<rparr>)))"

definition SetOutCompression :: "CompressionType \<Rightarrow> ('pk, 'a, 't) PeerSession \<Rightarrow> ('pk, 'a, 't) PeerSession" where
  "SetOutCompression t s = s\<lparr>ps_pipeline := (ps_pipeline s)\<lparr>mp_out_compression := t\<rparr>\<rparr>"

definition SetCodec :: "('pk, 'a) Packet Codec option \<Rightarrow> ('pk, 'a, 't) PeerSession \<Rightarrow> ('pk, 'a, 't) PeerSession" where
  "SetCodec codec s = s\<lparr>ps_pipeline := (ps_pipeline s)\<lparr>mp_codec := codec\<rparr>\<rparr>"

definition Ready :: "('pk, 'a, 't) session_env \<Rightarrow> ('pk, 'a, 't) PeerSession \<Rightarrow> ('pk, 'a, 't) PeerSession" where
  "Ready env s =
     (if \<not> IsAlive env s then s
      else let s1 = (if ps_negotiated_compression s \<noteq> CompressionNone
                     then SetOutCompression (ps_negotiated_compression s) s else s)
           in s1\<lparr>ps_is_ready := True\<rparr>)"

definition EncodeAndSend ::
  "('pk, 'a, 't) session_env \<Rightarrow> ('pk, 'a) Packet \<Rightarrow> SendOptions \<Rightarrow> ('pk, 'a, 't) PeerSession
     \<Rightarrow> bool \<times> ('pk, 'a, 't) PeerSession" where
  "EncodeAndSend env p options s =
     (case ps_transport s of
        None \<Rightarrow> (False, s)
      | Some t \<Rightarrow>
          (case Encode (env_ssl env) (env_build env) (packet_id (env_app_id env)) (ps_pipeline s) p
                  (tl_OrderingDomain (env_transport env) options) (ps_encryption s) of
             (None, el) \<Rightarrow> (False, s\<lparr>ps_encryption := el\<rparr>)
           | (Some b, el) \<Rightarrow>
               (let (ok, t1) = tl_Send (env_transport env) b options t
                in (ok, s\<lparr>ps_encryption := el, ps_transport := Some t1\<rparr>))))"

definition SendImmediate ::
  "('pk, 'a, 't) session_env \<Rightarrow> ('pk, 'a) Packet \<Rightarrow> SendOptions \<Rightarrow> ('pk, 'a, 't) PeerSession
     \<Rightarrow> bool \<times> ('pk, 'a, 't) PeerSession" where
  "SendImmediate env p options s = (if \<not> IsAlive env s then (False, s) else EncodeAndSend env p options s)"

section \<open>The key exchange\<close>

definition kReadyMagic :: bytes where
  "kReadyMagic = ascii ''343693b5-2b04-4d56-a3b5-48582ca37c7d''"

definition upd_encryption ::
  "('pk EncryptionLayer \<Rightarrow> 'pk EncryptionLayer) \<Rightarrow> ('pk, 'a, 't) PeerSession \<Rightarrow> ('pk, 'a, 't) PeerSession" where
  "upd_encryption f s = s\<lparr>ps_encryption := f (ps_encryption s)\<rparr>"

definition SendHandshake :: "('pk, 'a, 't) session_env \<Rightarrow> ('pk, 'a, 't) PeerSession \<Rightarrow> ('pk, 'a, 't) PeerSession" where
  "SendHandshake env s =
     (let el = ps_encryption s;
          offer_key = ps_is_initiator s \<or> el_want_encryption el;
          pub = (if offer_key \<and> el_pub_key el \<noteq> None then CloneKey (env_ssl env) (el_pub_key el) else None);
          packet = \<lparr>hp_pub_key = pub, hp_encryption = el_want_encryption el,
                    hp_compression = GetCompressionTypeRaw (ps_negotiated_compression s)\<rparr>;
          s1 = snd (SendImmediate env (Handshake packet) SendOptions_default s)
      in upd_encryption (\<lambda>el. el\<lparr>el_sent_handshake := True\<rparr>) s1)"

definition SendReady :: "('pk, 'a, 't) session_env \<Rightarrow> ('pk, 'a, 't) PeerSession \<Rightarrow> ('pk, 'a, 't) PeerSession" where
  "SendReady env s =
     (let s1 = upd_encryption (\<lambda>el. el\<lparr>el_enable_encryption := el_key_filled el\<rparr>) s;
          s2 = snd (SendImmediate env (ConnectionReady kReadyMagic) SendOptions_default s1)
      in upd_encryption (\<lambda>el. el\<lparr>el_sent_ready := True\<rparr>) s2)"

definition exchange_keys ::
  "('pk, 'a, 't) session_env \<Rightarrow> 'pk HandshakePacket \<Rightarrow> ('pk, 'a, 't) PeerSession \<Rightarrow> ('pk, 'a, 't) PeerSession" where
  "exchange_keys env packet s =
     (let s1 = upd_encryption (\<lambda>el. el\<lparr>el_peer_pkey := hp_pub_key packet\<rparr>) s;
          secret = ComputeSharedSecret (env_ssl env) (el_pub_key (ps_encryption s1)) (el_peer_pkey (ps_encryption s1));
          s2 = upd_encryption (\<lambda>el. el\<lparr>el_shared_secret := secret\<rparr>) s1
      in if (case secret of None \<Rightarrow> True | Some x \<Rightarrow> length x = 0) then snd (session_Close env False s2)
         else let (ok, el) = DeriveDirectionalKeys (env_ssl env) (ps_is_initiator s2) (ps_encryption s2);
                  s3 = s2\<lparr>ps_encryption := el\<rparr>
              in if \<not> ok then snd (session_Close env False s3)
                 else let s4 = upd_encryption (\<lambda>el. el\<lparr>el_key_filled := True, el_negotiated := True\<rparr>) s3
                      in if \<not> el_sent_handshake (ps_encryption s4) then SendHandshake env s4
                         else if \<not> el_sent_ready (ps_encryption s4) then SendReady env s4 else s4)"

definition OnHandshakePacket ::
  "('pk, 'a, 't) session_env \<Rightarrow> 'pk HandshakePacket \<Rightarrow> ('pk, 'a, 't) PeerSession \<Rightarrow> ('pk, 'a, 't) PeerSession" where
  "OnHandshakePacket env packet s =
     (let el = ps_encryption s
      in if el_peer_pkey el \<noteq> None \<or> el_key_filled el then snd (session_Close env False s)
         else if ps_is_initiator s
         then let s1 = s\<lparr>ps_negotiated_compression := compression_of_raw (hp_compression packet)\<rparr>
              in if \<not> hp_encryption packet
                 then let s2 = upd_encryption (\<lambda>el. el\<lparr>el_negotiated := True\<rparr>) s1
                      in if \<not> el_sent_ready (ps_encryption s2) then SendReady env s2 else s2
                 else if hp_pub_key packet = None then snd (session_Close env False s1)
                 else exchange_keys env packet s1
         else if \<not> el_want_encryption el
         then let s1 = upd_encryption (\<lambda>el. el\<lparr>el_negotiated := True\<rparr>) s
              in if \<not> el_sent_handshake (ps_encryption s1) then SendHandshake env s1
                 else if \<not> el_sent_ready (ps_encryption s1) then SendReady env s1 else s1
         else if hp_pub_key packet = None then snd (session_Close env False s)
         else exchange_keys env packet s)"

definition OnAcknowledgePacket ::
  "('pk, 'a, 't) session_env \<Rightarrow> bytes \<Rightarrow> ('pk, 'a, 't) PeerSession \<Rightarrow> ('pk, 'a, 't) PeerSession" where
  "OnAcknowledgePacket env magic s =
     (if \<not> el_negotiated (ps_encryption s) then snd (session_Close env False s)
      else if magic \<noteq> kReadyMagic then snd (session_Close env False s)
      else let s1 = (if \<not> el_sent_ready (ps_encryption s) then SendReady env s else s);
               s2 = s1\<lparr>ps_handler := None\<rparr>;
               s3 = SetCodec None s2
           in Ready env s3)"

section \<open>The life of a session\<close>

definition Handle ::
  "('pk, 'a, 't) session_env \<Rightarrow> handler \<Rightarrow> ('pk, 'a) Packet \<Rightarrow> ('pk, 'a, 't) PeerSession \<Rightarrow> ('pk, 'a, 't) PeerSession" where
  "Handle env h p s =
     (case h of
        HandshakeHandler \<Rightarrow> (case p of
            Handshake packet \<Rightarrow> OnHandshakePacket env packet s
          | ConnectionReady magic \<Rightarrow> OnAcknowledgePacket env magic s
          | AppPacket a \<Rightarrow> s)
      | AppHandler \<Rightarrow> (case p of AppPacket a \<Rightarrow> env_app env a s | _ \<Rightarrow> s))"

text \<open>
  The session alone holds the codec of the handshake, which the handshake's own handler
  releases; an application keeps its codec.
\<close>

definition codec_alive :: "handler \<Rightarrow> ('pk, 'a, 't) PeerSession \<Rightarrow> bool" where
  "codec_alive h s \<longleftrightarrow> h = AppHandler \<or> mp_codec (ps_pipeline s) \<noteq> None"

definition PeerSession_new ::
  "('pk, 'a, 't) session_env \<Rightarrow> 'pk option \<Rightarrow> 't option \<Rightarrow> bool \<Rightarrow> CommonOptions \<Rightarrow> ('pk, 'a, 't) PeerSession" where
  "PeerSession_new env key transport is_initiator options =
     (let s0 = \<lparr>ps_is_initiator = is_initiator, ps_handler = None, ps_transport = transport,
                ps_pipeline = MessagePipeline_new, ps_encryption = EncryptionLayer_fields key,
                ps_options = options, ps_negotiated_compression = CompressionNone, ps_is_ready = False,
                ps_invalid_frames = 0, ps_outbound = OutboundQueue_new (send_queue_capacity options)\<rparr>;
          s1 = (if key = None then snd (session_Close env False s0)
                else SetCodec (Some (handshake_codec (env_ssl env))) (s0\<lparr>ps_handler := Some HandshakeHandler\<rparr>));
          s2 = s1\<lparr>ps_pipeline := (ps_pipeline s1)\<lparr>mp_compression_threshold := compression_threshold options\<rparr>\<rparr>;
          s3 = s2\<lparr>ps_negotiated_compression := (if is_initiator then CompressionNone
                     else ResolveCompressionType (env_build env) (opt_compression options))\<rparr>;
          s4 = upd_encryption (\<lambda>el. el\<lparr>el_want_encryption := opt_encryption options\<rparr>) s3
      in if is_initiator then SendHandshake env s4 else s4)"

definition SendPacket ::
  "('pk, 'a, 't) session_env \<Rightarrow> ('pk, 'a) Packet option \<Rightarrow> SendOptions \<Rightarrow> ('pk, 'a, 't) PeerSession
     \<Rightarrow> Result \<times> ('pk, 'a, 't) PeerSession" where
  "SendPacket env packet options s =
     (case packet of
        None \<Rightarrow> (InvalidArgument, s)
      | Some p \<Rightarrow>
          if \<not> IsAlive env s then (NotConnected, s)
          else if \<not> ps_is_ready s then (NotReady, s)
          else (let ((ok, wake), q) = OutboundQueue_Push p options (ps_outbound s);
                    s1 = s\<lparr>ps_outbound := q\<rparr>
                in (if ok then Success else QueueFull, s1)))"

text \<open>
  The loop of \<open>Drain\<close> takes one item at a time until the queue is empty; nothing it calls
  queues another, so the capacity of the queue bounds its rounds.
\<close>

primrec drain_items ::
  "nat \<Rightarrow> ('pk, 'a, 't) session_env \<Rightarrow> ('pk, 'a, 't) PeerSession \<Rightarrow> bool \<times> ('pk, 'a, 't) PeerSession" where
  "drain_items 0 env s = (False, s)"
| "drain_items (Suc n) env s =
     (case Pop (oq_queue (ps_outbound s)) of
        (None, q) \<Rightarrow> (False, s\<lparr>ps_outbound := (ps_outbound s)\<lparr>oq_queue := q\<rparr>\<rparr>)
      | (Some item, q) \<Rightarrow>
          let s1 = s\<lparr>ps_outbound := (ps_outbound s)\<lparr>oq_queue := q\<rparr>\<rparr>;
              (encoded, s2) = (if \<not> IsAlive env s1 then (False, s1)
                               else (True, snd (EncodeAndSend env (oi_packet item) (oi_options item) s1)));
              (more, s3) = drain_items n env s2
          in (encoded \<or> more, s3))"

definition DrainOutbound :: "('pk, 'a, 't) session_env \<Rightarrow> ('pk, 'a, 't) PeerSession \<Rightarrow> bool \<times> ('pk, 'a, 't) PeerSession" where
  "DrainOutbound env s =
     (if oq_encoding (ps_outbound s) then (False, s)
      else let s1 = s\<lparr>ps_outbound := (ps_outbound s)\<lparr>oq_encoding := True\<rparr>\<rparr>;
               (encoded, s2) = drain_items (Suc (capacity (oq_queue (ps_outbound s1)))) env s1
           in (encoded, s2\<lparr>ps_outbound := (ps_outbound s2)\<lparr>oq_encoding := False\<rparr>\<rparr>))"

definition kMaxReceivesPerProcess :: nat where "kMaxReceivesPerProcess = 256"

datatype 's processed = Processed bool 's | ProcessCrashed 's | ProcessHangs

primrec receive_messages ::
  "nat \<Rightarrow> ('pk, 'a, 't) session_env \<Rightarrow> bool \<Rightarrow> ('pk, 'a, 't) PeerSession \<Rightarrow> ('pk, 'a, 't) PeerSession processed" where
  "receive_messages 0 env worked s = Processed worked s"
| "receive_messages (Suc n) env worked s =
     (case (ps_handler s, mp_codec (ps_pipeline s), ps_transport s) of
        (Some h, Some codec, Some t) \<Rightarrow>
          (case tl_Receive (env_transport env) t of
             (None, t1) \<Rightarrow> Processed worked (s\<lparr>ps_transport := Some t1\<rparr>)
           | (Some b, t1) \<Rightarrow>
               let s1 = s\<lparr>ps_transport := Some t1\<rparr>;
                   (payload, el) = Decode (env_ssl env) (env_build env) b (ps_encryption s1);
                   s2 = s1\<lparr>ps_encryption := el\<rparr>
               in (case payload of
                     None \<Rightarrow> receive_messages n env True s2
                   | Some m \<Rightarrow>
                       (case Codec_Deserialize codec (Handle env h) (codec_alive h) m s2 of
                          None \<Rightarrow> ProcessHangs
                        | Some (Crashed s3) \<Rightarrow> ProcessCrashed s3
                        | Some (Decoded stats s3) \<Rightarrow>
                            if ds_invalid_frames stats > 0
                            then let s4 = s3\<lparr>ps_invalid_frames := ps_invalid_frames s3 + ucast (ds_invalid_frames stats)\<rparr>;
                                     limit = max_invalid_frames (ps_options s4)
                                 in if limit \<noteq> 0 \<and> ps_invalid_frames s4 \<ge> ucast limit
                                    then Processed True (snd (session_Close env True s4))
                                    else receive_messages n env True s4
                            else receive_messages n env True s3)))
      | _ \<Rightarrow> Processed worked s)"

definition Process :: "('pk, 'a, 't) session_env \<Rightarrow> ('pk, 'a, 't) PeerSession \<Rightarrow> ('pk, 'a, 't) PeerSession processed" where
  "Process env s =
     (if \<not> IsAlive env s then Processed False s
      else let s1 = s\<lparr>ps_transport := map_option (tl_Update (env_transport env)) (ps_transport s)\<rparr>
           in (case receive_messages kMaxReceivesPerProcess env False s1 of
                 Processed worked s2 \<Rightarrow>
                   let (encoded, s3) = (if ShouldEncodeInline (ps_outbound s2) \<or> \<not> IsAlive env s2
                                        then DrainOutbound env s2 else (False, s2));
                       s4 = (if IsAlive env s3
                             then s3\<lparr>ps_transport := map_option (tl_Flush (env_transport env)) (ps_transport s3)\<rparr> else s3)
                   in Processed (worked \<or> encoded) s4
               | r \<Rightarrow> r))"

section \<open>The packets of the handshake on the wire\<close>

definition key_bytes :: "('pk, 'm) openssl_scheme \<Rightarrow> 'pk HandshakePacket \<Rightarrow> bytes" where
  "key_bytes ssl p = (case SerializePublicKey ssl (hp_pub_key p) of None \<Rightarrow> [] | Some der \<Rightarrow> der)"

definition enc_handshake :: "('pk, 'm) openssl_scheme \<Rightarrow> 'pk HandshakePacket \<Rightarrow> bytes" where
  "enc_handshake ssl p = enc_int LittleEndian (if hp_encryption p then 1 else 0 :: u8)
     @ enc_int LittleEndian (hp_compression p)
     @ enc_int LittleEndian (word_of_nat (length (key_bytes ssl p)) :: u32) @ key_bytes ssl p"

lemma Handshake_emits: "emits LittleEndian (Handshake_SerializeTyped ssl p) (enc_handshake ssl p)"
proof -
  have "emits LittleEndian (if length (key_bytes ssl p) > 0 then Write default_new (key_bytes ssl p) else (\<lambda>b. b)) (key_bytes ssl p)"
    by (cases "key_bytes ssl p") (simp_all add: emits_id heap.emits_Write)
  from emits_comp [OF emits_comp [OF emits_comp [OF heap.emits_WriteInt [of LittleEndian "if hp_encryption p then 1 else 0 :: u8"]
        heap.emits_WriteInt [of LittleEndian "hp_compression p"]]
        heap.emits_WriteInt [of LittleEndian "word_of_nat (length (key_bytes ssl p)) :: u32"]] this]
  show ?thesis
    by (simp add: enc_handshake_def Handshake_SerializeTyped_def [abs_def] key_bytes_def [symmetric] Let_def if_distribR
        cong: if_cong)
qed

lemma Handshake_parses:
  assumes "length (key_bytes ssl p) < 2 ^ 32"
    and "hp_pub_key q = (if key_bytes ssl p = [] then None else d2i_PUBKEY ssl (key_bytes ssl p))"
    and "hp_encryption q = hp_encryption p" and "hp_compression q = hp_compression p"
  shows "parses LittleEndian (Handshake_DeserializeTyped ssl) q (enc_handshake ssl p)"
proof -
  let ?n = "word_of_nat (length (key_bytes ssl p)) :: u32"
  let ?e = "if hp_encryption p then 1 else 0 :: u8"
  let ?mk = "\<lambda>enc c k. \<lparr>hp_pub_key = k, hp_encryption = (enc \<noteq> (0 :: u8)), hp_compression = c\<rparr>"
  let ?body = "\<lambda>enc c len b. if len \<noteq> (0 :: u32)
      then let (tmp, b4) = Read 1 (unat len) b
           in (?mk enc c (DeserializePublicKey ssl (case tmp of None \<Rightarrow> replicate (unat len) 0 | Some bs \<Rightarrow> bs)), b4)
      else (?mk enc c None, b)"
  have n: "unat ?n = length (key_bytes ssl p)" using assms(1) by (simp add: unat_of_nat_small)
  then have n0: "?n = 0 \<longleftrightarrow> key_bytes ssl p = []" by (metis length_0_conv unat_eq_zero)
  have q: "q = ?mk ?e (hp_compression p) (if key_bytes ssl p = [] then None else d2i_PUBKEY ssl (key_bytes ssl p))"
    using assms(2-4) by (cases q) simp
  have "parses LittleEndian (?body ?e (hp_compression p) ?n) q (key_bytes ssl p)"
  proof (cases "key_bytes ssl p = []")
    case True
    then show ?thesis using n0 q by (simp add: parses_ret)
  next
    case False
    have "parses LittleEndian (Read 1 (unat ?n)) (Some (key_bytes ssl p)) (key_bytes ssl p)"
      using parses_Read [of 1 "unat ?n" "key_bytes ssl p"] n assms(1) by simp
    from parses_bind [OF this, where g = "\<lambda>tmp b4. (?mk ?e (hp_compression p)
        (DeserializePublicKey ssl (case tmp of None \<Rightarrow> replicate (unat ?n) 0 | Some bs \<Rightarrow> bs)), b4)", OF parses_ret]
    show ?thesis using False n0 q by (simp add: DeserializePublicKey_def)
  qed
  then have "parses LittleEndian (\<lambda>b. let (enc, b1) = ReadInt b; (c, b2) = ReadInt b1; (len, b3) = ReadInt b2 in ?body enc c len b3)
      q (enc_int LittleEndian ?e @ enc_int LittleEndian (hp_compression p) @ enc_int LittleEndian ?n @ key_bytes ssl p)"
    by (intro parses_bind [OF parses_ReadInt] parses_bind [OF parses_ReadInt]) simp_all
  then show ?thesis by (simp only: Handshake_DeserializeTyped_def [abs_def] enc_handshake_def)
qed

lemma Handshake_local: "bytes_reader (Handshake_DeserializeTyped ssl)"
proof -
  let ?mk = "\<lambda>enc c k. \<lparr>hp_pub_key = k, hp_encryption = (enc \<noteq> (0 :: u8)), hp_compression = c\<rparr>"
  have "bytes_reader (\<lambda>b. if len \<noteq> (0 :: u32)
      then let (tmp, b4) = Read 1 (unat len) b
           in (?mk enc c (DeserializePublicKey ssl (case tmp of None \<Rightarrow> replicate (unat len) 0 | Some bs \<Rightarrow> bs)), b4)
      else (?mk enc c None, b))" for enc c len
  proof (cases "len = 0")
    case False
    have "1 * unat len < 2 ^ 63" using unsigned_less [of len, where 'a = nat] by simp
    then have "bytes_reader (Read 1 (unat len))" by (intro bytes_reader_Read) simp_all
    from bytes_reader_bind [OF this bytes_reader_ret(1)] False show ?thesis by simp
  qed (simp add: bytes_reader_ret)
  then show ?thesis
    unfolding Handshake_DeserializeTyped_def [abs_def]
    by (intro bytes_reader_bind bytes_reader_ReadInt) simp_all
qed

lemma handshake_codec_entries:
  "handshake_codec ssl HandshakePacketId = Some (HandshakePacketSerializerV1 ssl)"
  "handshake_codec ssl ConnectionReadyPacketId = Some ConnectionReadyPacketSerializerV1"
  "handshake_codec ssl pid \<noteq> None \<longleftrightarrow> pid = HandshakePacketId \<or> pid = ConnectionReadyPacketId"
  by (auto simp: handshake_codec_def Codec_Add_def Codec_new_def HandshakePacketId_def ConnectionReadyPacketId_def)

lemma handshake_serializers_local:
  assumes "handshake_codec ssl pid = Some ser"
  shows "bytes_reader (ser_Deserialize ser)"
proof -
  have "bytes_reader (ser_Deserialize (HandshakePacketSerializerV1 ssl))"
    using bytes_reader_bind [OF Handshake_local [of ssl] bytes_reader_ret(1), where v1 = "\<lambda>h. Some (Handshake h)"]
    by (simp add: HandshakePacketSerializerV1_def)
  moreover have "bytes_reader (ser_Deserialize ConnectionReadyPacketSerializerV1)"
    using bytes_reader_bind [OF bytes_reader_ReadString bytes_reader_ret(1), where v1 = "\<lambda>m. Some (ConnectionReady m)"]
    by (simp add: ConnectionReadyPacketSerializerV1_def)
  moreover have "pid = HandshakePacketId \<or> pid = ConnectionReadyPacketId"
    using assms handshake_codec_entries(3) [of ssl pid] by (metis option.distinct(1))
  ultimately show ?thesis using assms by (auto simp: handshake_codec_entries(1,2))
qed

lemma reads_as_ex: "(\<And>pid ser. codec pid = Some ser \<Longrightarrow> bytes_reader (ser_Deserialize ser)) \<Longrightarrow> \<exists>g. reads_as codec g"
proof -
  assume a: "\<And>pid ser. codec pid = Some ser \<Longrightarrow> bytes_reader (ser_Deserialize ser)"
  have "\<exists>g. codec pid = Some ser \<longrightarrow> local_reader (ser_Deserialize ser) g" for pid ser
    using a [of pid ser] by (auto simp: bytes_reader_def)
  then obtain g where g: "\<And>pid ser. codec pid = Some ser \<Longrightarrow> local_reader (ser_Deserialize ser) (g pid ser)" by metis
  then have "reads_as codec (\<lambda>pid. g pid (the (codec pid)))" by (simp add: reads_as_def)
  then show ?thesis by blast
qed

lemma handshake_reads: "\<exists>g. reads_as (handshake_codec ssl) g"
  by (rule reads_as_ex) (rule handshake_serializers_local)

section \<open>One packet in one message\<close>

text \<open>
  A codec carries a packet when it has a serializer under the packet's id that writes it and
  reads those bytes back, as a packet the receiver may see differently (a public key has lost
  its private half).
\<close>

definition carries :: "'p Codec \<Rightarrow> u64 \<Rightarrow> 'p \<Rightarrow> 'p \<Rightarrow> bytes \<Rightarrow> bool" where
  "carries codec pid p q payload \<longleftrightarrow> (\<exists>ser. codec pid = Some ser \<and> serializes ser p payload
     \<and> parses LittleEndian (ser_Deserialize ser) (Some q) payload) \<and> length payload < 2 ^ 29"

lemma parses_clean:
  assumes "local_reader f g" and "parses LittleEndian f v bs" and "length bs < 2 ^ 61"
  shows "g bs NoBufferError = (v, length bs, NoBufferError)"
proof -
  define b where "b = Write default_new bs (Buffer_new LittleEndian)"
  have b: "stream_ok b" "contents b = bs" "buf_endianness b = LittleEndian" "buf_last_error b = NoBufferError"
    using emits_new [OF heap.emits_Write [of LittleEndian bs] assms(3)] by (simp_all add: b_def)
  obtain v' k e where 1: "g bs NoBufferError = (v', k, e)" by (cases "g bs NoBufferError")
  have "f b = (v, cursor_at (length bs) NoBufferError b)"
    using local_parses [of f v bs b "[]"] assms(1,2) b by (auto simp: bytes_reader_def)
  moreover have "f b = (v', cursor_at k e b)" using local_readerD(2) [OF assms(1) b(1,3)] 1 b(2,4) by simp
  ultimately have "v' = v" "cursor_at k e b = cursor_at (length bs) NoBufferError b" by simp_all
  then show ?thesis using 1 by (metis add_left_cancel cursor_at_simps(3,4))
qed

lemma decode_single:
  assumes "\<exists>g. reads_as codec g" and "carries codec pid p q payload"
    and "message_buffer b" and "contents b = frame pid payload" and "alive s"
  shows "Codec_Deserialize codec H alive b s = Some (Decoded DecodeStats_init (H q s))"
proof -
  obtain g where g: "reads_as codec g" using assms(1) by blast
  obtain ser where ser: "codec pid = Some ser" "parses LittleEndian (ser_Deserialize ser) (Some q) payload"
      "length payload < 2 ^ 29" using assms(2) by (auto simp: carries_def)
  have r: "g pid payload NoBufferError = (Some q, length payload, NoBufferError)"
    by (rule parses_clean [of "ser_Deserialize ser"]) (use g ser in \<open>auto simp: reads_as_def\<close>)
  obtain b' where b': "decode_frame codec H alive b DecodeStats_init s = Continue b' DecodeStats_init (H q s)"
      "message_buffer b'" "contents b' = []"
    using decode_frame_at [OF assms(3), where pid = pid and payload = payload and rest = "[]" and alive = alive
        and codec = codec and g = g and s = s and Handle = H and st = DecodeStats_init] assms(4,5) ser r g
    by (auto simp: dispatch_frame_def frame_refused_def clean_def)
  have "readable_bytes b' = 0" "0 < readable_bytes b"
    using message_bytes [OF b'(2)] b'(3) message_bytes [OF assms(3)] assms(4) frame_nonempty(1) [of pid payload] by simp_all
  then show ?thesis using b'(1) by (cases "readable_bytes b") (simp_all add: Codec_Deserialize_def)
qed

lemma carries_handshake:
  assumes "length (key_bytes ssl h) < 2 ^ 28"
    and "hp_pub_key q = (if key_bytes ssl h = [] then None else d2i_PUBKEY ssl (key_bytes ssl h))"
    and "hp_encryption q = hp_encryption h" and "hp_compression q = hp_compression h"
  shows "carries (handshake_codec ssl) HandshakePacketId (Handshake h) (Handshake q) (enc_handshake ssl h)"
proof -
  have "parses LittleEndian (Handshake_DeserializeTyped ssl) q (enc_handshake ssl h)"
    by (rule Handshake_parses) (use assms in auto)
  from parses_bind [OF this, where g = "\<lambda>h b1. (Some (Handshake h), b1)", OF parses_ret]
  have "parses LittleEndian (ser_Deserialize (HandshakePacketSerializerV1 ssl)) (Some (Handshake q)) (enc_handshake ssl h)"
    by (simp add: HandshakePacketSerializerV1_def)
  moreover have "serializes (HandshakePacketSerializerV1 ssl) (Handshake h) (enc_handshake ssl h)"
    using Handshake_emits by (simp add: serializes_def HandshakePacketSerializerV1_def)
  ultimately show ?thesis using assms(1) handshake_codec_entries(1) [of ssl] by (auto simp: carries_def enc_handshake_def)
qed

lemma length_kReadyMagic: "length kReadyMagic = 36"
  by (simp add: kReadyMagic_def ascii_def)

lemma ready_wire:
  "parses LittleEndian (ser_Deserialize ConnectionReadyPacketSerializerV1) (Some (ConnectionReady kReadyMagic))
     (enc_string LittleEndian kReadyMagic)"
  "length (enc_string LittleEndian kReadyMagic) < 2 ^ 29"
proof -
  let ?m = "enc_string LittleEndian kReadyMagic"
  have "parses LittleEndian ReadString kReadyMagic ?m"
    by (rule parses_ReadString) (simp add: length_kReadyMagic ZNET_MAX_READ_STRING_LENGTH_def)
  from parses_bind [OF this, where g = "\<lambda>m b1. (Some (ConnectionReady m), b1)", OF parses_ret]
  show "parses LittleEndian (ser_Deserialize ConnectionReadyPacketSerializerV1) (Some (ConnectionReady kReadyMagic)) ?m"
    by (simp add: ConnectionReadyPacketSerializerV1_def)
  show "length ?m < 2 ^ 29"
    using length_enc_varint_le [of LittleEndian "word_of_nat 36 :: u64"] by (simp add: enc_string_def enc_count_def length_kReadyMagic)
qed

lemma carries_ready:
  "\<exists>payload. carries (handshake_codec ssl) ConnectionReadyPacketId (ConnectionReady kReadyMagic) (ConnectionReady kReadyMagic) payload"
proof -
  have "serializes ConnectionReadyPacketSerializerV1 (ConnectionReady kReadyMagic) (enc_string LittleEndian kReadyMagic)"
    using heap.emits_WriteString by (simp add: serializes_def ConnectionReadyPacketSerializerV1_def)
  then show ?thesis using ready_wire handshake_codec_entries(2) [of ssl] by (auto simp: carries_def)
qed

end
