(* ===== verification/Session_Messages.thy ===== *)
theory Session_Messages
  imports Peer_Session
begin

text \<open>
  What one message does to a session: the parts of the cipher's state that sending and
  receiving touch, a packet's way from one session's codec to the other's handler, and the
  queue of outgoing packets.
\<close>

section \<open>What a message leaves of the layer\<close>

text \<open>
  Sending touches only the counters and the encrypting context, receiving only the replay
  windows and the decrypting context.
\<close>

definition tx_only :: "'pk EncryptionLayer \<Rightarrow> 'pk EncryptionLayer \<Rightarrow> bool" where
  "tx_only A A' \<longleftrightarrow> A' = A\<lparr>el_tx_counters := el_tx_counters A', el_enc_ctx := el_enc_ctx A', el_cipher_keyed := el_cipher_keyed A'\<rparr>"

definition rx_only :: "'pk EncryptionLayer \<Rightarrow> 'pk EncryptionLayer \<Rightarrow> bool" where
  "rx_only A A' \<longleftrightarrow> A' = A\<lparr>el_rx_replay := el_rx_replay A', el_dec_ctx := el_dec_ctx A', el_dec_keyed := el_dec_keyed A'\<rparr>"

lemma tx_only_refl [simp]: "tx_only A A" and rx_only_refl [simp]: "rx_only A A"
  by (simp_all add: tx_only_def rx_only_def)

lemma tx_onlyD:
  assumes "tx_only A A'"
  shows "el_pub_key A' = el_pub_key A" "el_peer_pkey A' = el_peer_pkey A" "el_sent_handshake A' = el_sent_handshake A"
    "el_sent_ready A' = el_sent_ready A" "el_enable_encryption A' = el_enable_encryption A"
    "el_want_encryption A' = el_want_encryption A" "el_negotiated A' = el_negotiated A"
    "el_shared_secret A' = el_shared_secret A" "el_key_filled A' = el_key_filled A" "el_tx_key A' = el_tx_key A"
    "el_rx_key A' = el_rx_key A" "el_tx_salt A' = el_tx_salt A" "el_rx_salt A' = el_rx_salt A"
    "el_exporter_secret A' = el_exporter_secret A" "el_rx_replay A' = el_rx_replay A"
    "el_dec_ctx A' = el_dec_ctx A" "el_dec_keyed A' = el_dec_keyed A"
  by (subst assms [unfolded tx_only_def], simp)+

lemma rx_onlyD:
  assumes "rx_only A A'"
  shows "el_pub_key A' = el_pub_key A" "el_peer_pkey A' = el_peer_pkey A" "el_sent_handshake A' = el_sent_handshake A"
    "el_sent_ready A' = el_sent_ready A" "el_enable_encryption A' = el_enable_encryption A"
    "el_want_encryption A' = el_want_encryption A" "el_negotiated A' = el_negotiated A"
    "el_shared_secret A' = el_shared_secret A" "el_key_filled A' = el_key_filled A" "el_tx_key A' = el_tx_key A"
    "el_rx_key A' = el_rx_key A" "el_tx_salt A' = el_tx_salt A" "el_rx_salt A' = el_rx_salt A"
    "el_exporter_secret A' = el_exporter_secret A" "el_tx_counters A' = el_tx_counters A"
    "el_enc_ctx A' = el_enc_ctx A" "el_cipher_keyed A' = el_cipher_keyed A"
  by (subst assms [unfolded rx_only_def], simp)+

lemma EncryptData_ctx:
  assumes "EncryptData ssl ctx fst_time k n a p = (r, ctx')" and "\<not> fst_time \<longrightarrow> ctx = Some (Some k)"
  shows "ctx' = ctx \<or> ctx' = Some (Some k)" and "r \<noteq> None \<longrightarrow> ctx' = Some (Some k)"
  using assms by (auto simp: EncryptData_def keyed_def split: if_splits option.splits)

lemma DecryptData_ctx:
  assumes "DecryptData ssl ctx fst_time k n a c t = (r, ctx')" and "\<not> fst_time \<longrightarrow> ctx = Some (Some k)"
  shows "ctx' = ctx \<or> ctx' = Some (Some k)" and "r \<noteq> None \<longrightarrow> ctx' = Some (Some k)"
  using assms by (auto simp: DecryptData_def keyed_def split: if_splits option.splits)

lemma TxCounter_tx_only: "tx_only el (TxCounter s el)" "layer_ok el \<Longrightarrow> layer_ok (TxCounter s el)"
  by (auto simp: tx_only_def TxCounter_def layer_ok_def)

lemma HandleOut_layer:
  assumes "HandleOut ssl b s el = (r, el')"
  shows "tx_only el el'" and "layer_ok el \<Longrightarrow> layer_ok el'"
proof -
  define el2 where "el2 = (TxCounter s el)\<lparr>el_tx_counters := (el_tx_counters (TxCounter s el))[unat s := next_counter s el + 1]\<rparr>"
  define el3 where "el3 = (if el_enc_ctx el2 = None
      then el2\<lparr>el_enc_ctx := (if EVP_CIPHER_CTX_new ssl then Some None else None), el_cipher_keyed := False\<rparr> else el2)"
  define ed where "ed = EncryptData ssl (el_enc_ctx el3) (\<not> el_cipher_keyed el3) (el_tx_key el3)
      (BuildNonce (el_tx_salt el2) s (next_counter s el)) [kModeAesGcm] (take (readable_bytes b) (read_cursor_data b))"
  have cases: "el' = el \<or> el' = TxCounter s el \<or> next_counter s el \<noteq> kMaxCounter
      \<and> (el' = el3\<lparr>el_enc_ctx := snd ed\<rparr> \<or> fst ed \<noteq> None \<and> el' = el3\<lparr>el_enc_ctx := snd ed, el_cipher_keyed := True\<rparr>)"
  proof (cases "readable_bytes b > int_max \<or> \<not> el_enable_encryption el \<or> next_counter s el = kMaxCounter")
    case True
    then have "snd (HandleOut ssl b s el) = el \<or> snd (HandleOut ssl b s el) = TxCounter s el"
      by (auto simp: HandleOut_def Let_def TxCounter_eq(3) case_prod_beta split: bool.split)
    then show ?thesis using assms by auto
  next
    case False
    then have "snd (HandleOut ssl b s el) = (case fst ed of None \<Rightarrow> el3\<lparr>el_enc_ctx := snd ed\<rparr>
        | Some _ \<Rightarrow> el3\<lparr>el_enc_ctx := snd ed, el_cipher_keyed := True\<rparr>)"
      by (simp add: HandleOut_def Let_def TxCounter_eq(3) el2_def [symmetric] el3_def [symmetric] ed_def [symmetric] case_prod_beta
          split: option.split split del: if_split)
    then show ?thesis using assms False by (cases "fst ed") auto
  qed
  have t3: "tx_only el el3" by (auto simp: tx_only_def el3_def el2_def TxCounter_def)
  then have t3': "tx_only el (el3\<lparr>el_enc_ctx := x\<rparr>)" "tx_only el (el3\<lparr>el_enc_ctx := x, el_cipher_keyed := True\<rparr>)" for x
    unfolding tx_only_def by (cases el, cases el3, simp)+
  show "tx_only el el'" using cases t3' TxCounter_tx_only(1) [of el s] by auto
  assume ok: "layer_ok el"
  show "layer_ok el'"
  proof (cases "el' = el \<or> el' = TxCounter s el")
    case False
    then have n: "next_counter s el \<noteq> kMaxCounter" using cases by blast
    have "layer_ok el2"
      using layer_ok_sealed [OF ok n] ok TxCounter_tx_only(2) [OF ok, of s] unfolding layer_ok_def
      by (simp add: sealed_layer_def el2_def)
    then have ok3: "layer_ok el3" by (simp add: el3_def layer_ok_def)
    have k: "\<not> \<not> el_cipher_keyed el3 \<longrightarrow> el_enc_ctx el3 = Some (Some (el_tx_key el3))" using ok3 by (simp add: layer_ok_def)
    note c = EncryptData_ctx [OF prod.collapse [symmetric, of ed, unfolded ed_def] k, folded ed_def]
    have "layer_ok (el3\<lparr>el_enc_ctx := snd ed\<rparr>)" using ok3 c(1) k by (auto simp: layer_ok_def)
    moreover have "layer_ok (el3\<lparr>el_enc_ctx := snd ed, el_cipher_keyed := True\<rparr>)" if "fst ed \<noteq> None"
      using ok3 c(2) that by (simp add: layer_ok_def)
    ultimately show ?thesis using cases False by blast
  qed (use ok TxCounter_tx_only in auto)
qed

lemma HandleIn_layer:
  assumes "HandleIn ssl b el = (r, el')"
  shows "rx_only el el'" and "layer_ok el \<Longrightarrow> layer_ok el'" and "\<not> el_key_filled el \<Longrightarrow> el' = el"
proof -
  define el1 where "el1 = (if el_dec_ctx el = None
      then el\<lparr>el_dec_ctx := (if EVP_CIPHER_CTX_new ssl then Some None else None), el_dec_keyed := False\<rparr> else el)"
  define opens where "opens = (\<lambda>x. x = (None, el_dec_ctx el1)
      \<or> (\<exists>n c t. x = DecryptData ssl (el_dec_ctx el1) (\<not> el_dec_keyed el1) (el_rx_key el1) n [kModeAesGcm] c t))"
  have cases: "el' = el \<or> el_key_filled el \<and> (\<exists>x wins. opens x \<and> (el' = el1\<lparr>el_dec_ctx := snd x\<rparr>
      \<or> fst x \<noteq> None \<and> el' = el1\<lparr>el_dec_ctx := snd x, el_dec_keyed := True, el_rx_replay := wins\<rparr>))"
  proof (cases "el' = el")
    case False
    obtain mode b1 where 1: "(ReadInt b :: u8 \<times> Buffer) = (mode, b1)" by fastforce
    obtain hdr b2 where 2: "Read 1 kHeaderLen b1 = (hdr, b2)" by fastforce
    have "snd (HandleDecrypt ssl b el) = el"
      if "\<not> (mode = kModeAesGcm \<and> el_key_filled el \<and> \<not> readable_bytes b1 < kHeaderLen + kTagLen \<and> hdr \<noteq> None)"
      using that by (cases hdr) (auto simp: HandleDecrypt_def 1 2 [unfolded One_nat_def])
    then obtain header where g: "mode = kModeAesGcm" "el_key_filled el" "\<not> readable_bytes b1 < kHeaderLen + kTagLen" "hdr = Some header"
      using assms False by (auto simp: HandleIn_def)
    define x where "x = (let remaining = readable_bytes b2; cipher_len = (word_of_nat (remaining - kTagLen) :: u32)
      in if unat cipher_len > int_max then (None, el_dec_ctx el1)
         else DecryptData ssl (el_dec_ctx el1) (\<not> el_dec_keyed el1) (el_rx_key el1)
           (BuildNonce (el_rx_salt el) (header ! 0) (ReadCounter (drop 1 header))) [kModeAesGcm]
           (take (unat cipher_len) (read_cursor_data b2)) (take kTagLen (drop (unat cipher_len) (read_cursor_data b2))))"
    have "opens x" unfolding opens_def x_def Let_def by auto
    moreover have hd: "HandleDecrypt ssl b el = (case fst x of None \<Rightarrow> (None, el1\<lparr>el_dec_ctx := snd x\<rparr>)
      | Some pt \<Rightarrow>
          let el3 = RxWindow (header ! 0) (el1\<lparr>el_dec_ctx := snd x, el_dec_keyed := True\<rparr>);
              (ok, w) = Accept (ReadCounter (drop 1 header)) (el_rx_replay el3 ! unat (header ! 0));
              el4 = el3\<lparr>el_rx_replay := (el_rx_replay el3)[unat (header ! 0) := w]\<rparr>;
              out = snd (ReserveExact default_new (unat (word_of_nat (readable_bytes b2 - kTagLen) :: u32)) (Buffer_new LittleEndian))
          in if \<not> ok then (None, el4) else (Some (CommitWrite (length pt) (poke (buf_write_cursor out) pt out)), el4))"
      using g(2,3) by (simp add: HandleDecrypt_def 1 2 [unfolded One_nat_def] g(1,4) x_def Let_def el1_def [symmetric] case_prod_beta split: option.split)
    have "\<exists>wins. el' = el1\<lparr>el_dec_ctx := snd x\<rparr>
        \<or> fst x \<noteq> None \<and> el' = el1\<lparr>el_dec_ctx := snd x, el_dec_keyed := True, el_rx_replay := wins\<rparr>"
    proof (cases "fst x")
      case None
      then show ?thesis using assms hd by (simp add: HandleIn_def)
    next
      case (Some pt)
      let ?el3 = "RxWindow (header ! 0) (el1\<lparr>el_dec_ctx := snd x, el_dec_keyed := True\<rparr>)"
      have "\<exists>w. el' = ?el3\<lparr>el_rx_replay := w\<rparr>"
        using assms hd Some by (auto simp: HandleIn_def Let_def case_prod_beta split: if_splits)
      then show ?thesis using Some by (auto simp: RxWindow_def split: if_splits)
    qed
    ultimately show ?thesis using g(2) by blast
  qed simp
  have t1: "rx_only el el1" by (auto simp: rx_only_def el1_def)
  then have "rx_only el (el1\<lparr>el_dec_ctx := x\<rparr>)" "rx_only el (el1\<lparr>el_dec_ctx := x, el_dec_keyed := True, el_rx_replay := w\<rparr>)" for x w
    unfolding rx_only_def by (cases el, cases el1, simp)+
  then show "rx_only el el'" using cases by (elim disjE conjE exE) simp_all
  show "\<not> el_key_filled el \<Longrightarrow> el' = el" using cases by blast
  assume "layer_ok el"
  then have ok1: "layer_ok el1" by (simp add: el1_def layer_ok_def)
  then have k: "\<not> \<not> el_dec_keyed el1 \<longrightarrow> el_dec_ctx el1 = Some (Some (el_rx_key el1))" by (simp add: layer_ok_def)
  have c: "snd x = el_dec_ctx el1 \<or> snd x = Some (Some (el_rx_key el1))"
    "fst x \<noteq> None \<longrightarrow> snd x = Some (Some (el_rx_key el1))" if "opens x" for x
    using that DecryptData_ctx [OF prod.collapse [symmetric] k, where a = "[kModeAesGcm]" and ssl = ssl]
    by (auto simp: opens_def)
  have "layer_ok (el1\<lparr>el_dec_ctx := snd x\<rparr>)" if "opens x" for x using ok1 c(1) [OF that] k by (auto simp: layer_ok_def)
  moreover have "layer_ok (el1\<lparr>el_dec_ctx := snd x, el_dec_keyed := True, el_rx_replay := w\<rparr>)"
    if "opens x" "fst x \<noteq> None" for x w using ok1 c(2) [OF that(1)] that(2) by (auto simp: layer_ok_def)
  ultimately show "layer_ok el'" using cases \<open>layer_ok el\<close> by (elim disjE conjE exE) simp_all
qed

lemma Encode_layer:
  assumes "Encode ssl z pid pl p s el = (r, el')"
  shows "tx_only el el'" and "layer_ok el \<Longrightarrow> layer_ok el'" and "\<not> el_enable_encryption el \<Longrightarrow> el' = el"
proof -
  have c: "el' = el \<or> (\<exists>b r. HandleOut ssl b s el = (r, el'))"
    using assms by (auto simp: Encode_def Let_def split: option.splits)
  then show "tx_only el el'" "layer_ok el \<Longrightarrow> layer_ok el'" using HandleOut_layer by fastforce+
  show "\<not> el_enable_encryption el \<Longrightarrow> el' = el"
    using c by (auto simp: HandleOut_def Let_def split: if_splits prod.splits bool.splits)
qed

lemma Decode_layer:
  assumes "Decode ssl z b el = (r, el')"
  shows "rx_only el el'" and "layer_ok el \<Longrightarrow> layer_ok el'" and "\<not> el_key_filled el \<Longrightarrow> el' = el"
proof -
  obtain r' where "HandleIn ssl b el = (r', el')" using assms by (auto simp: Decode_def split: prod.splits option.splits)
  from HandleIn_layer [OF this] show "rx_only el el'" "layer_ok el \<Longrightarrow> layer_ok el'" "\<not> el_key_filled el \<Longrightarrow> el' = el" by blast+
qed

lemma matched_tx_only:
  assumes "matched B A" and "tx_only A A'" and "layer_ok A \<Longrightarrow> layer_ok A'"
  shows "matched B A'"
proof -
  note t = tx_onlyD [OF assms(2)]
  have "in_sync B A' = in_sync B A" unfolding in_sync_def windows_of_def replay_window_def t ..
  then show ?thesis using assms(1,3) unfolding matched_def t by blast
qed

lemma matched_rx_only:
  assumes "matched A B" and "rx_only A A'" and "layer_ok A \<Longrightarrow> layer_ok A'"
  shows "matched A' B"
proof -
  note r = rx_onlyD [OF assms(2)]
  have "in_sync A' B = in_sync A B" unfolding in_sync_def next_counter_def r ..
  then show ?thesis using assms(1,3) unfolding matched_def r by blast
qed

section \<open>A packet from one session to another\<close>

text \<open>The message carries a packet: the receiver decodes it and its codec hands exactly that packet to the handler.\<close>

definition arrives ::
  "('pk, 'a, 't) session_env \<Rightarrow> ('pk, 'a) Packet Codec \<Rightarrow> Buffer \<Rightarrow> 'pk EncryptionLayer \<Rightarrow> ('pk, 'a) Packet
     \<Rightarrow> 'pk EncryptionLayer \<Rightarrow> bool" where
  "arrives env codec w B q B' \<longleftrightarrow> (\<exists>b. Decode (env_ssl env) (env_build env) w B = (Some b, B')
     \<and> (\<forall>H alive (s :: ('pk, 'a, 't) PeerSession). alive s \<longrightarrow>
          Codec_Deserialize codec H alive b s = Some (Decoded DecodeStats_init (H q s))))"

lemma message_arrives:
  assumes "gcm_law (env_ssl env)" and "build_ok (env_build env)" and "matched A B" and "next_counter s A \<noteq> kMaxCounter"
    and "mp_codec pl = Some codec" and "mp_out_compression pl = CompressionNone \<or> mp_out_compression pl = Zstandard"
    and "carries codec (packet_id (env_app_id env) p) p q' payload"
    and "carries rcodec (packet_id (env_app_id env) p) p q payload" and "\<exists>g. reads_as rcodec g"
  obtains w A' B' where "Encode (env_ssl env) (env_build env) (packet_id (env_app_id env)) pl p s A = (Some w, A')"
    and "arrives env rcodec w B q B'" and "matched A' B'"
proof -
  let ?pid = "packet_id (env_app_id env)"
  obtain ser where ser: "codec (?pid p) = Some ser" "serializes ser p payload" "length payload < 2 ^ 29"
    using assms(7) by (auto simp: carries_def)
  obtain w A' B' b where w: "Encode (env_ssl env) (env_build env) ?pid pl p s A = (Some w, A')"
      "stream_ok w" "Decode (env_ssl env) (env_build env) w B = (Some b, B')" "message_buffer b"
      "contents b = frame (?pid p) payload" "matched A' B'"
    by (rule pipeline_roundtrip [where packet_id = ?pid and p = p and pl = pl and codec = codec, OF assms(1-6) ser])
  have "arrives env rcodec w B q B'"
    unfolding arrives_def
    by (intro exI conjI allI impI, rule w(3)) (rule decode_single [OF assms(9,8) w(4,5)])
  then show thesis by (rule that [OF w(1) _ w(6)])
qed

lemma receive_arrived:
  assumes "ps_handler r = Some h" and "mp_codec (ps_pipeline r) = Some codec" and "ps_transport r = Some t"
    and "tl_Receive (env_transport env) t = (Some w, t1)" and "arrives env codec w (ps_encryption r) q B'"
  shows "receive_messages (Suc n) env worked r
    = receive_messages n env True (Handle env h q (r\<lparr>ps_transport := Some t1, ps_encryption := B'\<rparr>))"
proof -
  obtain b where b: "Decode (env_ssl env) (env_build env) w (ps_encryption r) = (Some b, B')"
    "\<And>H alive s. alive s \<Longrightarrow> Codec_Deserialize codec H alive b (s :: ('a, 'b, 'c) PeerSession) = Some (Decoded DecodeStats_init (H q s))"
    using assms(5) by (auto simp: arrives_def)
  have "codec_alive h (r\<lparr>ps_transport := Some t1, ps_encryption := B'\<rparr>)" using assms(2) by (simp add: codec_alive_def)
  from b(2) [where alive = "codec_alive h" and H = "Handle env h", OF this] show ?thesis
    using assms(1-4) b(1) by (simp add: DecodeStats_init_def)
qed

section \<open>Draining the queue\<close>

definition queued :: "('pk, 'a, 't) PeerSession \<Rightarrow> ('pk, 'a) OutItem list" where
  "queued s = mpsc_contents (oq_queue (ps_outbound s))"

definition queue_ok :: "nat \<Rightarrow> ('pk, 'a, 't) PeerSession \<Rightarrow> bool" where
  "queue_ok k s \<longleftrightarrow> mpsc_ok (oq_queue (ps_outbound s)) k \<and> \<not> oq_encoding (ps_outbound s)"

lemma DrainOutbound_empty:
  assumes "queue_ok k s" and "queued s = []"
  shows "DrainOutbound env s = (False, s)"
proof -
  have "Pop (oq_queue (ps_outbound s)) = (None, oq_queue (ps_outbound s))"
    using assms mpsc.pop_nil by (auto simp: queue_ok_def queued_def)
  then show ?thesis using assms(1) by (simp add: DrainOutbound_def queue_ok_def)
qed

end
