(* ===== verification/Session_Handshake.thy ===== *)
theory Session_Handshake
  imports Session_Messages
begin

text \<open>
  The key exchange between two sessions over a transport that delivers in order: the
  in-memory transport and the pump of \<open>tests/session_pair.h\<close>, with the two real sessions on
  its ends. Four rounds make both ends ready, with the same parameters and with keys that
  match in both directions.
\<close>

section \<open>Two sessions and the wire between them\<close>

record FakeTransport =
  ft_sent :: "(Buffer \<times> u8) list"
  ft_inbox :: "Buffer list"
  ft_closed :: bool

definition FakeTransport_new :: FakeTransport where
  "FakeTransport_new = \<lparr>ft_sent = [], ft_inbox = [], ft_closed = False\<rparr>"

definition fake_transport :: "FakeTransport TransportLayer" where
  "fake_transport = \<lparr>
     tl_Receive = (\<lambda>t. case ft_inbox t of [] \<Rightarrow> (None, t) | b # bs \<Rightarrow> (Some b, t\<lparr>ft_inbox := bs\<rparr>)),
     tl_Send = (\<lambda>b options t. (True, t\<lparr>ft_sent := ft_sent t @ [(b, GetOr_channel options)]\<rparr>)),
     tl_OrderingDomain = GetOr_channel,
     tl_Close = (\<lambda>_ t. (Success, t\<lparr>ft_closed := True\<rparr>)),
     tl_IsClosed = ft_closed,
     tl_Update = (\<lambda>t. t),
     tl_Flush = (\<lambda>t. t)\<rparr>"

type_synonym ('pk, 'a) fake_session = "('pk, 'a, FakeTransport) PeerSession"

definition set_wire :: "(FakeTransport \<Rightarrow> FakeTransport) \<Rightarrow> ('pk, 'a) fake_session \<Rightarrow> ('pk, 'a) fake_session" where
  "set_wire f s = s\<lparr>ps_transport := map_option f (ps_transport s)\<rparr>"

definition sent_buffers :: "('pk, 'a) fake_session \<Rightarrow> Buffer list" where
  "sent_buffers s = (case ps_transport s of None \<Rightarrow> [] | Some t \<Rightarrow> map fst (ft_sent t))"

definition processed_session :: "'s processed \<Rightarrow> 's option" where
  "processed_session r = (case r of Processed _ s \<Rightarrow> Some s | _ \<Rightarrow> None)"

text \<open>One round: every message sent so far crosses over, then both ends process. No result if an end crashes.\<close>

definition Pump ::
  "('pk, 'a, FakeTransport) session_env \<Rightarrow> ('pk, 'a) fake_session \<times> ('pk, 'a) fake_session
     \<Rightarrow> (('pk, 'a) fake_session \<times> ('pk, 'a) fake_session) option" where
  "Pump env cs =
     (let (client, server) = cs;
          server1 = set_wire (\<lambda>t. t\<lparr>ft_inbox := ft_inbox t @ sent_buffers client\<rparr>) server;
          client1 = set_wire (\<lambda>t. t\<lparr>ft_sent := []\<rparr>) client;
          client2 = set_wire (\<lambda>t. t\<lparr>ft_inbox := ft_inbox t @ sent_buffers server1\<rparr>) client1;
          server2 = set_wire (\<lambda>t. t\<lparr>ft_sent := []\<rparr>) server1
      in case processed_session (Process env server2) of
           None \<Rightarrow> None
         | Some server3 \<Rightarrow>
             (case processed_session (Process env client2) of
                None \<Rightarrow> None
              | Some client3 \<Rightarrow> Some (client3, server3)))"

primrec Pump_rounds ::
  "nat \<Rightarrow> ('pk, 'a, FakeTransport) session_env \<Rightarrow> ('pk, 'a) fake_session \<times> ('pk, 'a) fake_session
     \<Rightarrow> (('pk, 'a) fake_session \<times> ('pk, 'a) fake_session) option" where
  "Pump_rounds 0 env cs = Some cs"
| "Pump_rounds (Suc n) env cs = (case Pump env cs of None \<Rightarrow> None | Some cs' \<Rightarrow> Pump_rounds n env cs')"

section \<open>What the exchange relies on\<close>

text \<open>
  Key agreement as OpenSSL documents it: the DER encoding of a key's public half can be read
  back, gives a key with the same encoding, and each private key with the other's public half
  derives the same, non-empty secret. SHA-256 gives 32 bytes.
\<close>

definition key_agreement :: "('pk, 'm) openssl_scheme \<Rightarrow> 'pk \<Rightarrow> 'pk \<Rightarrow> bool" where
  "key_agreement ssl ki ka \<longleftrightarrow> EVP_PKEY_up_ref ssl ki \<and> EVP_PKEY_up_ref ssl ka
     \<and> (\<exists>di pi da pa x. i2d_PUBKEY ssl ki = Some di \<and> d2i_PUBKEY ssl di = Some pi \<and> i2d_PUBKEY ssl pi = Some di
          \<and> i2d_PUBKEY ssl ka = Some da \<and> d2i_PUBKEY ssl da = Some pa \<and> i2d_PUBKEY ssl pa = Some da
          \<and> di \<noteq> [] \<and> da \<noteq> [] \<and> length di < 2 ^ 28 \<and> length da < 2 ^ 28
          \<and> EVP_PKEY_derive ssl ki pa = Some x \<and> EVP_PKEY_derive ssl ka pi = Some x \<and> x \<noteq> [] \<and> length x \<le> int_max)"

definition digest_law :: "('pk, 'm) openssl_scheme \<Rightarrow> bool" where
  "digest_law ssl \<longleftrightarrow> (\<forall>m. \<exists>d. EVP_Digest ssl m = Some d \<and> length d = 32)"

section \<open>The derived keys\<close>

text \<open>From one secret and the two encodings both ends derive the same material, with the directions exchanged.\<close>

definition derives :: "('pk, 'm) openssl_scheme \<Rightarrow> bytes \<Rightarrow> bytes \<Rightarrow> bytes \<Rightarrow> bytes \<Rightarrow> bytes \<Rightarrow> bytes \<Rightarrow> bool" where
  "derives ssl x di da T R E \<longleftrightarrow> (\<forall>el is_init. el_shared_secret el = Some x \<longrightarrow>
      SerializePublicKey ssl (if is_init then el_pub_key el else el_peer_pkey el) = Some di \<longrightarrow>
      SerializePublicKey ssl (if is_init then el_peer_pkey el else el_pub_key el) = Some da \<longrightarrow>
      DeriveDirectionalKeys ssl is_init el = (True,
        el\<lparr>el_tx_key := take 32 (if is_init then T else R), el_tx_salt := take 4 (drop 32 (if is_init then T else R)),
           el_rx_key := take 32 (if is_init then R else T), el_rx_salt := take 4 (drop 32 (if is_init then R else T)),
           el_exporter_secret := E\<rparr>))"

lemma derived_keys:
  assumes "hkdf_law ssl" and "digest_law ssl" and "length x \<le> int_max"
  obtains T R E where "length T = 36" and "length R = 36" and "derives ssl x di da T R E"
proof -
  have im: "36 \<le> int_max" "32 \<le> int_max" by (simp_all add: int_max_def)
  have hk: "\<exists>out. Hkdf ssl x info n = Some out \<and> length out = n" if "length info \<le> 255" "n = 36 \<or> n = 32" for info n
    using assms(1) [unfolded hkdf_law_def, rule_format, of n "ascii ''znet-session-v1''" x info] assms(3) that im
    by (auto simp: Hkdf_def int_max_def)
  obtain T R where T: "DeriveKeyFromSharedSecret ssl x ''znet c2s v1'' (32 + 4) = Some T" "length T = 36"
    and R: "DeriveKeyFromSharedSecret ssl x ''znet s2c v1'' (32 + 4) = Some R" "length R = 36"
    using hk [of "ascii ''znet c2s v1''" 36] hk [of "ascii ''znet s2c v1''" 36]
    by (auto simp: DeriveKeyFromSharedSecret_def ascii_def)
  define tr where "tr = append_key (append_key [] di) da"
  obtain d where d: "EVP_Digest ssl tr = Some d" "length d = 32" using assms(2) by (auto simp: digest_law_def)
  obtain E where E: "Hkdf ssl x (ascii ''znet exporter v1'' @ d) 32 = Some E"
    using hk [of "ascii ''znet exporter v1'' @ d" 32] d(2) by (auto simp: ascii_def)
  have "derives ssl x di da T R E"
    unfolding derives_def
  proof (intro allI impI)
    fix el :: "'a EncryptionLayer" and is_init
    assume "el_shared_secret el = Some x"
      and "SerializePublicKey ssl (if is_init then el_pub_key el else el_peer_pkey el) = Some di"
      and "SerializePublicKey ssl (if is_init then el_peer_pkey el else el_pub_key el) = Some da"
    then show "DeriveDirectionalKeys ssl is_init el = (True,
        el\<lparr>el_tx_key := take 32 (if is_init then T else R), el_tx_salt := take 4 (drop 32 (if is_init then T else R)),
           el_rx_key := take 32 (if is_init then R else T), el_rx_salt := take 4 (drop 32 (if is_init then R else T)),
           el_exporter_secret := E\<rparr>)"
      using T(1) R(1) E d
      by (cases is_init) (simp_all add: DeriveDirectionalKeys_def DeriveExporterSecret_def tr_def [symmetric])
  qed
  then show thesis using that T(2) R(2) by blast
qed

text \<open>The layer of an end once it knows the outcome: the mode and, when the session is encrypted, its keys.\<close>

definition settled :: "bool \<Rightarrow> bool \<Rightarrow> 'pk \<Rightarrow> bytes \<Rightarrow> bytes \<Rightarrow> bytes \<Rightarrow> bytes \<Rightarrow> 'pk EncryptionLayer \<Rightarrow> 'pk EncryptionLayer" where
  "settled is_init enc peer x T R E el =
     (if enc
      then el\<lparr>el_peer_pkey := Some peer, el_shared_secret := Some x,
              el_tx_key := take 32 (if is_init then T else R), el_tx_salt := take 4 (drop 32 (if is_init then T else R)),
              el_rx_key := take 32 (if is_init then R else T), el_rx_salt := take 4 (drop 32 (if is_init then R else T)),
              el_exporter_secret := E, el_key_filled := True\<rparr>
      else el)\<lparr>el_negotiated := True\<rparr>"

record 'pk agreement =
  ag_ki :: 'pk
  ag_ka :: 'pk
  ag_pi :: 'pk
  ag_pa :: 'pk
  ag_di :: bytes
  ag_da :: bytes
  ag_secret :: bytes
  ag_T :: bytes
  ag_R :: bytes
  ag_E :: bytes

definition settled_by :: "'pk agreement \<Rightarrow> bool \<Rightarrow> bool \<Rightarrow> 'pk EncryptionLayer \<Rightarrow> 'pk EncryptionLayer" where
  "settled_by ag is_init enc = settled is_init enc (if is_init then ag_pa ag else ag_pi ag) (ag_secret ag) (ag_T ag) (ag_R ag) (ag_E ag)"

definition agreed :: "('pk, 'm) openssl_scheme \<Rightarrow> 'pk agreement \<Rightarrow> bool" where
  "agreed ssl ag \<longleftrightarrow> EVP_PKEY_up_ref ssl (ag_ki ag) \<and> EVP_PKEY_up_ref ssl (ag_ka ag)
     \<and> SerializePublicKey ssl (Some (ag_ki ag)) = Some (ag_di ag) \<and> d2i_PUBKEY ssl (ag_di ag) = Some (ag_pi ag)
     \<and> SerializePublicKey ssl (Some (ag_ka ag)) = Some (ag_da ag) \<and> d2i_PUBKEY ssl (ag_da ag) = Some (ag_pa ag)
     \<and> ag_di ag \<noteq> [] \<and> ag_da ag \<noteq> [] \<and> length (ag_di ag) < 2 ^ 28 \<and> length (ag_da ag) < 2 ^ 28
     \<and> ComputeSharedSecret ssl (Some (ag_ki ag)) (Some (ag_pa ag)) = Some (ag_secret ag)
     \<and> ComputeSharedSecret ssl (Some (ag_ka ag)) (Some (ag_pi ag)) = Some (ag_secret ag) \<and> ag_secret ag \<noteq> []
     \<and> length (ag_T ag) = 36 \<and> length (ag_R ag) = 36
     \<and> (\<forall>el is_init. el_pub_key el = Some (if is_init then ag_ki ag else ag_ka ag) \<longrightarrow>
          (\<exists>el1. DeriveDirectionalKeys ssl is_init
             (el\<lparr>el_peer_pkey := Some (if is_init then ag_pa ag else ag_pi ag), el_shared_secret := Some (ag_secret ag)\<rparr>) = (True, el1)
           \<and> el1\<lparr>el_key_filled := True, el_negotiated := True\<rparr> = settled_by ag is_init True el))"

lemma agreement:
  assumes "hkdf_law ssl" and "digest_law ssl" and "key_agreement ssl ki ka"
  obtains ag where "agreed ssl ag" and "ag_ki ag = ki" and "ag_ka ag = ka"
proof -
  obtain di pi da pa x where k: "EVP_PKEY_up_ref ssl ki" "EVP_PKEY_up_ref ssl ka"
    "i2d_PUBKEY ssl ki = Some di" "d2i_PUBKEY ssl di = Some pi" "i2d_PUBKEY ssl pi = Some di"
    "i2d_PUBKEY ssl ka = Some da" "d2i_PUBKEY ssl da = Some pa" "i2d_PUBKEY ssl pa = Some da"
    "di \<noteq> []" "da \<noteq> []" "length di < 2 ^ 28" "length da < 2 ^ 28"
    "EVP_PKEY_derive ssl ki pa = Some x" "EVP_PKEY_derive ssl ka pi = Some x" "x \<noteq> []" "length x \<le> int_max"
    using assms(3) unfolding key_agreement_def by blast
  have ser: "SerializePublicKey ssl (Some ki) = Some di" "SerializePublicKey ssl (Some pi) = Some di"
    "SerializePublicKey ssl (Some ka) = Some da" "SerializePublicKey ssl (Some pa) = Some da"
    using k by (simp_all add: SerializePublicKey_def)
  obtain T R E where d: "length T = 36" "length R = 36" "derives ssl x di da T R E"
    by (rule derived_keys [OF assms(1,2) k(16)])
  let ?ag = "\<lparr>ag_ki = ki, ag_ka = ka, ag_pi = pi, ag_pa = pa, ag_di = di, ag_da = da, ag_secret = x, ag_T = T, ag_R = R, ag_E = E\<rparr>"
  have der: "\<exists>el1. DeriveDirectionalKeys ssl is_init
             (el\<lparr>el_peer_pkey := Some (if is_init then pa else pi), el_shared_secret := Some x\<rparr>) = (True, el1)
           \<and> el1\<lparr>el_key_filled := True, el_negotiated := True\<rparr> = settled_by ?ag is_init True el"
    if "el_pub_key el = Some (if is_init then ki else ka)" for el is_init
  proof -
    let ?el = "el\<lparr>el_peer_pkey := Some (if is_init then pa else pi), el_shared_secret := Some x\<rparr>"
    have "el_shared_secret ?el = Some x"
      "SerializePublicKey ssl (if is_init then el_pub_key ?el else el_peer_pkey ?el) = Some di"
      "SerializePublicKey ssl (if is_init then el_peer_pkey ?el else el_pub_key ?el) = Some da"
      using that ser by simp_all
    note dk = d(3) [unfolded derives_def, rule_format, OF this]
    show ?thesis
      by (rule exI, rule conjI, rule dk) (cases is_init; simp add: settled_by_def settled_def)
  qed
  have "agreed ssl ?ag"
    unfolding agreed_def agreement.simps
    by (intro conjI allI impI; (rule der)?) (use k(11,12) in \<open>simp_all add: k ser d(1,2) ComputeSharedSecret_def\<close>)
  then show thesis by (rule that) simp_all
qed

section \<open>A quiet session\<close>

text \<open>Nothing to receive and nothing queued: a tick changes nothing.\<close>

definition quiet :: "('pk, 'a) fake_session \<Rightarrow> bool" where
  "quiet s \<longleftrightarrow> (\<exists>t. ps_transport s = Some t \<and> \<not> ft_closed t \<and> ft_inbox t = []) \<and> (\<exists>k. queue_ok k s) \<and> queued s = []"

lemma fake_simps [simp]:
  "tl_Receive fake_transport t = (case ft_inbox t of [] \<Rightarrow> (None, t) | b # bs \<Rightarrow> (Some b, t\<lparr>ft_inbox := bs\<rparr>))"
  "tl_Send fake_transport b options t = (True, t\<lparr>ft_sent := ft_sent t @ [(b, GetOr_channel options)]\<rparr>)"
  "tl_OrderingDomain fake_transport = GetOr_channel"
  "tl_IsClosed fake_transport = ft_closed" "tl_Update fake_transport t = t" "tl_Flush fake_transport t = t"
  "tl_Update fake_transport = (\<lambda>t. t)" "tl_Flush fake_transport = (\<lambda>t. t)"
  by (simp_all add: fake_transport_def)

lemma receive_quiet:
  assumes "env_transport env = fake_transport" and "quiet s"
  shows "receive_messages n env worked s = Processed worked s"
  using assms by (cases n) (auto simp: quiet_def split: option.splits)

lemma Process_end:
  assumes "env_transport env = fake_transport" and "quiet s1" and "IsAlive env s"
    and "receive_messages kMaxReceivesPerProcess env False s = Processed worked s1"
  shows "Process env s = Processed worked s1"
proof -
  have same: "s\<lparr>ps_transport := map_option (tl_Update (env_transport env)) (ps_transport s)\<rparr> = s"
    by (simp add: assms(1) option.map_ident)
  obtain k where "queue_ok k s1" "queued s1 = []" using assms(2) by (auto simp: quiet_def)
  then have "DrainOutbound env s1 = (False, s1)" by (rule DrainOutbound_empty)
  moreover have "s1\<lparr>ps_transport := map_option (tl_Flush (env_transport env)) (ps_transport s1)\<rparr> = s1"
    by (simp add: assms(1) option.map_ident)
  ultimately show ?thesis using assms(3,4) same by (simp add: Process_def Let_def)
qed

lemma Process_quiet:
  assumes "env_transport env = fake_transport" and "quiet s"
  shows "processed_session (Process env s) = Some s"
proof -
  have "IsAlive env s" using assms by (auto simp: quiet_def IsAlive_def)
  from Process_end [OF assms this receive_quiet [OF assms]] show ?thesis by (simp add: processed_session_def)
qed

lemma Process_arrived:
  assumes "env_transport env = fake_transport" and "ps_handler r = Some h" and "mp_codec (ps_pipeline r) = Some codec"
    and "ps_transport r = Some t" and "ft_inbox t = [w]" and "\<not> ft_closed t"
    and "arrives env codec w (ps_encryption r) q B'"
    and "r1 = Handle env h q (r\<lparr>ps_transport := Some (t\<lparr>ft_inbox := []\<rparr>), ps_encryption := B'\<rparr>)" and "quiet r1"
  shows "processed_session (Process env r) = Some r1"
proof -
  have al: "IsAlive env r" using assms(1,4,6) by (simp add: IsAlive_def)
  have "tl_Receive (env_transport env) t = (Some w, t\<lparr>ft_inbox := []\<rparr>)" using assms(1,5) by simp
  moreover have "kMaxReceivesPerProcess = Suc 255" by (simp add: kMaxReceivesPerProcess_def)
  ultimately
  have "receive_messages kMaxReceivesPerProcess env False r = Processed True r1"
    using receive_arrived [OF assms(2-4) _ assms(7), of _ 255 False] receive_quiet [OF assms(1,9), of 255 True]
    unfolding assms(8) by simp
  from Process_end [OF assms(1,9) al this] show ?thesis by (simp add: processed_session_def)
qed

section \<open>A session during the exchange\<close>

definition in_handshake :: "('pk, 'a, FakeTransport) session_env \<Rightarrow> ('pk, 'a) fake_session \<Rightarrow> bool" where
  "in_handshake env s \<longleftrightarrow> ps_handler s = Some HandshakeHandler
     \<and> mp_codec (ps_pipeline s) = Some (handshake_codec (env_ssl env))
     \<and> mp_out_compression (ps_pipeline s) = CompressionNone \<and> (\<exists>k. queue_ok k s) \<and> queued s = []"

definition wire :: "Buffer list \<Rightarrow> FakeTransport" where
  "wire ws = \<lparr>ft_sent = map (\<lambda>w. (w, 0)) ws, ft_inbox = [], ft_closed = False\<rparr>"

definition at_wire :: "('pk, 'a) fake_session \<Rightarrow> FakeTransport \<Rightarrow> 'pk EncryptionLayer \<Rightarrow> ('pk, 'a) fake_session" where
  "at_wire s t el = s\<lparr>ps_transport := Some t, ps_encryption := el\<rparr>"

definition env_ok :: "('pk, 'a, FakeTransport) session_env \<Rightarrow> bool" where
  "env_ok env \<longleftrightarrow> gcm_law (env_ssl env) \<and> build_ok (env_build env) \<and> env_transport env = fake_transport"

lemma at_wire_simps [simp]:
  "ps_encryption (at_wire s t el) = el" "ps_transport (at_wire s t el) = Some t"
  "ps_is_initiator (at_wire s t el) = ps_is_initiator s" "ps_handler (at_wire s t el) = ps_handler s"
  "ps_pipeline (at_wire s t el) = ps_pipeline s" "ps_options (at_wire s t el) = ps_options s"
  "ps_negotiated_compression (at_wire s t el) = ps_negotiated_compression s"
  "ps_is_ready (at_wire s t el) = ps_is_ready s" "ps_outbound (at_wire s t el) = ps_outbound s"
  "(at_wire s t el)\<lparr>ps_encryption := el1\<rparr> = at_wire s t el1"
  "(at_wire s t el)\<lparr>ps_transport := Some t1\<rparr> = at_wire s t1 el"
  "at_wire (at_wire s t el) t1 el1 = at_wire s t1 el1"
  "upd_encryption f (at_wire s t el) = at_wire s t (f el)"
  "in_handshake env (at_wire s t el) = in_handshake env s"
  "queue_ok k (at_wire s t el) = queue_ok k s" "queued (at_wire s t el) = queued s"
  by (simp_all add: at_wire_def upd_encryption_def in_handshake_def queue_ok_def queued_def)

lemma wire_simps [simp]: "\<not> ft_closed (wire ws)" "ft_inbox (wire ws) = []" "map fst (ft_sent (wire ws)) = ws"
  by (simp_all add: wire_def comp_def)

lemma quiet_at_wire: "quiet (at_wire s (wire ws) el) \<longleftrightarrow> (\<exists>k. queue_ok k s) \<and> queued s = []"
  by (simp add: quiet_def)

lemma packet_id_simps [simp]:
  "packet_id app (Handshake h) = HandshakePacketId" "packet_id app (ConnectionReady m) = ConnectionReadyPacketId"
  by (simp_all add: packet_id_def)

lemma SendImmediate_carried:
  assumes "env_ok env" and "in_handshake env s" and "matched el B" and "next_counter 0 el \<noteq> kMaxCounter"
    and "carries (handshake_codec (env_ssl env)) (packet_id (env_app_id env) p) p q payload"
  obtains w el' B' where "SendImmediate env p SendOptions_default (at_wire s (wire []) el) = (True, at_wire s (wire [w]) el')"
    and "Encode (env_ssl env) (env_build env) (packet_id (env_app_id env)) (ps_pipeline s) p 0 el = (Some w, el')"
    and "arrives env (handshake_codec (env_ssl env)) w B q B'" and "matched el' B'"
proof -
  have h: "gcm_law (env_ssl env)" "build_ok (env_build env)" "env_transport env = fake_transport"
    "mp_codec (ps_pipeline s) = Some (handshake_codec (env_ssl env))"
    "mp_out_compression (ps_pipeline s) = CompressionNone \<or> mp_out_compression (ps_pipeline s) = Zstandard"
    using assms(1,2) by (simp_all add: env_ok_def in_handshake_def)
  obtain w el' B' where w: "Encode (env_ssl env) (env_build env) (packet_id (env_app_id env)) (ps_pipeline s) p 0 el = (Some w, el')"
      "arrives env (handshake_codec (env_ssl env)) w B q B'" "matched el' B'"
    by (rule message_arrives [OF h(1,2) assms(3,4) h(4,5) assms(5,5) handshake_reads])
  have "SendImmediate env p SendOptions_default (at_wire s (wire []) el) = (True, at_wire s (wire [w]) el')"
    using w(1) h(3) by (simp add: SendImmediate_def EncodeAndSend_def IsAlive_def) (simp add: wire_def at_wire_def)
  then show thesis by (rule that [OF _ w])
qed

definition offer :: "'pk agreement \<Rightarrow> 'pk EncryptionLayer \<Rightarrow> ('pk, 'a) fake_session \<Rightarrow> 'pk HandshakePacket" where
  "offer ag el s = \<lparr>
     hp_pub_key = (if ps_is_initiator s \<or> el_want_encryption el then Some (if ps_is_initiator s then ag_pi ag else ag_pa ag) else None),
     hp_encryption = el_want_encryption el, hp_compression = GetCompressionTypeRaw (ps_negotiated_compression s)\<rparr>"

lemma fresh_counter: "el_tx_counters el = [] \<Longrightarrow> next_counter s el \<noteq> kMaxCounter"
  by (simp add: next_counter_def kMaxCounter_def kCounterLen_def)

lemma matched_plain: "\<not> el_enable_encryption A \<Longrightarrow> \<not> el_key_filled B \<Longrightarrow> matched A B"
  by (simp add: matched_def)

lemma SendHandshake_offers:
  assumes "env_ok env" and "in_handshake env s" and "agreed (env_ssl env) ag" and "\<not> el_enable_encryption el" and "el_tx_counters el = []"
    and "el_pub_key el = Some (if ps_is_initiator s then ag_ki ag else ag_ka ag)"
  obtains w where "SendHandshake env (at_wire s (wire []) el) = at_wire s (wire [w]) (el\<lparr>el_sent_handshake := True\<rparr>)"
    and "\<And>B. \<not> el_key_filled B \<Longrightarrow> arrives env (handshake_codec (env_ssl env)) w B (Handshake (offer ag el s)) B"
proof -
  let ?ssl = "env_ssl env"
  define h where "h = \<lparr>hp_pub_key = (if ps_is_initiator s \<or> el_want_encryption el then el_pub_key el else None),
      hp_encryption = el_want_encryption el, hp_compression = GetCompressionTypeRaw (ps_negotiated_compression s)\<rparr>"
  have clone: "CloneKey ?ssl (el_pub_key el) = el_pub_key el" using assms(3,6) by (simp add: CloneKey_def agreed_def)
  have kb: "key_bytes ?ssl h = (if ps_is_initiator s \<or> el_want_encryption el then (if ps_is_initiator s then ag_di ag else ag_da ag) else [])"
    using assms(3,6) by (simp add: key_bytes_def h_def agreed_def SerializePublicKey_def [of ?ssl None])
  have c: "carries (handshake_codec ?ssl) (packet_id (env_app_id env) (Handshake h)) (Handshake h) (Handshake (offer ag el s)) (enc_handshake ?ssl h)"
    unfolding packet_id_simps
  proof (rule carries_handshake)
    show "length (key_bytes ?ssl h) < 2 ^ 28" using assms(3) unfolding kb agreed_def by simp
    show "hp_pub_key (offer ag el s) = (if key_bytes ?ssl h = [] then None else d2i_PUBKEY ?ssl (key_bytes ?ssl h))"
      using assms(3) unfolding kb agreed_def by (simp add: offer_def)
  qed (simp_all add: offer_def h_def)
  note sc = SendImmediate_carried [OF assms(1,2) matched_plain [OF assms(4)] fresh_counter [OF assms(5)] c]
  obtain w el' where w: "SendImmediate env (Handshake h) SendOptions_default (at_wire s (wire []) el) = (True, at_wire s (wire [w]) el')"
      "Encode ?ssl (env_build env) (packet_id (env_app_id env)) (ps_pipeline s) (Handshake h) 0 el = (Some w, el')"
    by (rule sc [of "EncryptionLayer_fields None"]) (simp_all add: EncryptionLayer_fields_def)
  have el': "el' = el" using Encode_layer(3) [OF w(2) assms(4)] .
  have "arrives env (handshake_codec ?ssl) w B (Handshake (offer ag el s)) B" if B: "\<not> el_key_filled B" for B
  proof -
    obtain w' B' where a: "Encode ?ssl (env_build env) (packet_id (env_app_id env)) (ps_pipeline s) (Handshake h) 0 el = (Some w', el)"
        "arrives env (handshake_codec ?ssl) w' B (Handshake (offer ag el s)) B'"
      by (rule sc [OF B]) (use w(2) el' in simp)
    then have "B' = B" using Decode_layer(3) B unfolding arrives_def by blast
    then show ?thesis using a w(2) by simp
  qed
  moreover have "SendHandshake env (at_wire s (wire []) el) = at_wire s (wire [w]) (el\<lparr>el_sent_handshake := True\<rparr>)"
  proof -
    have "\<lparr>hp_pub_key = (if (ps_is_initiator s \<or> el_want_encryption el) \<and> el_pub_key el \<noteq> None then CloneKey ?ssl (el_pub_key el) else None),
        hp_encryption = el_want_encryption el, hp_compression = GetCompressionTypeRaw (ps_negotiated_compression s)\<rparr> = h"
      unfolding clone h_def using assms(6) by simp
    then show ?thesis by (simp only: SendHandshake_def Let_def at_wire_simps w(1) snd_conv el')
  qed
  ultimately show thesis using that by blast
qed

lemma SendReady_sent:
  fixes env :: "('pk, 'a, FakeTransport) session_env"
  assumes "env_ok env" and "in_handshake env s" and "matched (el\<lparr>el_enable_encryption := el_key_filled el\<rparr>) B" and "el_tx_counters el = []"
  obtains w el' B' where "SendReady env (at_wire s (wire []) el) = at_wire s (wire [w]) (el'\<lparr>el_sent_ready := True\<rparr>)"
    and "arrives env (handshake_codec (env_ssl env)) w B (ConnectionReady kReadyMagic) B'" and "matched el' B'"
    and "tx_only (el\<lparr>el_enable_encryption := el_key_filled el\<rparr>) el'" and "layer_ok el \<Longrightarrow> layer_ok el'"
    and "rx_only B B'" and "layer_ok B \<Longrightarrow> layer_ok B'"
proof -
  let ?el = "el\<lparr>el_enable_encryption := el_key_filled el\<rparr>" and ?p = "ConnectionReady kReadyMagic :: ('pk, 'a) Packet"
  obtain payload where c: "carries (handshake_codec (env_ssl env)) (packet_id (env_app_id env) ?p) ?p ?p payload"
    using carries_ready unfolding packet_id_simps by blast
  have n: "next_counter 0 ?el \<noteq> kMaxCounter" by (rule fresh_counter) (simp add: assms(4))
  obtain w el' B' where w: "SendImmediate env ?p SendOptions_default (at_wire s (wire []) ?el) = (True, at_wire s (wire [w]) el')"
      "Encode (env_ssl env) (env_build env) (packet_id (env_app_id env)) (ps_pipeline s) ?p 0 ?el = (Some w, el')"
      "arrives env (handshake_codec (env_ssl env)) w B (ConnectionReady kReadyMagic) B'" "matched el' B'"
    by (rule SendImmediate_carried [OF assms(1-3) n c])
  obtain b where b: "Decode (env_ssl env) (env_build env) w B = (Some b, B')" using w(3) by (auto simp: arrives_def)
  have "SendReady env (at_wire s (wire []) el) = at_wire s (wire [w]) (el'\<lparr>el_sent_ready := True\<rparr>)"
    using w(1) by (simp add: SendReady_def)
  moreover have "layer_ok el \<Longrightarrow> layer_ok el'" using Encode_layer(2) [OF w(2)] by (simp add: layer_ok_def)
  ultimately show thesis using that w(3,4) Encode_layer(1) [OF w(2)] Decode_layer(1,2) [OF b] by blast
qed

section \<open>The steps of the exchange\<close>

lemma exchange_settles:
  assumes "agreed (env_ssl env) ag" and "el_pub_key el = Some (if ps_is_initiator s then ag_ki ag else ag_ka ag)"
    and "hp_pub_key packet = Some (if ps_is_initiator s then ag_pa ag else ag_pi ag)"
  shows "exchange_keys env packet (at_wire s t el) =
    (let s4 = at_wire s t (settled_by ag (ps_is_initiator s) True el)
     in if \<not> el_sent_handshake el then SendHandshake env s4 else if \<not> el_sent_ready el then SendReady env s4 else s4)"
proof -
  let ?peer = "if ps_is_initiator s then ag_pa ag else ag_pi ag" and ?own = "if ps_is_initiator s then ag_ki ag else ag_ka ag"
  have secret: "ComputeSharedSecret (env_ssl env) (Some ?own) (Some ?peer) = Some (ag_secret ag)" "ag_secret ag \<noteq> []"
    using assms(1) by (simp_all add: agreed_def)
  obtain el1 where el1: "DeriveDirectionalKeys (env_ssl env) (ps_is_initiator s)
      (el\<lparr>el_peer_pkey := Some ?peer, el_shared_secret := Some (ag_secret ag)\<rparr>) = (True, el1)"
      "el1\<lparr>el_key_filled := True, el_negotiated := True\<rparr> = settled_by ag (ps_is_initiator s) True el"
    using assms(1,2) unfolding agreed_def by blast
  have "el_sent_handshake (settled_by ag b True el) = el_sent_handshake el" "el_sent_ready (settled_by ag b True el) = el_sent_ready el" for b
    by (simp_all add: settled_by_def settled_def)
  moreover from this have "el_sent_handshake el1 = el_sent_handshake el" "el_sent_ready el1 = el_sent_ready el"
    using arg_cong [OF el1(2), of el_sent_handshake] arg_cong [OF el1(2), of el_sent_ready] by simp_all
  ultimately show ?thesis
    unfolding exchange_keys_def Let_def at_wire_simps assms(3)
    using secret el1 assms(2) by simp
qed

lemma server_answers:
  assumes "agreed (env_ssl env) ag" and "\<not> ps_is_initiator S" and "el_pub_key a = Some (ag_ka ag)" and "el_peer_pkey a = None"
    and "\<not> el_key_filled a" and "\<not> el_sent_handshake a" and "hp_pub_key q = Some (ag_pi ag)"
  shows "OnHandshakePacket env q (at_wire S t a) = SendHandshake env (at_wire S t (settled_by ag False (el_want_encryption a) a))"
proof (cases "el_want_encryption a")
  case True
  then show ?thesis using exchange_settles [OF assms(1), of a S q t] assms(2-7) by (simp add: OnHandshakePacket_def)
next
  case False
  have "settled_by ag False False a = a\<lparr>el_negotiated := True\<rparr>" by (simp add: settled_by_def settled_def)
  then show ?thesis using False assms(2-6) by (simp add: OnHandshakePacket_def)
qed

lemma client_follows:
  assumes "agreed (env_ssl env) ag" and "ps_is_initiator C" and "el_pub_key i = Some (ag_ki ag)" and "el_peer_pkey i = None"
    and "\<not> el_key_filled i" and "el_sent_handshake i" and "\<not> el_sent_ready i" and "hp_encryption q \<longrightarrow> hp_pub_key q = Some (ag_pa ag)"
  shows "OnHandshakePacket env q (at_wire C t i) =
    SendReady env (at_wire (C\<lparr>ps_negotiated_compression := compression_of_raw (hp_compression q)\<rparr>) t (settled_by ag True (hp_encryption q) i))"
proof -
  let ?C = "C\<lparr>ps_negotiated_compression := compression_of_raw (hp_compression q)\<rparr>"
  have C: "(at_wire C t i)\<lparr>ps_negotiated_compression := compression_of_raw (hp_compression q)\<rparr> = at_wire ?C t i"
    by (simp add: at_wire_def)
  show ?thesis
  proof (cases "hp_encryption q")
    case True
    then show ?thesis using exchange_settles [OF assms(1), of i ?C q t] assms(2-8) C by (simp add: OnHandshakePacket_def)
  next
    case False
    have "settled_by ag True False i = i\<lparr>el_negotiated := True\<rparr>" by (simp add: settled_by_def settled_def)
    then show ?thesis using False assms(2-7) C by (simp add: OnHandshakePacket_def)
  qed
qed

definition finished :: "('pk, 'a) fake_session \<Rightarrow> ('pk, 'a) fake_session" where
  "finished S = S\<lparr>ps_handler := None, ps_pipeline := (ps_pipeline S)\<lparr>mp_codec := None,
      mp_out_compression := (if ps_negotiated_compression S \<noteq> CompressionNone then ps_negotiated_compression S
                             else mp_out_compression (ps_pipeline S))\<rparr>, ps_is_ready := True\<rparr>"

lemma finished_simps [simp]:
  "ps_is_ready (finished S)" "ps_negotiated_compression (finished S) = ps_negotiated_compression S"
  "queue_ok k (finished S) = queue_ok k S" "queued (finished S) = queued S" "ps_outbound (finished S) = ps_outbound S"
  by (simp_all add: finished_def queue_ok_def queued_def)

lemma session_finishes:
  assumes "env_transport env = fake_transport"
  shows "Ready env (SetCodec None ((at_wire S (wire ws) el)\<lparr>ps_handler := None\<rparr>)) = at_wire (finished S) (wire ws) el"
  using assms by (simp add: Ready_def SetCodec_def SetOutCompression_def IsAlive_def at_wire_def finished_def wire_def Let_def)

lemma ready_accepted:
  assumes "env_transport env = fake_transport" and "el_negotiated el"
    and "(if el_sent_ready el then at_wire S (wire []) el else SendReady env (at_wire S (wire []) el)) = at_wire S (wire ws) el'"
  shows "Handle env HandshakeHandler (ConnectionReady kReadyMagic) (at_wire S (wire []) el) = at_wire (finished S) (wire ws) el'"
  using assms(2,3) session_finishes [OF assms(1), of S ws el'] by (simp add: Handle_def OnAcknowledgePacket_def split: if_splits)

subsection \<open>Rounds of the pump\<close>

lemma Pump_at:
  "Pump env (at_wire C (wire cw) i, at_wire S (wire sw) a) =
     (case processed_session (Process env (at_wire S ((wire [])\<lparr>ft_inbox := cw\<rparr>) a)) of None \<Rightarrow> None
      | Some S1 \<Rightarrow> (case processed_session (Process env (at_wire C ((wire [])\<lparr>ft_inbox := sw\<rparr>) i)) of
            None \<Rightarrow> None | Some C1 \<Rightarrow> Some (C1, S1)))"
proof -
  have w: "set_wire f (at_wire s t el) = at_wire s (f t) el" "sent_buffers (at_wire s t el) = map fst (ft_sent t)"
    for f t el and s :: "('a, 'b) fake_session"
    by (simp_all add: set_wire_def sent_buffers_def)
  have "(wire cw)\<lparr>ft_sent := [], ft_inbox := sw\<rparr> = (wire [])\<lparr>ft_inbox := sw\<rparr>"
    "(wire sw)\<lparr>ft_inbox := cw, ft_sent := []\<rparr> = (wire [])\<lparr>ft_inbox := cw\<rparr>" "ft_sent ((wire sw)\<lparr>ft_inbox := cw\<rparr>) = ft_sent (wire sw)"
    "ft_inbox ((wire cw)\<lparr>ft_sent := []\<rparr>) = []"
    by (simp_all add: wire_def)
  then show ?thesis by (simp add: Pump_def Let_def w cong: option.case_cong)
qed

lemma Process_carried:
  assumes "env_transport env = fake_transport" and "in_handshake env S"
    and "arrives env (handshake_codec (env_ssl env)) w a q a'"
    and "Handle env HandshakeHandler q (at_wire S (wire []) a') = r" and "quiet r"
  shows "processed_session (Process env (at_wire S ((wire [])\<lparr>ft_inbox := [w]\<rparr>) a)) = Some r"
  by (rule Process_arrived [OF assms(1) _ _ _ _ _ _ _ assms(5), where h = HandshakeHandler and t = "(wire [])\<lparr>ft_inbox := [w]\<rparr>"
        and codec = "handshake_codec (env_ssl env)" and w = w and q = q and B' = a'])
    (use assms(2-4) in \<open>simp_all add: in_handshake_def wire_def\<close>)

lemma wire_no_inbox: "ft_inbox_update (\<lambda>_. []) (wire ws) = wire ws"
  by (simp add: wire_def)

lemma Pump_to_server:
  assumes "env_transport env = fake_transport" and "quiet (at_wire C (wire []) i)" and "in_handshake env S"
    and "arrives env (handshake_codec (env_ssl env)) w a q a'"
    and "Handle env HandshakeHandler q (at_wire S (wire []) a') = r" and "quiet r"
  shows "Pump env (at_wire C (wire [w]) i, at_wire S (wire []) a) = Some (at_wire C (wire []) i, r)"
  unfolding Pump_at using Process_carried [OF assms(1,3-6)] Process_quiet [OF assms(1,2)]
  by (simp add: wire_no_inbox)

lemma Pump_to_client:
  assumes "env_transport env = fake_transport" and "quiet (at_wire S (wire []) a)" and "in_handshake env C"
    and "arrives env (handshake_codec (env_ssl env)) w i q i'"
    and "Handle env HandshakeHandler q (at_wire C (wire []) i') = r" and "quiet r"
  shows "Pump env (at_wire C (wire []) i, at_wire S (wire [w]) a) = Some (r, at_wire S (wire []) a)"
  unfolding Pump_at using Process_carried [OF assms(1,3-6)] Process_quiet [OF assms(1,2)]
  by (simp add: wire_no_inbox)

section \<open>The whole exchange\<close>

definition base_session :: "('pk, 'a, FakeTransport) session_env \<Rightarrow> bool \<Rightarrow> CommonOptions \<Rightarrow> ('pk, 'a) fake_session" where
  "base_session env is_init options =
     \<lparr>ps_is_initiator = is_init, ps_handler = Some HandshakeHandler, ps_transport = None,
      ps_pipeline = \<lparr>mp_codec = Some (handshake_codec (env_ssl env)), mp_out_compression = CompressionNone,
                     mp_compression_threshold = compression_threshold options\<rparr>,
      ps_encryption = EncryptionLayer_fields None, ps_options = options,
      ps_negotiated_compression = (if is_init then CompressionNone else ResolveCompressionType (env_build env) (opt_compression options)),
      ps_is_ready = False, ps_invalid_frames = 0, ps_outbound = OutboundQueue_new (send_queue_capacity options)\<rparr>"

definition first_layer :: "'pk \<Rightarrow> CommonOptions \<Rightarrow> 'pk EncryptionLayer" where
  "first_layer k options = (EncryptionLayer_fields (Some k))\<lparr>el_want_encryption := opt_encryption options\<rparr>"

lemma new_session:
  "PeerSession_new env (Some k) (Some FakeTransport_new) is_init options =
     (if is_init then SendHandshake env (at_wire (base_session env is_init options) (wire []) (first_layer k options))
      else at_wire (base_session env is_init options) (wire []) (first_layer k options))"
  by (simp add: PeerSession_new_def Let_def SetCodec_def upd_encryption_def at_wire_def base_session_def first_layer_def
      MessagePipeline_new_def FakeTransport_new_def wire_def)

lemma base_in_handshake: "in_handshake env (base_session env is_init options)"
  using mpsc_ok_new [of 0] by (auto simp: in_handshake_def base_session_def queue_ok_def queued_def OutboundQueue_new_def)

lemma first_layer:
  "el_pub_key (first_layer k o') = Some k" "el_peer_pkey (first_layer k o') = None" "\<not> el_key_filled (first_layer k o')"
  "\<not> el_sent_handshake (first_layer k o')" "\<not> el_sent_ready (first_layer k o')" "\<not> el_enable_encryption (first_layer k o')"
  "el_want_encryption (first_layer k o') = opt_encryption o'" "el_tx_counters (first_layer k o') = []"
  "el_rx_replay (first_layer k o') = []" "layer_ok (first_layer k o')"
  "\<not> el_cipher_keyed (first_layer k o')" "\<not> el_dec_keyed (first_layer k o')"
  by (simp_all add: first_layer_def EncryptionLayer_fields_def layer_ok_def kNonceSaltLen_def)

lemma settled_by_simps [simp]:
  "el_pub_key (settled_by ag i e el) = el_pub_key el" "el_sent_handshake (settled_by ag i e el) = el_sent_handshake el"
  "el_sent_ready (settled_by ag i e el) = el_sent_ready el" "el_enable_encryption (settled_by ag i e el) = el_enable_encryption el"
  "el_want_encryption (settled_by ag i e el) = el_want_encryption el" "el_tx_counters (settled_by ag i e el) = el_tx_counters el"
  "el_rx_replay (settled_by ag i e el) = el_rx_replay el" "el_negotiated (settled_by ag i e el)"
  "el_key_filled (settled_by ag i e el) = (e \<or> el_key_filled el)"
  "el_cipher_keyed (settled_by ag i e el) = el_cipher_keyed el" "el_dec_keyed (settled_by ag i e el) = el_dec_keyed el"
  by (simp_all add: settled_by_def settled_def)

lemma settled_layer_ok:
  assumes "agreed ssl ag" and "layer_ok el" and "\<not> el_cipher_keyed el" and "\<not> el_dec_keyed el"
  shows "layer_ok (settled_by ag i e el)"
  using assms by (cases i; cases e) (simp_all add: layer_ok_def settled_by_def settled_def agreed_def kNonceSaltLen_def)

text \<open>Two layers settled by one agreement, nothing sent yet, match in both directions.\<close>

lemma settled_matched:
  assumes "layer_ok A" and "layer_ok B" and "el_tx_counters A = []" and "el_rx_replay B = []"
    and "el_enable_encryption A = el_key_filled B" and "el_key_filled B \<longrightarrow> el_tx_key A = el_rx_key B \<and> el_tx_salt A = el_rx_salt B"
  shows "matched A B"
proof -
  have "in_sync A B" unfolding in_sync_def using windows_fresh [OF assms(4)] by fastforce
  then show ?thesis using assms by (auto simp: matched_def)
qed

lemma matched_flags [simp]:
  "matched (A\<lparr>el_sent_ready := x\<rparr>) B = matched A B" "matched A (B\<lparr>el_sent_ready := x\<rparr>) = matched A B"
  "matched A (B\<lparr>el_enable_encryption := x\<rparr>) = matched A B"
  by (simp_all add: matched_def layer_ok_def in_sync_def windows_of_def replay_window_def next_counter_def)

lemma layer_ok_flags [simp]:
  "layer_ok (A\<lparr>el_sent_ready := x\<rparr>) = layer_ok A" "layer_ok (A\<lparr>el_enable_encryption := x\<rparr>) = layer_ok A"
  "layer_ok (A\<lparr>el_sent_handshake := x\<rparr>) = layer_ok A"
  by (simp_all add: layer_ok_def)

text \<open>The parameters cross, and the client, which has followed the server, says it is ready.\<close>

lemma parameters_cross:
  fixes copts sopts :: CommonOptions and env :: "('pk, 'a, FakeTransport) session_env" and ag :: "'pk agreement"
  assumes "env_ok env" and "agreed (env_ssl env) ag"
  defines "i2 \<equiv> settled_by ag True (opt_encryption sopts) ((first_layer (ag_ki ag) copts)\<lparr>el_sent_handshake := True\<rparr>)"
    and "a2 \<equiv> (settled_by ag False (opt_encryption sopts) (first_layer (ag_ka ag) sopts))\<lparr>el_sent_handshake := True\<rparr>"
    and "C \<equiv> (base_session env True copts)\<lparr>ps_negotiated_compression
        := compression_of_raw (GetCompressionTypeRaw (ResolveCompressionType (env_build env) (opt_compression sopts)))\<rparr>"
    and "S \<equiv> base_session env False sopts"
  obtains w3 i3 a3 where "Pump_rounds 2 env (PeerSession_new env (Some (ag_ki ag)) (Some FakeTransport_new) True copts,
        PeerSession_new env (Some (ag_ka ag)) (Some FakeTransport_new) False sopts)
      = Some (at_wire C (wire [w3]) (i3\<lparr>el_sent_ready := True\<rparr>), at_wire S (wire []) a2)"
    and "arrives env (handshake_codec (env_ssl env)) w3 a2 (ConnectionReady kReadyMagic) a3" and "matched i3 a3"
    and "tx_only (i2\<lparr>el_enable_encryption := opt_encryption sopts\<rparr>) i3" and "layer_ok i3" and "rx_only a2 a3" and "layer_ok a3"
    and "in_handshake env C"
proof -
  let ?ssl = "env_ssl env" and ?enc = "opt_encryption sopts" and ?codec = "handshake_codec (env_ssl env)"
  let ?Cb = "base_session env True copts" and ?i0 = "first_layer (ag_ki ag) copts" and ?a0 = "first_layer (ag_ka ag) sopts"
  let ?i1 = "?i0\<lparr>el_sent_handshake := True\<rparr>" and ?a1 = "settled_by ag False ?enc ?a0"
  have fake: "env_transport env = fake_transport" using assms(1) by (simp add: env_ok_def)
  have init: "ps_is_initiator ?Cb" "\<not> ps_is_initiator S" "ps_negotiated_compression S = ResolveCompressionType (env_build env) (opt_compression sopts)"
    by (simp_all add: base_session_def S_def)
  have hs: "in_handshake env ?Cb" "in_handshake env S" "in_handshake env C"
    using base_in_handshake [of env True copts] base_in_handshake [of env False sopts]
    by (simp_all add: S_def C_def in_handshake_def queue_ok_def queued_def)
  then have q: "quiet (at_wire X (wire ws) el)" if "X = ?Cb \<or> X = S \<or> X = C" for X ws el
    using that by (auto simp: quiet_at_wire in_handshake_def)
  obtain w1 where w1: "SendHandshake env (at_wire ?Cb (wire []) ?i0) = at_wire ?Cb (wire [w1]) ?i1"
      "\<And>B. \<not> el_key_filled B \<Longrightarrow> arrives env ?codec w1 B (Handshake (offer ag ?i0 ?Cb)) B"
    by (rule SendHandshake_offers [OF assms(1) hs(1) assms(2), of ?i0]) (simp_all add: first_layer init)
  obtain w2 where w2: "SendHandshake env (at_wire S (wire []) ?a1) = at_wire S (wire [w2]) a2"
      "\<And>B. \<not> el_key_filled B \<Longrightarrow> arrives env ?codec w2 B (Handshake (offer ag ?a1 S)) B"
    by (rule SendHandshake_offers [OF assms(1) hs(2) assms(2), of ?a1]) (simp_all add: first_layer init a2_def)
  have server: "Handle env HandshakeHandler (Handshake (offer ag ?i0 ?Cb)) (at_wire S (wire []) ?a0) = at_wire S (wire [w2]) a2"
    using server_answers [OF assms(2) init(2), where a = ?a0 and q = "offer ag ?i0 ?Cb" and t = "wire []"] w2(1) init(1)
    by (simp add: Handle_def first_layer offer_def)
  have r1: "Pump env (at_wire ?Cb (wire [w1]) ?i1, at_wire S (wire []) ?a0) = Some (at_wire ?Cb (wire []) ?i1, at_wire S (wire [w2]) a2)"
    by (rule Pump_to_server [OF fake _ hs(2) w1(2) server]) (simp_all add: q first_layer)
  have lok: "layer_ok i2" "layer_ok a2"
    unfolding i2_def a2_def by (simp_all add: settled_layer_ok [OF assms(2)] first_layer)
  have m: "matched (i2\<lparr>el_enable_encryption := el_key_filled i2\<rparr>) a2"
    by (rule settled_matched) (use lok in \<open>simp_all add: i2_def a2_def first_layer\<close>, simp add: settled_by_def settled_def)
  obtain w3 i3 a3 where w3: "SendReady env (at_wire C (wire []) i2) = at_wire C (wire [w3]) (i3\<lparr>el_sent_ready := True\<rparr>)"
      "arrives env ?codec w3 a2 (ConnectionReady kReadyMagic) a3" "matched i3 a3"
      "tx_only (i2\<lparr>el_enable_encryption := el_key_filled i2\<rparr>) i3" "layer_ok i2 \<Longrightarrow> layer_ok i3" "rx_only a2 a3" "layer_ok a2 \<Longrightarrow> layer_ok a3"
    by (rule SendReady_sent [OF assms(1) hs(3) m]) (simp_all add: i2_def first_layer)
  have client: "Handle env HandshakeHandler (Handshake (offer ag ?a1 S)) (at_wire ?Cb (wire []) ?i1) = at_wire C (wire [w3]) (i3\<lparr>el_sent_ready := True\<rparr>)"
    using client_follows [OF assms(2) init(1), where i = ?i1 and q = "offer ag ?a1 S" and t = "wire []"] w3(1) init
    by (simp add: Handle_def first_layer offer_def i2_def C_def)
  have r2: "Pump env (at_wire ?Cb (wire []) ?i1, at_wire S (wire [w2]) a2) = Some (at_wire C (wire [w3]) (i3\<lparr>el_sent_ready := True\<rparr>), at_wire S (wire []) a2)"
    by (rule Pump_to_client [OF fake _ hs(1) w2(2) client]) (simp_all add: q first_layer)
  have "el_key_filled i2 = ?enc" by (simp add: i2_def first_layer)
  then show thesis
    using that [of w3 i3 a3] w3(2-7) lok hs(3) r1 r2 w1(1) by (simp add: new_session numeral_2_eq_2 S_def)
qed

text \<open>The server answers and is ready, the client hears it and is ready, and their layers match both ways.\<close>

lemma both_ready:
  fixes env :: "('pk, 'a, FakeTransport) session_env"
  assumes "env_ok env" and "in_handshake env C" and "in_handshake env S"
    and "arrives env (handshake_codec (env_ssl env)) w3 a2 (ConnectionReady kReadyMagic) a3" and "matched i3 a3"
    and "tx_only i2 i3" and "layer_ok i3" and "rx_only a2 a3" and "layer_ok a3"
    and "el_negotiated i2" and "el_negotiated a2" and "\<not> el_sent_ready a2"
    and "matched (a2\<lparr>el_enable_encryption := el_key_filled a2\<rparr>) i2" and "el_tx_counters a2 = []"
  obtains i5 a5 where "Pump_rounds 2 env (at_wire C (wire [w3]) (i3\<lparr>el_sent_ready := True\<rparr>), at_wire S (wire []) a2)
      = Some (at_wire (finished C) (wire []) i5, at_wire (finished S) (wire []) a5)"
    and "matched i5 a5" and "matched a5 i5"
    and "el_key_filled i5 = el_key_filled i2" and "el_key_filled a5 = el_key_filled a2"
    and "el_enable_encryption i5 = el_enable_encryption i2" and "el_enable_encryption a5 = el_key_filled a2"
    and "el_exporter_secret i5 = el_exporter_secret i2" and "el_exporter_secret a5 = el_exporter_secret a2"
proof -
  let ?codec = "handshake_codec (env_ssl env)" and ?i4 = "i3\<lparr>el_sent_ready := True\<rparr>" and ?a3 = "a3\<lparr>el_enable_encryption := el_key_filled a3\<rparr>"
  have fake: "env_transport env = fake_transport" using assms(1) by (simp add: env_ok_def)
  have q: "quiet (at_wire X (wire ws) el)" if "X = C \<or> X = S \<or> X = finished C \<or> X = finished S" for X ws el
    using that assms(2,3) by (auto simp: quiet_at_wire in_handshake_def)
  note a3 = rx_onlyD [OF assms(8)] and i3 = tx_onlyD [OF assms(6)]
  have "rx_only (a2\<lparr>el_enable_encryption := el_key_filled a2\<rparr>) ?a3" using assms(8) a3(9) unfolding rx_only_def by (cases a2; cases a3) simp
  from matched_rx_only [OF assms(13) this] have "matched ?a3 i2" using assms(9) by simp
  from matched_tx_only [OF this assms(6)] have m: "matched ?a3 ?i4" using assms(7) by simp
  obtain w4 a4 i5 where w4: "SendReady env (at_wire S (wire []) a3) = at_wire S (wire [w4]) (a4\<lparr>el_sent_ready := True\<rparr>)"
      "arrives env ?codec w4 ?i4 (ConnectionReady kReadyMagic) i5" "matched a4 i5" "tx_only ?a3 a4" "layer_ok a3 \<Longrightarrow> layer_ok a4"
      "rx_only ?i4 i5" "layer_ok ?i4 \<Longrightarrow> layer_ok i5"
    by (rule SendReady_sent [OF assms(1,3) m]) (simp_all add: a3 assms(14))
  let ?a5 = "a4\<lparr>el_sent_ready := True\<rparr>"
  note i5 = rx_onlyD [OF w4(6)] and a4 = tx_onlyD [OF w4(4)]
  have s: "Handle env HandshakeHandler (ConnectionReady kReadyMagic) (at_wire S (wire []) a3) = at_wire (finished S) (wire [w4]) ?a5"
    by (rule ready_accepted [OF fake]) (simp_all add: a3 assms(11,12) w4(1))
  have c: "Handle env HandshakeHandler (ConnectionReady kReadyMagic) (at_wire C (wire []) i5) = at_wire (finished C) (wire []) i5"
    by (rule ready_accepted [OF fake]) (simp_all add: i5 i3 assms(10))
  have r3: "Pump env (at_wire C (wire [w3]) ?i4, at_wire S (wire []) a2) = Some (at_wire C (wire []) ?i4, at_wire (finished S) (wire [w4]) ?a5)"
    by (rule Pump_to_server [OF fake _ assms(3,4) s]) (simp_all add: q)
  have r4: "Pump env (at_wire C (wire []) ?i4, at_wire (finished S) (wire [w4]) ?a5) = Some (at_wire (finished C) (wire []) i5, at_wire (finished S) (wire []) ?a5)"
    by (rule Pump_to_client [OF fake _ assms(2) w4(2) c]) (simp_all add: q)
  have "matched i5 a3" by (rule matched_rx_only [OF _ w4(6)]) (use assms(5) w4(7) in simp_all)
  then have "matched i5 a4" by (intro matched_tx_only [OF _ w4(4)]) (use w4(5) in simp_all)
  then show thesis
    using that [of i5 ?a5] w4(3) r3 r4 by (simp add: numeral_2_eq_2 i5 i3 a4 a3)
qed

lemma Pump_rounds_add: "Pump_rounds (m + n) env cs = (case Pump_rounds m env cs of None \<Rightarrow> None | Some cs' \<Rightarrow> Pump_rounds n env cs')"
  by (induction m arbitrary: cs) (auto split: option.splits)

lemma exchange_completes:
  assumes "gcm_law (env_ssl env)" and "hkdf_law (env_ssl env)" and "digest_law (env_ssl env)" and "build_ok (env_build env)"
    and "env_transport env = fake_transport" and "key_agreement (env_ssl env) ki ka"
    and "compression_of_raw (GetCompressionTypeRaw (opt_compression sopts)) = opt_compression sopts"
  shows "\<exists>client server. Pump_rounds 4 env
        (PeerSession_new env (Some ki) (Some FakeTransport_new) True copts,
         PeerSession_new env (Some ka) (Some FakeTransport_new) False sopts) = Some (client, server)
      \<and> ps_is_ready client \<and> ps_is_ready server
      \<and> ps_negotiated_compression client = ResolveCompressionType (env_build env) (opt_compression sopts)
      \<and> ps_negotiated_compression server = ResolveCompressionType (env_build env) (opt_compression sopts)
      \<and> (\<forall>s\<in>{client, server}. el_key_filled (ps_encryption s) = opt_encryption sopts
            \<and> el_enable_encryption (ps_encryption s) = opt_encryption sopts)
      \<and> matched (ps_encryption client) (ps_encryption server) \<and> matched (ps_encryption server) (ps_encryption client)
      \<and> el_exporter_secret (ps_encryption client) = el_exporter_secret (ps_encryption server)"
proof -
  let ?enc = "opt_encryption sopts"
  obtain ag where ag: "agreed (env_ssl env) ag" "ag_ki ag = ki" "ag_ka ag = ka" by (rule agreement [OF assms(2,3,6)])
  have ok: "env_ok env" using assms(1,4,5) by (simp add: env_ok_def)
  define i2 where "i2 = settled_by ag True ?enc ((first_layer ki copts)\<lparr>el_sent_handshake := True\<rparr>)"
  define a2 where "a2 = (settled_by ag False ?enc (first_layer ka sopts))\<lparr>el_sent_handshake := True\<rparr>"
  define C where "C = (base_session env True copts)\<lparr>ps_negotiated_compression
      := compression_of_raw (GetCompressionTypeRaw (ResolveCompressionType (env_build env) (opt_compression sopts)))\<rparr>"
  define S where "S = base_session env False sopts"
  note half = parameters_cross [OF ok ag(1), of copts sopts, unfolded ag(2,3), folded i2_def a2_def C_def S_def]
  obtain w3 i3 a3 where h: "Pump_rounds 2 env (PeerSession_new env (Some ki) (Some FakeTransport_new) True copts,
        PeerSession_new env (Some ka) (Some FakeTransport_new) False sopts)
      = Some (at_wire C (wire [w3]) (i3\<lparr>el_sent_ready := True\<rparr>), at_wire S (wire []) a2)"
      "arrives env (handshake_codec (env_ssl env)) w3 a2 (ConnectionReady kReadyMagic) a3" "matched i3 a3"
      "tx_only (i2\<lparr>el_enable_encryption := ?enc\<rparr>) i3" "layer_ok i3" "rx_only a2 a3" "layer_ok a3" "in_handshake env C"
    by (rule half)
  have S: "in_handshake env S" using base_in_handshake by (simp add: S_def)
  have lok: "layer_ok i2" "layer_ok a2"
    unfolding i2_def a2_def by (simp_all add: settled_layer_ok [OF ag(1)] first_layer)
  have m: "matched (a2\<lparr>el_enable_encryption := el_key_filled a2\<rparr>) (i2\<lparr>el_enable_encryption := ?enc\<rparr>)"
    by (rule settled_matched) (use lok in \<open>simp_all add: i2_def a2_def first_layer\<close>, simp add: settled_by_def settled_def)
  obtain i5 a5 where f: "Pump_rounds 2 env (at_wire C (wire [w3]) (i3\<lparr>el_sent_ready := True\<rparr>), at_wire S (wire []) a2)
      = Some (at_wire (finished C) (wire []) i5, at_wire (finished S) (wire []) a5)" "matched i5 a5" "matched a5 i5"
      "el_key_filled i5 = el_key_filled (i2\<lparr>el_enable_encryption := ?enc\<rparr>)" "el_key_filled a5 = el_key_filled a2"
      "el_enable_encryption i5 = el_enable_encryption (i2\<lparr>el_enable_encryption := ?enc\<rparr>)" "el_enable_encryption a5 = el_key_filled a2"
      "el_exporter_secret i5 = el_exporter_secret (i2\<lparr>el_enable_encryption := ?enc\<rparr>)" "el_exporter_secret a5 = el_exporter_secret a2"
    by (rule both_ready [OF ok h(8) S h(2-7) _ _ _ m]) (simp_all add: i2_def a2_def first_layer)
  have comp: "compression_of_raw (GetCompressionTypeRaw (ResolveCompressionType (env_build env) (opt_compression sopts)))
      = ResolveCompressionType (env_build env) (opt_compression sopts)"
    using assms(7) by (auto simp: ResolveCompressionType_def GetCompressionTypeRaw_def compression_of_raw_def split: option.splits)
  have "Pump_rounds (2 + 2) env (PeerSession_new env (Some ki) (Some FakeTransport_new) True copts,
        PeerSession_new env (Some ka) (Some FakeTransport_new) False sopts)
      = Some (at_wire (finished C) (wire []) i5, at_wire (finished S) (wire []) a5)"
    unfolding Pump_rounds_add h(1) by (simp only: option.case f(1))
  moreover have "el_key_filled i2 = ?enc" "el_key_filled a2 = ?enc" "el_exporter_secret i2 = el_exporter_secret a2"
    by (simp_all add: i2_def a2_def first_layer) (simp add: settled_by_def settled_def first_layer_def EncryptionLayer_fields_def)
  moreover have "ps_negotiated_compression C = ResolveCompressionType (env_build env) (opt_compression sopts)"
    "ps_negotiated_compression S = ResolveCompressionType (env_build env) (opt_compression sopts)"
    by (simp_all add: C_def S_def comp base_session_def)
  ultimately show ?thesis
    using f by (intro exI [of _ "at_wire (finished C) (wire []) i5"] exI [of _ "at_wire (finished S) (wire []) a5"]) (simp add: at_wire_def)
qed

text \<open>
  C2. The key exchange completes and agrees. Over an in-order transport, four rounds after two
  sessions were created with keys that can agree, both are ready; the mode is the server's
  choice and the compression the one the server resolved; both hold keys exactly when the
  server encrypts, what either sends the other can open, in both directions, and the two ends
  have the same exporter secret.
\<close>

theorem handshake_agreement:
  assumes "gcm_law (env_ssl env)" and "hkdf_law (env_ssl env)" and "digest_law (env_ssl env)" and "build_ok (env_build env)"
    and "env_transport env = fake_transport" and "key_agreement (env_ssl env) ki ka"
    and "compression_of_raw (GetCompressionTypeRaw (opt_compression sopts)) = opt_compression sopts"
  shows "\<exists>client server. Pump_rounds 4 env
        (PeerSession_new env (Some ki) (Some FakeTransport_new) True copts,
         PeerSession_new env (Some ka) (Some FakeTransport_new) False sopts) = Some (client, server)
      \<and> ps_is_ready client \<and> ps_is_ready server
      \<and> ps_negotiated_compression client = ResolveCompressionType (env_build env) (opt_compression sopts)
      \<and> ps_negotiated_compression server = ResolveCompressionType (env_build env) (opt_compression sopts)
      \<and> (\<forall>s\<in>{client, server}. el_key_filled (ps_encryption s) = opt_encryption sopts
            \<and> el_enable_encryption (ps_encryption s) = opt_encryption sopts)
      \<and> matched (ps_encryption client) (ps_encryption server) \<and> matched (ps_encryption server) (ps_encryption client)
      \<and> el_exporter_secret (ps_encryption client) = el_exporter_secret (ps_encryption server)"
  by (rule exchange_completes [OF assms])

definition sample_env :: "(u8 + u8, u8, FakeTransport) session_env" where
  "sample_env = \<lparr>env_ssl = sample_ssl, env_build = None, env_app_id = (\<lambda>_. 1), env_transport = fake_transport, env_app = (\<lambda>_ s. s)\<rparr>"

lemma sample_agreement: "key_agreement sample_ssl (Inl 5) (Inl 7)" "digest_law sample_ssl"
  by (simp_all add: key_agreement_def digest_law_def sample_ssl_def int_max_def)

theorem handshake_agreement_witness:
  "\<exists>client server. Pump_rounds 4 sample_env
      (PeerSession_new sample_env (Some (Inl 5)) (Some FakeTransport_new) True CommonOptions_default,
       PeerSession_new sample_env (Some (Inl 7)) (Some FakeTransport_new) False CommonOptions_default) = Some (client, server)
     \<and> ps_is_ready client \<and> ps_is_ready server \<and> el_key_filled (ps_encryption client) \<and> el_enable_encryption (ps_encryption server)"
  using handshake_agreement [of sample_env "Inl 5" "Inl 7" CommonOptions_default CommonOptions_default]
    sample_gcm sample_hkdf sample_agreement
  by (auto simp: sample_env_def build_ok_def CommonOptions_default_def compression_of_raw_def GetCompressionTypeRaw_def)

end
