(* ===== verification/Session_Guarantees.thy ===== *)
theory Session_Guarantees
  imports Session_Handshake
begin

text \<open>
  What holds of a session whatever its peer sends, its transport does and its application
  calls: the type invariant of its state, the keys and the mode never change once settled, no
  packet of the application is queued before the handshake is over, and a packet that is
  queued reaches the handler of the other end.
\<close>

section \<open>The invariant\<close>

definition layer_typed :: "'pk EncryptionLayer \<Rightarrow> bool" where
  "layer_typed el \<longleftrightarrow> layer_ok el \<and> (el_enable_encryption el \<longrightarrow> el_key_filled el \<and> el_sent_ready el)
     \<and> (el_cipher_keyed el \<longrightarrow> el_key_filled el) \<and> (el_dec_keyed el \<longrightarrow> el_key_filled el)
     \<and> (el_key_filled el \<longrightarrow> el_negotiated el) \<and> (el_sent_ready el \<longrightarrow> el_negotiated el)"

definition session_typed :: "('pk, 'a, 't) PeerSession \<Rightarrow> bool" where
  "session_typed s \<longleftrightarrow> layer_typed (ps_encryption s) \<and> (ps_is_ready s \<longrightarrow> el_sent_ready (ps_encryption s))
     \<and> (\<not> ps_is_ready s \<longrightarrow> (\<exists>cap. oq_queue (ps_outbound s) = MpscQueue_new cap) \<and> \<not> oq_encoding (ps_outbound s))"

text \<open>What later states keep: keys once they exist, the mode once it is on, readiness.\<close>

definition keeps :: "'pk EncryptionLayer \<Rightarrow> 'pk EncryptionLayer \<Rightarrow> bool" where
  "keeps A B \<longleftrightarrow> (el_key_filled A \<longrightarrow> el_key_filled B \<and> el_tx_key B = el_tx_key A \<and> el_rx_key B = el_rx_key A
        \<and> el_tx_salt B = el_tx_salt A \<and> el_rx_salt B = el_rx_salt A \<and> el_exporter_secret B = el_exporter_secret A
        \<and> el_peer_pkey B = el_peer_pkey A)
     \<and> (el_enable_encryption A \<longrightarrow> el_enable_encryption B)
     \<and> (el_negotiated A \<longrightarrow> el_negotiated B) \<and> (el_sent_ready A \<longrightarrow> el_sent_ready B)"

definition good :: "('pk, 'a, 't) PeerSession \<Rightarrow> ('pk, 'a, 't) PeerSession \<Rightarrow> bool" where
  "good s0 s \<longleftrightarrow> session_typed s \<and> keeps (ps_encryption s0) (ps_encryption s) \<and> (ps_is_ready s0 \<longrightarrow> ps_is_ready s)"

lemma keeps_refl [simp]: "keeps A A"
  by (simp add: keeps_def)

lemma keeps_trans: "keeps A B \<Longrightarrow> keeps B C \<Longrightarrow> keeps A C"
  by (simp add: keeps_def)

text \<open>A change of the layer alone.\<close>

lemma good_layer:
  assumes "good s0 s" and "layer_typed el" and "keeps (ps_encryption s) el"
    and "ps_encryption s' = el" and "ps_is_ready s' = ps_is_ready s" and "ps_outbound s' = ps_outbound s"
  shows "good s0 s'"
  using assms keeps_trans [of "ps_encryption s0" "ps_encryption s" el]
  unfolding good_def session_typed_def by (auto simp: keeps_def)

lemma good_unchanged:
  assumes "good s0 s" and "ps_encryption s' = ps_encryption s" and "ps_is_ready s' = ps_is_ready s" and "ps_outbound s' = ps_outbound s"
  shows "good s0 s'"
  using assms by (simp add: good_def session_typed_def)

lemma session_goodD:
  assumes "good s0 s"
  shows "layer_typed (ps_encryption s)"
  using assms by (simp add: good_def session_typed_def)

lemma session_Close_fields:
  "ps_encryption (snd (session_Close env nl s)) = ps_encryption s" "ps_is_ready (snd (session_Close env nl s)) = ps_is_ready s"
  "ps_outbound (snd (session_Close env nl s)) = ps_outbound s"
  by (simp_all add: session_Close_def case_prod_beta split: option.split)

lemma good_Close: "good s0 s \<Longrightarrow> good s0 (snd (session_Close env nl s))"
  by (rule good_unchanged) (simp_all add: session_Close_fields)

section \<open>Messages\<close>

lemma tx_only_typed:
  assumes "layer_typed el" and "tx_only el el'" and "layer_ok el \<Longrightarrow> layer_ok el'" and "\<not> el_enable_encryption el \<Longrightarrow> el' = el"
  shows "layer_typed el'" and "keeps el el'"
proof -
  note t = tx_onlyD [OF assms(2)]
  show "keeps el el'" unfolding keeps_def t by blast
  show "layer_typed el'"
  proof (cases "el_enable_encryption el")
    case True
    then show ?thesis using assms(1,3) unfolding layer_typed_def t by blast
  qed (use assms(1,4) in simp)
qed

lemma rx_only_typed:
  assumes "layer_typed el" and "rx_only el el'" and "layer_ok el \<Longrightarrow> layer_ok el'" and "\<not> el_key_filled el \<Longrightarrow> el' = el"
  shows "layer_typed el'" and "keeps el el'"
proof -
  note t = rx_onlyD [OF assms(2)]
  show "keeps el el'" unfolding keeps_def t by blast
  show "layer_typed el'"
  proof (cases "el_key_filled el")
    case True
    then show ?thesis using assms(1,3) unfolding layer_typed_def t by blast
  qed (use assms(1,4) in simp)
qed

lemma Encode_typed:
  assumes "layer_typed el"
  shows "layer_typed (snd (Encode ssl z pid pl p k el))" and "keeps el (snd (Encode ssl z pid pl p k el))"
    and "tx_only el (snd (Encode ssl z pid pl p k el))"
proof -
  obtain r el' where e: "Encode ssl z pid pl p k el = (r, el')" by (cases "Encode ssl z pid pl p k el")
  note l = Encode_layer [OF e]
  show "layer_typed (snd (Encode ssl z pid pl p k el))" "keeps el (snd (Encode ssl z pid pl p k el))"
    "tx_only el (snd (Encode ssl z pid pl p k el))"
    using tx_only_typed [OF assms l] l(1) by (simp_all add: e)
qed

lemma Decode_typed:
  assumes "layer_typed el"
  shows "layer_typed (snd (Decode ssl z b el))" and "keeps el (snd (Decode ssl z b el))"
proof -
  obtain r el' where e: "Decode ssl z b el = (r, el')" by (cases "Decode ssl z b el")
  show "layer_typed (snd (Decode ssl z b el))" "keeps el (snd (Decode ssl z b el))"
    using rx_only_typed [OF assms Decode_layer [OF e]] by (simp_all add: e)
qed

lemma EncodeAndSend_fields:
  "ps_is_ready (snd (EncodeAndSend env p opts s)) = ps_is_ready s" "ps_outbound (snd (EncodeAndSend env p opts s)) = ps_outbound s"
  "ps_encryption (snd (EncodeAndSend env p opts s)) = snd (Encode (env_ssl env) (env_build env) (packet_id (env_app_id env))
        (ps_pipeline s) p (tl_OrderingDomain (env_transport env) opts) (ps_encryption s))
    \<or> ps_encryption (snd (EncodeAndSend env p opts s)) = ps_encryption s"
  by (auto simp: EncodeAndSend_def case_prod_beta split: option.split prod.split)

lemma EncodeAndSend_layer:
  assumes "layer_typed (ps_encryption s)"
  shows "layer_typed (ps_encryption (snd (EncodeAndSend env p opts s)))"
    and "keeps (ps_encryption s) (ps_encryption (snd (EncodeAndSend env p opts s)))"
    and "tx_only (ps_encryption s) (ps_encryption (snd (EncodeAndSend env p opts s)))"
proof -
  let ?el = "ps_encryption (snd (EncodeAndSend env p opts s))"
  consider "?el = snd (Encode (env_ssl env) (env_build env) (packet_id (env_app_id env))
        (ps_pipeline s) p (tl_OrderingDomain (env_transport env) opts) (ps_encryption s))" | "?el = ps_encryption s"
    using EncodeAndSend_fields(3) by blast
  then have "layer_typed ?el \<and> keeps (ps_encryption s) ?el \<and> tx_only (ps_encryption s) ?el"
  proof cases
    case 1
    show ?thesis unfolding 1 by (intro conjI Encode_typed [OF assms])
  qed (use assms in simp)
  then show "layer_typed ?el" "keeps (ps_encryption s) ?el" "tx_only (ps_encryption s) ?el" by blast+
qed

lemma good_EncodeAndSend:
  assumes "good s0 s"
  shows "good s0 (snd (EncodeAndSend env p opts s))"
  by (rule good_layer [OF assms EncodeAndSend_layer(1,2) [OF session_goodD [OF assms]] refl]) (simp_all add: EncodeAndSend_fields)

lemma SendImmediate_fields:
  "ps_is_ready (snd (SendImmediate env p opts s)) = ps_is_ready s" "ps_outbound (snd (SendImmediate env p opts s)) = ps_outbound s"
  by (simp_all add: SendImmediate_def EncodeAndSend_fields)

lemma SendImmediate_layer:
  assumes "layer_typed (ps_encryption s)"
  shows "layer_typed (ps_encryption (snd (SendImmediate env p opts s)))"
    and "keeps (ps_encryption s) (ps_encryption (snd (SendImmediate env p opts s)))"
    and "tx_only (ps_encryption s) (ps_encryption (snd (SendImmediate env p opts s)))"
  using EncodeAndSend_layer [OF assms] assms by (simp_all add: SendImmediate_def)

section \<open>The key exchange\<close>

lemma good_SendHandshake:
  assumes "good s0 s"
  shows "good s0 (SendHandshake env s)"
proof -
  obtain p where p: "SendHandshake env s
      = upd_encryption (\<lambda>el. el\<lparr>el_sent_handshake := True\<rparr>) (snd (SendImmediate env p SendOptions_default s))"
    by (simp add: SendHandshake_def Let_def)
  note l = SendImmediate_layer [OF session_goodD [OF assms], of env p SendOptions_default]
  show ?thesis
    unfolding p upd_encryption_def
    by (rule good_layer [OF assms, where el = "(ps_encryption (snd (SendImmediate env p SendOptions_default s)))\<lparr>el_sent_handshake := True\<rparr>"])
      (use l in \<open>simp_all add: layer_typed_def keeps_def SendImmediate_fields\<close>)
qed

lemma good_SendReady:
  assumes "good s0 s" and "el_negotiated (ps_encryption s)" and "\<not> el_sent_ready (ps_encryption s)"
  shows "good s0 (SendReady env s)" and "el_sent_ready (ps_encryption (SendReady env s))" and "ps_is_ready (SendReady env s) = ps_is_ready s"
proof -
  let ?p = "ConnectionReady kReadyMagic"
  define el1 where "el1 = (ps_encryption s)\<lparr>el_enable_encryption := el_key_filled (ps_encryption s)\<rparr>"
  define s1 where "s1 = s\<lparr>ps_encryption := el1\<rparr>"
  define s2 where "s2 = snd (SendImmediate env ?p SendOptions_default s1)"
  have S: "SendReady env s = s2\<lparr>ps_encryption := (ps_encryption s2)\<lparr>el_sent_ready := True\<rparr>\<rparr>"
    by (simp add: SendReady_def upd_encryption_def Let_def s2_def s1_def el1_def)
  note t = session_goodD [OF assms(1), unfolded layer_typed_def]
  have t1: "layer_ok el1" "\<not> el_enable_encryption (ps_encryption s)" using t assms(3) by (auto simp: el1_def layer_ok_def)
  have e: "tx_only el1 (ps_encryption s2) \<and> layer_ok (ps_encryption s2) \<and> (\<not> el_enable_encryption el1 \<longrightarrow> ps_encryption s2 = el1)"
    using EncodeAndSend_fields(3) [of env ?p SendOptions_default s1] t1 Encode_layer [OF prod.collapse [symmetric], where el = el1]
    by (auto simp: s2_def SendImmediate_def s1_def)
  then have u: "tx_only el1 (ps_encryption s2)" by blast
  note d = tx_onlyD [OF u]
  have k: "el_cipher_keyed (ps_encryption s2) \<longrightarrow> el_key_filled el1"
    using e t by (cases "el_key_filled (ps_encryption s)") (auto simp: el1_def)
  have el2: "layer_typed ((ps_encryption s2)\<lparr>el_sent_ready := True\<rparr>)"
    unfolding layer_typed_def using t e k assms(2) by (simp add: d) (simp add: el1_def)
  have "keeps (ps_encryption s) ((ps_encryption s2)\<lparr>el_sent_ready := True\<rparr>)"
    using t1(2) by (simp add: keeps_def d) (simp add: el1_def)
  from good_layer [OF assms(1) el2 this, of "SendReady env s"] show "good s0 (SendReady env s)"
    unfolding S s2_def by (simp add: SendImmediate_fields) (simp add: s1_def)
  show "el_sent_ready (ps_encryption (SendReady env s))" by (simp add: S)
  show "ps_is_ready (SendReady env s) = ps_is_ready s"
    unfolding S s2_def by (simp add: SendImmediate_fields) (simp add: s1_def)
qed

lemma Hkdf_length:
  assumes "hkdf_law ssl" and "Hkdf ssl x info n = Some out" and "0 < n" and "n \<le> 255 * 32"
  shows "length out = n"
proof -
  obtain out' where "EVP_HKDF ssl (ascii ''znet-session-v1'') x info n = Some out'" "length out' = n"
    using assms(1,3,4) unfolding hkdf_law_def by blast
  then show ?thesis using assms(2) by (simp add: Hkdf_def split: if_splits)
qed

lemma DeriveExporterSecret_layer: "\<exists>E. snd (DeriveExporterSecret ssl is_init A) = A\<lparr>el_exporter_secret := E\<rparr>"
proof -
  let ?I = "SerializePublicKey ssl (if is_init then el_pub_key A else el_peer_pkey A)"
  let ?J = "SerializePublicKey ssl (if is_init then el_peer_pkey A else el_pub_key A)"
  let ?x = "case el_shared_secret A of None \<Rightarrow> [] | Some s \<Rightarrow> s"
  have same: ?thesis if "snd (DeriveExporterSecret ssl is_init A) = A"
    using that by (intro exI [of _ "el_exporter_secret A"]) simp
  show ?thesis
  proof (cases "?I = None \<or> ?J = None")
    case True
    then show ?thesis by (intro same) (cases ?I; cases ?J; simp add: DeriveExporterSecret_def)
  next
    case False
    then obtain di da where k: "?I = Some di" "?J = Some da" by auto
    let ?d = "EVP_Digest ssl (append_key (append_key [] di) da)"
    show ?thesis
    proof (cases "?d = None \<or> length (the ?d) \<noteq> 32 \<or> Hkdf ssl ?x (ascii ''znet exporter v1'' @ the ?d) 32 = None")
      case True
      then show ?thesis by (intro same) (cases ?d; auto simp: DeriveExporterSecret_def k)
    next
      case False
      then obtain d out where "?d = Some d" "length d = 32" "Hkdf ssl ?x (ascii ''znet exporter v1'' @ d) 32 = Some out" by auto
      then show ?thesis by (intro exI [of _ out]) (simp add: DeriveExporterSecret_def k)
    qed
  qed
qed

text \<open>Deriving keys writes only the key material, at its proper sizes.\<close>

lemma DeriveDirectionalKeys_layer:
  assumes "hkdf_law ssl" and "DeriveDirectionalKeys ssl is_init el = (ok, el')" and "layer_ok el" and "\<not> el_cipher_keyed el" and "\<not> el_dec_keyed el"
  shows "layer_ok el'"
    and "el' = el\<lparr>el_tx_key := el_tx_key el', el_tx_salt := el_tx_salt el', el_rx_key := el_rx_key el', el_rx_salt := el_rx_salt el',
      el_exporter_secret := el_exporter_secret el'\<rparr>"
proof -
  let ?x = "case el_shared_secret el of None \<Rightarrow> [] | Some s \<Rightarrow> s"
  let ?d = "\<lambda>T R. el\<lparr>el_tx_key := take 32 T, el_tx_salt := take 4 (drop 32 T), el_rx_key := take 32 R, el_rx_salt := take 4 (drop 32 R)\<rparr>"
  have len: "length T = 36" if "DeriveKeyFromSharedSecret ssl ?x l (32 + 4) = Some T" for l T
    using Hkdf_length [OF assms(1)] that unfolding DeriveKeyFromSharedSecret_def by fastforce
  note exp = DeriveExporterSecret_layer [of ssl is_init]
  have c: "el' = el \<or> (\<exists>T R E. length T = 36 \<and> length R = 36 \<and> el' = (?d T R)\<lparr>el_exporter_secret := E\<rparr>)"
  proof (cases "DeriveKeyFromSharedSecret ssl ?x (if is_init then ''znet c2s v1'' else ''znet s2c v1'') (32 + 4)")
    case None
    then show ?thesis using assms(2) by (simp add: DeriveDirectionalKeys_def)
  next
    case T: (Some T)
    show ?thesis
    proof (cases "DeriveKeyFromSharedSecret ssl ?x (if is_init then ''znet s2c v1'' else ''znet c2s v1'') (32 + 4)")
      case None
      then show ?thesis using assms(2) T by (simp add: DeriveDirectionalKeys_def)
    next
      case (Some R)
      then have "el' = snd (DeriveExporterSecret ssl is_init (?d T R))" using assms(2) T by (simp add: DeriveDirectionalKeys_def)
      then show ?thesis using exp len [OF T] len [OF Some] by blast
    qed
  qed
  have "layer_ok ((?d T R)\<lparr>el_exporter_secret := E\<rparr>)" if "length T = 36" "length R = 36" for T R E
    using assms(3-5) that by (simp add: layer_ok_def kNonceSaltLen_def)
  then show "layer_ok el'" using c assms(3) by blast
  show "el' = el\<lparr>el_tx_key := el_tx_key el', el_tx_salt := el_tx_salt el', el_rx_key := el_rx_key el', el_rx_salt := el_rx_salt el',
      el_exporter_secret := el_exporter_secret el'\<rparr>"
    using c
  proof (elim disjE exE conjE)
    fix T R E assume "el' = (?d T R)\<lparr>el_exporter_secret := E\<rparr>"
    then show ?thesis by simp
  qed simp
qed

text \<open>An end without keys may take any that are well-formed.\<close>

lemma good_rekeyed:
  assumes "good s0 s" and "\<not> el_key_filled (ps_encryption s)" and "layer_ok el"
    and "el = (ps_encryption s)\<lparr>el_peer_pkey := el_peer_pkey el, el_shared_secret := el_shared_secret el, el_tx_key := el_tx_key el,
      el_tx_salt := el_tx_salt el, el_rx_key := el_rx_key el, el_rx_salt := el_rx_salt el, el_exporter_secret := el_exporter_secret el,
      el_key_filled := el_key_filled el, el_negotiated := el_negotiated el\<rparr>"
    and "el_key_filled el \<or> el_negotiated (ps_encryption s) \<longrightarrow> el_negotiated el"
  shows "good s0 (s\<lparr>ps_encryption := el\<rparr>)"
proof -
  note t = session_goodD [OF assms(1), unfolded layer_typed_def]
  have f: "el_enable_encryption el = el_enable_encryption (ps_encryption s)" "el_sent_ready el = el_sent_ready (ps_encryption s)"
    "el_cipher_keyed el = el_cipher_keyed (ps_encryption s)" "el_dec_keyed el = el_dec_keyed (ps_encryption s)"
    by (subst assms(4), simp)+
  show ?thesis
    by (rule good_layer [OF assms(1), of el]) (use t assms(2,3,5) f in \<open>auto simp: layer_typed_def keeps_def\<close>)
qed

lemma good_exchange_keys:
  assumes "hkdf_law (env_ssl env)" and "good s0 s" and "\<not> el_key_filled (ps_encryption s)"
  shows "good s0 (exchange_keys env packet s)"
proof -
  let ?secret = "ComputeSharedSecret (env_ssl env) (el_pub_key (ps_encryption s)) (hp_pub_key packet)"
  define el2 where "el2 = (ps_encryption s)\<lparr>el_peer_pkey := hp_pub_key packet, el_shared_secret := ?secret\<rparr>"
  define s2 where "s2 = s\<lparr>ps_encryption := el2\<rparr>"
  note t = session_goodD [OF assms(2), unfolded layer_typed_def]
  have l2: "layer_ok el2" "\<not> el_cipher_keyed el2" "\<not> el_dec_keyed el2" using t assms(3) by (auto simp: el2_def layer_ok_def)
  have g2: "good s0 s2"
    unfolding s2_def by (rule good_rekeyed [OF assms(2,3) l2(1)]) (use assms(3) in \<open>simp_all add: el2_def\<close>)
  obtain ok el3 where d: "DeriveDirectionalKeys (env_ssl env) (ps_is_initiator s) el2 = (ok, el3)" by fastforce
  note l3 = DeriveDirectionalKeys_layer [OF assms(1) d l2]
  have f3: "el_key_filled el3 = el_key_filled (ps_encryption s)" "el_negotiated el3 = el_negotiated (ps_encryption s)"
    by (subst l3(2), simp add: el2_def)+
  have r3: "el3 = (ps_encryption s)\<lparr>el_peer_pkey := el_peer_pkey el3, el_shared_secret := el_shared_secret el3, el_tx_key := el_tx_key el3,
      el_tx_salt := el_tx_salt el3, el_rx_key := el_rx_key el3, el_rx_salt := el_rx_salt el3, el_exporter_secret := el_exporter_secret el3,
      el_key_filled := el_key_filled el3, el_negotiated := el_negotiated el3\<rparr>"
    using l3(2) unfolding el2_def by (cases "ps_encryption s"; cases el3) simp
  have g3: "good s0 (s\<lparr>ps_encryption := el3\<rparr>)"
    by (rule good_rekeyed [OF assms(2,3) l3(1) r3]) (use assms(3) f3 in simp)
  define s4 where "s4 = s\<lparr>ps_encryption := el3\<lparr>el_key_filled := True, el_negotiated := True\<rparr>\<rparr>"
  have g4: "good s0 s4"
    unfolding s4_def
  proof (rule good_rekeyed [OF assms(2,3)])
    show "layer_ok (el3\<lparr>el_key_filled := True, el_negotiated := True\<rparr>)" using l3(1) by (simp add: layer_ok_def)
  qed (use r3 in \<open>cases "ps_encryption s"; cases el3; simp\<close>, simp)
  have E: "exchange_keys env packet s = (if (case ?secret of None \<Rightarrow> True | Some x \<Rightarrow> length x = 0) then snd (session_Close env False s2)
      else if \<not> ok then snd (session_Close env False (s\<lparr>ps_encryption := el3\<rparr>))
      else if \<not> el_sent_handshake (ps_encryption s4) then SendHandshake env s4
      else if \<not> el_sent_ready (ps_encryption s4) then SendReady env s4 else s4)"
    using d by (simp add: exchange_keys_def upd_encryption_def s2_def el2_def s4_def Let_def)
  show ?thesis
    unfolding E using good_Close [OF g2] good_Close [OF g3] good_SendHandshake [OF g4] good_SendReady(1) [OF g4] g4
    by (simp add: s4_def)
qed

lemma good_OnHandshakePacket:
  assumes "hkdf_law (env_ssl env)" and "good s0 s"
  shows "good s0 (OnHandshakePacket env packet s)"
proof (cases "el_peer_pkey (ps_encryption s) \<noteq> None \<or> el_key_filled (ps_encryption s)")
  case True
  then show ?thesis using good_Close [OF assms(2)] by (simp add: OnHandshakePacket_def)
next
  case False
  then have k: "\<not> el_key_filled (ps_encryption s)" by simp
  define s1 where "s1 = s\<lparr>ps_negotiated_compression := compression_of_raw (hp_compression packet)\<rparr>"
  have g1: "good s0 s1" by (rule good_unchanged [OF assms(2)]) (simp_all add: s1_def)
  have neg: "good s0 (upd_encryption (\<lambda>el. el\<lparr>el_negotiated := True\<rparr>) x)" if "good s0 x" "ps_encryption x = ps_encryption s" for x
    unfolding upd_encryption_def
    by (rule good_layer [OF that(1) _ _ refl]) (use session_goodD [OF that(1)] in \<open>auto simp: layer_typed_def keeps_def layer_ok_def\<close>)
  let ?n1 = "upd_encryption (\<lambda>el. el\<lparr>el_negotiated := True\<rparr>) s1" and ?n = "upd_encryption (\<lambda>el. el\<lparr>el_negotiated := True\<rparr>) s"
  have e1: "ps_encryption s1 = ps_encryption s" by (simp add: s1_def)
  have g: "good s0 ?n1" "good s0 ?n" using neg [OF g1 e1] neg [OF assms(2) refl] by blast+
  have "good s0 (SendReady env ?n1)" "good s0 (SendReady env ?n)" if "\<not> el_sent_ready (ps_encryption s)"
    by (rule good_SendReady(1) [OF g(1)] good_SendReady(1) [OF g(2)]; use that in \<open>simp add: upd_encryption_def s1_def\<close>)+
  then show ?thesis
    using False e1 good_Close [OF g1, of env False] good_Close [OF assms(2), of env False] good_SendHandshake [OF g(2)] g
      good_exchange_keys [OF assms(1,2) k] good_exchange_keys [OF assms(1) g1, of packet] k
    by (simp add: OnHandshakePacket_def Let_def s1_def [symmetric]) (simp add: upd_encryption_def)
qed

lemma good_OnAcknowledgePacket:
  assumes "good s0 s"
  shows "good s0 (OnAcknowledgePacket env magic s)"
proof (cases "el_negotiated (ps_encryption s) \<and> magic = kReadyMagic")
  case False
  then show ?thesis using good_Close [OF assms] by (auto simp: OnAcknowledgePacket_def)
next
  case True
  define s1 where "s1 = (if \<not> el_sent_ready (ps_encryption s) then SendReady env s else s)"
  have s1: "good s0 s1" "el_sent_ready (ps_encryption s1)"
    using good_SendReady [OF assms] True assms by (auto simp: s1_def)
  have "good s0 (Ready env (SetCodec None (s1\<lparr>ps_handler := None\<rparr>)))"
    using s1 by (auto simp: Ready_def Let_def SetCodec_def SetOutCompression_def good_def session_typed_def keeps_def)
  then show ?thesis using True by (simp add: OnAcknowledgePacket_def s1_def)
qed

section \<open>Everything a session can do\<close>

text \<open>
  What an application may call, from its own code or from a packet handler. Between its steps
  the transport of a session may become anything: bytes arrive, its own threads run, the peer
  goes away.
\<close>

inductive api_step :: "('pk, 'a, 't) session_env \<Rightarrow> ('pk, 'a, 't) PeerSession \<Rightarrow> ('pk, 'a, 't) PeerSession \<Rightarrow> bool" for env where
  ApiSend: "api_step env s (snd (SendPacket env p opts s))"
| ApiClose: "api_step env s (snd (session_Close env nl s))"
| ApiCodec: "api_step env s (SetCodec codec s)"
| ApiHandler: "h \<noteq> Some HandshakeHandler \<Longrightarrow> api_step env s (s\<lparr>ps_handler := h\<rparr>)"
| ApiCompression: "api_step env s (SetOutCompression t s)"
| ApiEncoder: "api_step env s (s\<lparr>ps_outbound := (ps_outbound s)\<lparr>oq_has_encoder := x\<rparr>\<rparr>)"

definition app_uses_api :: "('pk, 'a, 't) session_env \<Rightarrow> bool" where
  "app_uses_api env \<longleftrightarrow> (\<forall>a s. (api_step env)\<^sup>*\<^sup>* s (env_app env a s))"

inductive session_step :: "('pk, 'a, 't) session_env \<Rightarrow> ('pk, 'a, 't) PeerSession \<Rightarrow> ('pk, 'a, 't) PeerSession \<Rightarrow> bool" for env where
  Api: "api_step env s s' \<Longrightarrow> session_step env s s'"
| Tick: "Process env s = Processed worked s' \<Longrightarrow> session_step env s s'"
| Drain: "DrainOutbound env s = (encoded, s') \<Longrightarrow> session_step env s s'"
| Wire: "session_step env s (s\<lparr>ps_transport := t\<rparr>)"

inductive_cases api_stepE: "api_step env s s'"
inductive_cases session_stepE: "session_step env s s'"

lemma good_api_step: "api_step env s s' \<Longrightarrow> good s0 s \<Longrightarrow> good s0 s'"
proof (induction rule: api_step.induct)
  case (ApiSend s p opts)
  then show ?case
    by (auto simp: SendPacket_def Let_def good_def session_typed_def case_prod_beta split: option.split)
qed (auto simp: good_def session_typed_def SetCodec_def SetOutCompression_def session_Close_fields)

lemma good_api_steps: "(api_step env)\<^sup>*\<^sup>* s s' \<Longrightarrow> good s0 s \<Longrightarrow> good s0 s'"
  by (induction rule: rtranclp_induct) (auto dest: good_api_step)

lemma good_Handle:
  assumes "hkdf_law (env_ssl env)" and "app_uses_api env" and "good s0 s"
  shows "good s0 (Handle env h p s)"
proof -
  have "good s0 (env_app env a s)" for a
    by (rule good_api_steps [of env, OF _ assms(3)]) (use assms(2) in \<open>simp add: app_uses_api_def\<close>)
  then show ?thesis
    using good_OnHandshakePacket [OF assms(1,3)] good_OnAcknowledgePacket [OF assms(3)] assms(3)
    by (cases h; cases p) (simp_all add: Handle_def)
qed

text \<open>What every packet's handler keeps, decoding a buffer keeps.\<close>

definition decoded_state :: "'s decoded \<Rightarrow> 's" where
  "decoded_state r = (case r of Decoded _ s \<Rightarrow> s | Crashed s \<Rightarrow> s)"

lemma decode_frame_invariant:
  assumes "\<And>p s. I s \<Longrightarrow> I (H p s)" and "I s"
  shows "case decode_frame codec H alive b st s of Continue _ _ s' \<Rightarrow> I s' | Break _ s' \<Rightarrow> I s' | UseAfterFree s' \<Rightarrow> I s'"
proof -
  have "case decode_payload codec H alive pid sz b' st s of Continue _ _ s' \<Rightarrow> I s' | Break _ s' \<Rightarrow> I s' | UseAfterFree s' \<Rightarrow> I s'" for pid sz b'
    using assms by (auto simp: decode_payload_def Let_def case_prod_beta split: option.split)
  then show ?thesis using assms(2) by (simp add: decode_frame_def Let_def case_prod_beta)
qed

lemma Codec_Deserialize_invariant:
  assumes "\<And>p s. I s \<Longrightarrow> I (H p s)" and "I s" and "Codec_Deserialize codec H alive b s = Some r"
  shows "I (decoded_state r)"
proof -
  have "I s \<Longrightarrow> decode_frames n codec H alive b st s = Some r \<Longrightarrow> I (decoded_state r)" for n b st s
  proof (induction n arbitrary: b st s)
    case (Suc n)
    note f = decode_frame_invariant [of I H, OF assms(1) Suc.prems(1), of codec alive b st]
    show ?case
      using Suc.prems f Suc.IH
      by (cases "decode_frame codec H alive b st s") (auto simp: decoded_state_def split: if_splits)
  qed simp
  then show ?thesis using assms(2,3) unfolding Codec_Deserialize_def by blast
qed

section \<open>Ticks\<close>

lemma Decode_good:
  assumes "good s0 s" and "Decode ssl z b (ps_encryption s) = (m, el)" and "ps_encryption s' = el"
    and "ps_is_ready s' = ps_is_ready s" and "ps_outbound s' = ps_outbound s"
  shows "good s0 s'"
  using good_layer [OF assms(1) _ _ assms(3-5)] Decode_typed [OF session_goodD [OF assms(1)], of ssl z b] assms(2) by simp

lemma good_receive_messages:
  assumes "hkdf_law (env_ssl env)" and "app_uses_api env"
  shows "good s0 s \<Longrightarrow> receive_messages n env worked s = Processed worked' s' \<Longrightarrow> good s0 s'"
proof (induction n arbitrary: s worked)
  case (Suc n)
  note g = Suc.prems(1)
  show ?case
  proof (cases "ps_handler s = None \<or> mp_codec (ps_pipeline s) = None \<or> ps_transport s = None")
    case True
    then show ?thesis using Suc.prems by (auto split: option.splits)
  next
    case False
    then obtain h codec t where c: "ps_handler s = Some h" "mp_codec (ps_pipeline s) = Some codec" "ps_transport s = Some t" by auto
    obtain rb t1 where r: "tl_Receive (env_transport env) t = (rb, t1)" by fastforce
    define s1 where "s1 = s\<lparr>ps_transport := Some t1\<rparr>"
    have g1: "good s0 s1" by (rule good_unchanged [OF g]) (simp_all add: s1_def)
    show ?thesis
    proof (cases rb)
      case None
      then show ?thesis using Suc.prems(2) c r g1 by (simp add: s1_def)
    next
      case (Some b)
      obtain pl el where d: "Decode (env_ssl env) (env_build env) b (ps_encryption s) = (pl, el)" by fastforce
      define s2 where "s2 = s1\<lparr>ps_encryption := el\<rparr>"
      have g2: "good s0 s2" by (rule Decode_good [OF g1, of "env_ssl env" "env_build env" b pl el]) (simp_all add: s1_def s2_def d)
      show ?thesis
      proof (cases pl)
        case None
        then have "receive_messages n env True s2 = Processed worked' s'" using Suc.prems(2) c r d Some by (simp add: s1_def s2_def)
        then show ?thesis by (rule Suc.IH [OF g2])
      next
        case (Some m)
        have inv: "good s0 x \<Longrightarrow> good s0 (Handle env h p x)" for p x by (rule good_Handle [OF assms])
        obtain stats s3 where ds: "Codec_Deserialize codec (Handle env h) (codec_alive h) m s2 = Some (Decoded stats s3)"
          using Suc.prems(2) c r d Some \<open>rb = Some b\<close> by (auto simp: s1_def s2_def split: option.splits decoded.splits)
        have g3: "good s0 s3"
          using Codec_Deserialize_invariant [of "good s0" "Handle env h", OF inv g2 ds] by (simp add: decoded_state_def)
        define s4 where "s4 = s3\<lparr>ps_invalid_frames := ps_invalid_frames s3 + ucast (ds_invalid_frames stats)\<rparr>"
        have g4: "good s0 s4" by (rule good_unchanged [OF g3]) (simp_all add: s4_def)
        consider "s' = snd (session_Close env True s4)" | "receive_messages n env True s4 = Processed worked' s'"
          | "receive_messages n env True s3 = Processed worked' s'"
          using Suc.prems(2) c r d Some \<open>rb = Some b\<close> ds by (auto simp: s1_def s2_def s4_def Let_def split: if_splits)
        then show ?thesis by cases (use good_Close [OF g4] Suc.IH [OF g4] Suc.IH [OF g3] in blast)+
      qed
    qed
  qed
qed simp

lemma good_outbound: "good s0 s \<Longrightarrow> ps_is_ready s \<Longrightarrow> good s0 (s\<lparr>ps_outbound := q\<rparr>)"
  by (simp add: good_def session_typed_def)

lemma good_drain_items:
  "good s0 s \<Longrightarrow> ps_is_ready s \<Longrightarrow> good s0 (snd (drain_items n env s)) \<and> ps_is_ready (snd (drain_items n env s))"
proof (induction n arbitrary: s)
  case (Suc n)
  obtain i q where p: "Pop (oq_queue (ps_outbound s)) = (i, q)" by fastforce
  define s1 where "s1 = s\<lparr>ps_outbound := (ps_outbound s)\<lparr>oq_queue := q\<rparr>\<rparr>"
  have s1: "good s0 s1" "ps_is_ready s1" using good_outbound [OF Suc.prems] Suc.prems(2) by (simp_all add: s1_def)
  show ?case
  proof (cases i)
    case None
    then show ?thesis using s1 p by (simp add: s1_def)
  next
    case (Some item)
    define s2 where "s2 = snd (EncodeAndSend env (oi_packet item) (oi_options item) s1)"
    have "good s0 s2" "ps_is_ready s2" using good_EncodeAndSend [OF s1(1)] s1(2) by (simp_all add: s2_def EncodeAndSend_fields)
    then show ?thesis using Suc.IH [of s1] Suc.IH [of s2] s1 p Some by (simp add: s1_def [symmetric] s2_def case_prod_beta Let_def)
  qed
qed simp

lemma good_DrainOutbound:
  assumes "good s0 s"
  shows "good s0 (snd (DrainOutbound env s))"
proof (cases "ps_is_ready s")
  case True
  let ?s1 = "s\<lparr>ps_outbound := (ps_outbound s)\<lparr>oq_encoding := True\<rparr>\<rparr>"
  have "good s0 (snd (drain_items n env ?s1)) \<and> ps_is_ready (snd (drain_items n env ?s1))" for n
    by (rule good_drain_items) (use good_outbound [OF assms True] True in simp_all)
  then have "good s0 ((snd (drain_items n env ?s1))\<lparr>ps_outbound := q\<rparr>)" for n q using good_outbound by blast
  then show ?thesis using assms by (simp add: DrainOutbound_def case_prod_beta Let_def del: drain_items.simps)
next
  case False
  then obtain cap where q: "oq_queue (ps_outbound s) = MpscQueue_new cap" "\<not> oq_encoding (ps_outbound s)"
    using assms by (auto simp: good_def session_typed_def)
  have "DrainOutbound env s = (False, s)"
    by (rule DrainOutbound_empty [of 0]) (use q mpsc_ok_new [of 0 cap] in \<open>simp_all add: queue_ok_def queued_def\<close>)
  then show ?thesis using assms by simp
qed

lemma good_Process:
  assumes "hkdf_law (env_ssl env)" and "app_uses_api env" and "good s0 s" and "Process env s = Processed worked s'"
  shows "good s0 s'"
proof (cases "IsAlive env s")
  case True
  define s1 where "s1 = s\<lparr>ps_transport := map_option (tl_Update (env_transport env)) (ps_transport s)\<rparr>"
  have g1: "good s0 s1" by (rule good_unchanged [OF assms(3)]) (simp_all add: s1_def)
  obtain w s2 where r: "receive_messages kMaxReceivesPerProcess env False s1 = Processed w s2"
    using assms(4) True by (cases "receive_messages kMaxReceivesPerProcess env False s1") (simp_all add: Process_def s1_def)
  note g2 = good_receive_messages [OF assms(1,2) g1 r]
  define s3 where "s3 = snd (if ShouldEncodeInline (ps_outbound s2) \<or> \<not> IsAlive env s2 then DrainOutbound env s2 else (False, s2))"
  have g3: "good s0 s3" using g2 good_DrainOutbound [OF g2] by (simp add: s3_def)
  have "s' = s3 \<or> s' = s3\<lparr>ps_transport := map_option (tl_Flush (env_transport env)) (ps_transport s3)\<rparr>"
    using assms(4) True r by (auto simp: Process_def s1_def s3_def Let_def case_prod_beta split: if_splits)
  moreover have "good s0 (s3\<lparr>ps_transport := map_option (tl_Flush (env_transport env)) (ps_transport s3)\<rparr>)"
    by (rule good_unchanged [OF g3]) simp_all
  ultimately show ?thesis using g3 by blast
qed (use assms(3,4) in \<open>simp add: Process_def\<close>)

lemma good_session_steps:
  assumes "hkdf_law (env_ssl env)" and "app_uses_api env" and "(session_step env)\<^sup>*\<^sup>* s s'" and "good s0 s"
  shows "good s0 s'"
  using assms(3,4)
proof (induction rule: rtranclp_induct)
  case (step y z)
  from step.hyps(2) show ?case
  proof cases
    case Api
    then show ?thesis using good_api_step step by blast
  next
    case (Tick worked)
    then show ?thesis using good_Process [OF assms(1,2)] step by blast
  next
    case (Drain encoded)
    then show ?thesis using good_DrainOutbound [of s0 y env] step by simp
  next
    case (Wire t)
    then show ?thesis using good_unchanged [of s0 y z] step by simp
  qed
qed

lemma good_new:
  fixes env :: "('pk, 'a, 't) session_env"
  shows "good (PeerSession_new env key t is_init options) (PeerSession_new env key t is_init options)"
proof -
  have el: "layer_typed ((EncryptionLayer_fields key)\<lparr>el_want_encryption := x\<rparr>)" for x
    by (simp add: layer_typed_def layer_ok_def EncryptionLayer_fields_def kNonceSaltLen_def)
  have self: "good x x" if "session_typed x" for x :: "('pk, 'a, 't) PeerSession" using that by (simp add: good_def)
  define b :: "bool \<Rightarrow> ('pk, 'a, 't) PeerSession" where "b = (\<lambda>i. \<lparr>ps_is_initiator = i, ps_handler = None, ps_transport = t,
      ps_pipeline = MessagePipeline_new, ps_encryption = EncryptionLayer_fields key,
      ps_options = options, ps_negotiated_compression = CompressionNone, ps_is_ready = False,
      ps_invalid_frames = 0, ps_outbound = OutboundQueue_new (send_queue_capacity options)\<rparr>)"
  define x1 where "x1 = (if key = None then snd (session_Close env False (b is_init))
      else SetCodec (Some (handshake_codec (env_ssl env))) ((b is_init)\<lparr>ps_handler := Some HandshakeHandler\<rparr>))"
  define x where "x = upd_encryption (\<lambda>el. el\<lparr>el_want_encryption := opt_encryption options\<rparr>)
      (x1\<lparr>ps_pipeline := (ps_pipeline x1)\<lparr>mp_compression_threshold := compression_threshold options\<rparr>,
          ps_negotiated_compression := (if is_init then CompressionNone
             else ResolveCompressionType (env_build env) (opt_compression options))\<rparr>)"
  have x: "PeerSession_new env key t is_init options = (if is_init then SendHandshake env x else x)"
    by (simp only: PeerSession_new_def Let_def x_def x1_def b_def)
  have "\<not> ps_is_ready x1 \<and> ps_outbound x1 = OutboundQueue_new (send_queue_capacity options) \<and> ps_encryption x1 = EncryptionLayer_fields key"
    by (simp add: x1_def session_Close_fields SetCodec_def b_def)
  then have "\<not> ps_is_ready x" "ps_outbound x = OutboundQueue_new (send_queue_capacity options)"
      "ps_encryption x = (EncryptionLayer_fields key)\<lparr>el_want_encryption := opt_encryption options\<rparr>"
    by (simp_all add: x_def upd_encryption_def)
  then have "session_typed x" using el by (auto simp: session_typed_def OutboundQueue_new_def)
  then have "session_typed (if is_init then SendHandshake env x else x)"
    using good_SendHandshake [OF self [of x], of env] by (simp add: good_def)
  then show ?thesis unfolding x by (rule self)
qed

section \<open>Draining in order\<close>

definition encode_item :: "('pk, 'a, 't) session_env \<Rightarrow> ('pk, 'a) OutItem \<Rightarrow> ('pk, 'a, 't) PeerSession \<Rightarrow> ('pk, 'a, 't) PeerSession" where
  "encode_item env item s = (if IsAlive env s then snd (EncodeAndSend env (oi_packet item) (oi_options item) s) else s)"

lemma encode_item_outbound:
  "encode_item env i (s\<lparr>ps_outbound := x\<rparr>) = (encode_item env i s)\<lparr>ps_outbound := x\<rparr>"
  "ps_outbound (encode_item env i s) = ps_outbound s"
  by (simp_all add: encode_item_def IsAlive_def EncodeAndSend_def Let_def case_prod_beta split: option.split)

lemma fold_encode_outbound:
  "fold (encode_item env) is (s\<lparr>ps_outbound := x\<rparr>) = (fold (encode_item env) is s)\<lparr>ps_outbound := x\<rparr>"
  by (induction "is" arbitrary: s) (simp_all add: encode_item_outbound(1))

text \<open>A drain encodes what is queued, each item once and in order, and leaves the queue empty.\<close>

lemma drain_items_all:
  assumes "mpsc_ok (oq_queue (ps_outbound s)) k" and "length (mpsc_contents (oq_queue (ps_outbound s))) < n"
  shows "\<exists>q. snd (drain_items n env s) = (fold (encode_item env) (mpsc_contents (oq_queue (ps_outbound s))) s)\<lparr>ps_outbound := (ps_outbound s)\<lparr>oq_queue := q\<rparr>\<rparr>
    \<and> mpsc_ok q k \<and> mpsc_contents q = [] \<and> capacity q = capacity (oq_queue (ps_outbound s))"
  using assms
proof (induction n arbitrary: s)
  case (Suc n)
  let ?q = "oq_queue (ps_outbound s)"
  show ?case
  proof (cases "mpsc_contents ?q")
    case Nil
    then have "Pop ?q = (None, ?q)" using mpsc.pop_nil [OF Suc.prems(1)] by simp
    then show ?thesis using Nil Suc.prems(1) by (intro exI [of _ ?q]) simp
  next
    case (Cons i rest)
    obtain q1 where p: "Pop ?q = (Some i, q1)" "mpsc_contents q1 = rest" "mpsc_ok q1 k" "capacity q1 = capacity ?q"
      using mpsc.pop_cons [OF Suc.prems(1) Cons] by (cases "Pop ?q") auto
    define s1 where "s1 = s\<lparr>ps_outbound := (ps_outbound s)\<lparr>oq_queue := q1\<rparr>\<rparr>"
    define s2 where "s2 = encode_item env i s1"
    have o2: "ps_outbound s2 = (ps_outbound s)\<lparr>oq_queue := q1\<rparr>" by (simp add: s2_def encode_item_outbound s1_def)
    have d: "snd (drain_items (Suc n) env s) = snd (drain_items n env s2)"
      using p(1) by (simp add: s1_def [symmetric] s2_def encode_item_def case_prod_beta Let_def)
    obtain q where q: "snd (drain_items n env s2) = (fold (encode_item env) rest s2)\<lparr>ps_outbound := (ps_outbound s2)\<lparr>oq_queue := q\<rparr>\<rparr>"
        "mpsc_ok q k" "mpsc_contents q = []" "capacity q = capacity q1"
      using Suc.IH [of s2] p(2,3) Suc.prems(2) Cons unfolding o2 by auto
    have "fold (encode_item env) rest s2 = (fold (encode_item env) (i # rest) s)\<lparr>ps_outbound := (ps_outbound s)\<lparr>oq_queue := q1\<rparr>\<rparr>"
      by (simp add: s2_def s1_def encode_item_outbound(1) fold_encode_outbound)
    then show ?thesis unfolding d q(1) Cons using q p(4) by (intro exI [of _ q]) (simp add: o2)
  qed
qed simp

lemma DrainOutbound_all:
  assumes "queue_ok k s"
  shows "\<exists>q. snd (DrainOutbound env s) = (fold (encode_item env) (queued s) s)\<lparr>ps_outbound := (ps_outbound s)\<lparr>oq_queue := q\<rparr>\<rparr>
    \<and> mpsc_ok q k \<and> mpsc_contents q = []"
proof -
  let ?s1 = "s\<lparr>ps_outbound := (ps_outbound s)\<lparr>oq_encoding := True\<rparr>\<rparr>" and ?q = "oq_queue (ps_outbound s)"
  have ok: "mpsc_ok ?q k" "\<not> oq_encoding (ps_outbound s)" using assms by (simp_all add: queue_ok_def)
  have "length (mpsc_contents ?q) < Suc (capacity ?q)" using mpsc_contents_bounded [OF ok(1)] by simp
  then obtain q where q: "snd (drain_items (Suc (capacity ?q)) env ?s1)
      = (fold (encode_item env) (mpsc_contents ?q) ?s1)\<lparr>ps_outbound := (ps_outbound ?s1)\<lparr>oq_queue := q\<rparr>\<rparr>"
      "mpsc_ok q k" "mpsc_contents q = []"
    using drain_items_all [of ?s1 k "Suc (capacity ?q)" env] ok(1) by auto
  have "(ps_outbound s)\<lparr>oq_queue := q, oq_encoding := False\<rparr> = (ps_outbound s)\<lparr>oq_queue := q\<rparr>"
    using ok(2) by (cases "ps_outbound s") simp
  then show ?thesis
    using q ok(2) by (intro exI [of _ q]) (simp add: DrainOutbound_def case_prod_beta Let_def queued_def fold_encode_outbound del: drain_items.simps)
qed

section \<open>The guarantees of a session\<close>

lemma set_wire_step: "(session_step env)\<^sup>*\<^sup>* s (set_wire f s)"
  unfolding set_wire_def by (rule r_into_rtranclp) (rule Wire)

lemma Process_steps: "processed_session (Process env s) = Some s' \<Longrightarrow> (session_step env)\<^sup>*\<^sup>* s s'"
  by (auto simp: processed_session_def intro: Tick split: processed.splits)

lemma Pump_steps:
  assumes "Pump env (c, s) = Some (c', s')"
  shows "(session_step env)\<^sup>*\<^sup>* c c'" and "(session_step env)\<^sup>*\<^sup>* s s'"
proof -
  define s1 where "s1 = set_wire (\<lambda>t. t\<lparr>ft_inbox := ft_inbox t @ sent_buffers c\<rparr>) s"
  define c1 where "c1 = set_wire (\<lambda>t. t\<lparr>ft_sent := []\<rparr>) c"
  define c2 where "c2 = set_wire (\<lambda>t. t\<lparr>ft_inbox := ft_inbox t @ sent_buffers s1\<rparr>) c1"
  define s2 where "s2 = set_wire (\<lambda>t. t\<lparr>ft_sent := []\<rparr>) s1"
  have "processed_session (Process env c2) = Some c'" "processed_session (Process env s2) = Some s'"
    using assms by (auto simp: Pump_def Let_def s1_def s2_def c1_def c2_def split: option.splits)
  moreover have "(session_step env)\<^sup>*\<^sup>* c c2" "(session_step env)\<^sup>*\<^sup>* s s2"
    unfolding c2_def c1_def s2_def s1_def using rtranclp_trans [OF set_wire_step set_wire_step] by blast+
  ultimately show "(session_step env)\<^sup>*\<^sup>* c c'" "(session_step env)\<^sup>*\<^sup>* s s'" by (auto dest: Process_steps)
qed

lemma Pump_rounds_steps:
  "Pump_rounds n env (c, s) = Some (c', s') \<Longrightarrow> (session_step env)\<^sup>*\<^sup>* c c' \<and> (session_step env)\<^sup>*\<^sup>* s s'"
proof (induction n arbitrary: c s)
  case (Suc n)
  then obtain c1 s1 where "Pump env (c, s) = Some (c1, s1)" "Pump_rounds n env (c1, s1) = Some (c', s')"
    by (auto split: option.splits)
  then show ?case using Pump_steps Suc.IH by (meson rtranclp_trans)
qed simp

text \<open>
  C7. The state of a session keeps its type: whatever the peer sends, the transport does and
  the application calls, keys and salts have their sizes, a cipher context that counts as
  keyed holds the key of its direction, no counter is past its last value, encryption is on
  only with keys and after the ready message, keys exist only once the mode is negotiated,
  and until the session is ready the queue of outgoing packets is the empty one it was
  created with.
\<close>

theorem session_well_typed:
  assumes "hkdf_law (env_ssl env)" and "app_uses_api env"
    and "(session_step env)\<^sup>*\<^sup>* (PeerSession_new env key t is_init options) s"
  shows "session_typed s"
  using good_session_steps [OF assms good_new] by (simp add: good_def)

lemma sample_env_laws: "hkdf_law (env_ssl sample_env)" "app_uses_api sample_env" "gcm_law (env_ssl sample_env)"
  using sample_hkdf sample_gcm by (simp_all add: sample_env_def app_uses_api_def)

lemma sample_ready:
  obtains client where "(session_step sample_env)\<^sup>*\<^sup>*
      (PeerSession_new sample_env (Some (Inl 5)) (Some FakeTransport_new) True CommonOptions_default) client"
    and "el_key_filled (ps_encryption client)" and "el_enable_encryption (ps_encryption client)" and "ps_is_ready client"
proof -
  have 1: "gcm_law (env_ssl sample_env)" "hkdf_law (env_ssl sample_env)" "digest_law (env_ssl sample_env)" "build_ok (env_build sample_env)"
    "env_transport sample_env = fake_transport" "key_agreement (env_ssl sample_env) (Inl 5) (Inl 7)"
    using sample_gcm sample_hkdf sample_agreement by (simp_all add: sample_env_def build_ok_def)
  have "compression_of_raw (GetCompressionTypeRaw (opt_compression CommonOptions_default)) = opt_compression CommonOptions_default"
    "opt_encryption CommonOptions_default"
    by (simp_all add: CommonOptions_default_def compression_of_raw_def GetCompressionTypeRaw_def)
  then obtain client server where "Pump_rounds 4 sample_env
      (PeerSession_new sample_env (Some (Inl 5)) (Some FakeTransport_new) True CommonOptions_default,
       PeerSession_new sample_env (Some (Inl 7)) (Some FakeTransport_new) False CommonOptions_default) = Some (client, server)"
      "ps_is_ready client" "el_key_filled (ps_encryption client)" "el_enable_encryption (ps_encryption client)"
    using exchange_completes [OF 1, of CommonOptions_default CommonOptions_default] by auto
  then show thesis using that Pump_rounds_steps by blast
qed

theorem session_well_typed_witness:
  "\<exists>s. (session_step sample_env)\<^sup>*\<^sup>*
      (PeerSession_new sample_env (Some (Inl 5)) (Some FakeTransport_new) True CommonOptions_default) s
     \<and> el_enable_encryption (ps_encryption s) \<and> session_typed s"
proof -
  obtain client where "(session_step sample_env)\<^sup>*\<^sup>*
      (PeerSession_new sample_env (Some (Inl 5)) (Some FakeTransport_new) True CommonOptions_default) client"
      "el_enable_encryption (ps_encryption client)"
    by (rule sample_ready)
  then show ?thesis using session_well_typed [OF sample_env_laws(1,2)] by blast
qed

text \<open>
  C3. No downgrade. Once a session has keys, every later state has the same keys, salts,
  exporter secret and peer key, and refuses every message that is not sealed with AES-GCM;
  once it encrypts, it goes on encrypting, and every message it puts out is sealed. A session
  that is ready stays ready. None of this depends on what the peer sends or the application
  calls.
\<close>

theorem no_downgrade:
  assumes "gcm_law (env_ssl env)" and "hkdf_law (env_ssl env)" and "app_uses_api env"
    and "(session_step env)\<^sup>*\<^sup>* (PeerSession_new env key t is_init options) s" and "(session_step env)\<^sup>*\<^sup>* s s'"
    and "el_key_filled (ps_encryption s)"
  shows "el_tx_key (ps_encryption s') = el_tx_key (ps_encryption s) \<and> el_rx_key (ps_encryption s') = el_rx_key (ps_encryption s)
      \<and> el_tx_salt (ps_encryption s') = el_tx_salt (ps_encryption s) \<and> el_rx_salt (ps_encryption s') = el_rx_salt (ps_encryption s)
      \<and> el_exporter_secret (ps_encryption s') = el_exporter_secret (ps_encryption s)
      \<and> el_peer_pkey (ps_encryption s') = el_peer_pkey (ps_encryption s)
      \<and> (\<forall>w. stream_ok w \<longrightarrow> contents w = [] \<or> hd (contents w) \<noteq> kModeAesGcm \<longrightarrow>
            fst (Decode (env_ssl env) (env_build env) w (ps_encryption s')) = None)
      \<and> (el_enable_encryption (ps_encryption s) \<longrightarrow> el_enable_encryption (ps_encryption s')
           \<and> (\<forall>b stream w el. stream_ok b \<longrightarrow> HandleOut (env_ssl env) b stream (ps_encryption s') = (Some w, el) \<longrightarrow>
                 contents w \<noteq> [] \<and> hd (contents w) = kModeAesGcm))
      \<and> (ps_is_ready s \<longrightarrow> ps_is_ready s')"
proof -
  have s: "good s s" using good_session_steps [OF assms(2-4) good_new] by (simp add: good_def)
  note g = good_session_steps [OF assms(2,3,5) s]
  have k: "keeps (ps_encryption s) (ps_encryption s')" "el_key_filled (ps_encryption s')" "layer_ok (ps_encryption s')"
    using g assms(6) by (auto simp: good_def session_typed_def layer_typed_def keeps_def)
  have "fst (Decode (env_ssl env) (env_build env) w (ps_encryption s')) = None"
    if "stream_ok w" "contents w = [] \<or> hd (contents w) \<noteq> kModeAesGcm" for w
    using HandleDecrypt_refused [OF that(1) k(2), of "env_ssl env"] that(2) by (auto simp: Decode_def HandleIn_def)
  moreover have "contents w \<noteq> [] \<and> hd (contents w) = kModeAesGcm"
    if "el_enable_encryption (ps_encryption s')" "stream_ok b" "HandleOut (env_ssl env) b stream (ps_encryption s') = (Some w, el)" for b stream w el
    by (rule HandleOut_cases [OF assms(1) k(3) that(1,2), of stream]) (use that(3) in simp_all)
  ultimately show ?thesis using k(1) g assms(6) unfolding keeps_def good_def by blast
qed

theorem no_downgrade_witness:
  "\<exists>s. el_key_filled (ps_encryption s) \<and> el_enable_encryption (ps_encryption (snd (session_Close sample_env False s)))
     \<and> el_tx_key (ps_encryption (snd (session_Close sample_env False s))) = el_tx_key (ps_encryption s)
     \<and> fst (Decode sample_ssl None sample_text (ps_encryption (snd (session_Close sample_env False s)))) = None"
proof -
  obtain client where c: "(session_step sample_env)\<^sup>*\<^sup>*
      (PeerSession_new sample_env (Some (Inl 5)) (Some FakeTransport_new) True CommonOptions_default) client"
      "el_key_filled (ps_encryption client)" "el_enable_encryption (ps_encryption client)"
    by (rule sample_ready)
  have "(session_step sample_env)\<^sup>*\<^sup>* client (snd (session_Close sample_env False client))"
    by (intro r_into_rtranclp Api ApiClose)
  from no_downgrade [OF sample_env_laws(3,1,2) c(1) this c(2)] c(2,3) sample_text show ?thesis
    by (intro exI [of _ client]) (simp add: sample_env_def kModeAesGcm_def)
qed

end
