(* ===== verification/Session_Delivery.thy ===== *)
theory Session_Delivery
  imports Session_Guarantees
begin

text \<open>
  A packet's way through two sessions, from \<open>SendPacket\<close> of the one to the application's
  handler of the other, through the queue, the codec, the compression, the cipher and the
  transport; and what a second frame behind the ready frame does to the end that has just
  released its codec.
\<close>

section \<open>A concrete application\<close>

definition byte_serializer :: "('pk, u8) Packet PacketSerializer" where
  "byte_serializer = \<lparr>
     ser_Serialize = (\<lambda>p b. case p of AppPacket x \<Rightarrow> (WriteInt default_new x b, Some None) | _ \<Rightarrow> (b, None)),
     ser_Deserialize = (\<lambda>b. let (x, b1) = ReadInt b in (Some (AppPacket x), b1))\<rparr>"

definition byte_codec :: "('pk, u8) Packet Codec" where
  "byte_codec = Codec_Add 1 byte_serializer Codec_new"

lemma byte_carries: "carries (byte_codec :: ('pk, u8) Packet Codec) 1 (AppPacket x) (AppPacket x) [x]"
proof -
  have "parses LittleEndian (ser_Deserialize (byte_serializer :: ('pk, u8) Packet PacketSerializer)) (Some (AppPacket x)) ([x] @ [])"
    unfolding byte_serializer_def PacketSerializer.simps
    by (rule parses_bind [OF _ parses_ret]) (use parses_ReadInt [of LittleEndian x] in simp)
  moreover have "serializes (byte_serializer :: ('pk, u8) Packet PacketSerializer) (AppPacket x) [x]"
    using heap.emits_WriteInt [of LittleEndian x] by (simp add: serializes_def byte_serializer_def)
  ultimately show ?thesis by (simp add: carries_def byte_codec_def Codec_Add_def Codec_new_def)
qed

lemma byte_reads: "\<exists>g. reads_as (byte_codec :: ('pk, u8) Packet Codec) g"
proof -
  have "bytes_reader (ser_Deserialize (byte_serializer :: ('pk, u8) Packet PacketSerializer))"
    using bytes_reader_bind [OF bytes_reader_ReadInt [where 'a = 8] bytes_reader_ret(1), where v1 = "\<lambda>x. Some (AppPacket x)"]
    by (simp add: byte_serializer_def)
  then show ?thesis
    by (intro reads_as_ex) (auto simp: byte_codec_def Codec_Add_def Codec_new_def split: if_splits)
qed

section \<open>From one application to the other\<close>

lemma queued_push:
  assumes "queue_ok (Suc k) s" and "queued s = []"
  obtains q where "OutboundQueue_Push p opts (ps_outbound s) = ((True, True), q)"
    and "queue_ok k (s\<lparr>ps_outbound := q\<rparr>)" and "queued (s\<lparr>ps_outbound := q\<rparr>) = [\<lparr>oi_packet = p, oi_options = opts\<rparr>]"
proof -
  let ?q = "oq_queue (ps_outbound s)" and ?i = "\<lparr>oi_packet = p, oi_options = opts\<rparr>"
  have ok: "mpsc_ok ?q (Suc k)" "mpsc_contents ?q = []" using assms by (simp_all add: queue_ok_def queued_def)
  have "length (mpsc_contents ?q) < capacity ?q" using ok(2) by (simp add: capacity_def)
  note p = mpsc.push_room [OF ok(1) this, of ?i]
  obtain r q1 where q1: "Push ?i ?q = (r, q1)" by fastforce
  have "r = Pushed 0" "mpsc_contents q1 = [?i]" "mpsc_ok q1 k" using p q1 ok(2) by simp_all
  then show thesis
    using that [of "(ps_outbound s)\<lparr>oq_queue := q1\<rparr>"] q1 assms(1) by (simp add: OutboundQueue_Push_def queue_ok_def queued_def)
qed

text \<open>
  C1. A packet arrives. When the application of a ready session sends a packet, the next drain
  of its queue puts exactly one message on the transport; when that message reaches a session
  with matching keys, its handler is called with exactly that packet (as its codec reads it
  back), before anything else is received, and the two ends still match afterwards. This
  holds with and without encryption and compression, on every channel.
\<close>

theorem packet_end_to_end:
  fixes env :: "('pk, 'a, FakeTransport) session_env"
  assumes "gcm_law (env_ssl env)" and "build_ok (env_build env)" and "env_transport env = fake_transport"
    and "ps_is_ready C" and "ps_transport C = Some (wire [])" and "queue_ok (Suc k) C" and "queued C = []"
    and "mp_codec (ps_pipeline C) = Some ccodec"
    and "mp_out_compression (ps_pipeline C) = CompressionNone \<or> mp_out_compression (ps_pipeline C) = Zstandard"
    and "carries ccodec (env_app_id env a) (AppPacket a) q payload"
    and "carries scodec (env_app_id env a) (AppPacket a) (AppPacket a') payload" and "\<exists>g. reads_as scodec g"
    and "next_counter (GetOr_channel opts) (ps_encryption C) \<noteq> kMaxCounter"
    and "matched (ps_encryption C) (ps_encryption S)"
    and "ps_handler S = Some AppHandler" and "mp_codec (ps_pipeline S) = Some scodec" and "ps_transport S = Some t"
  shows "let (result, C1) = SendPacket env (Some (AppPacket a)) opts C; C2 = snd (DrainOutbound env C1)
    in result = Success \<and> queued C2 = []
      \<and> (\<exists>w B. sent_buffers C2 = [w] \<and> matched (ps_encryption C2) B
           \<and> (\<forall>n worked. receive_messages (Suc n) env worked (S\<lparr>ps_transport := Some (t\<lparr>ft_inbox := [w]\<rparr>)\<rparr>)
                = receive_messages n env True
                    (env_app env a' (S\<lparr>ps_transport := Some (t\<lparr>ft_inbox := []\<rparr>), ps_encryption := B\<rparr>))))"
proof -
  have id: "packet_id (env_app_id env) (AppPacket a :: ('pk, 'a) Packet) = env_app_id env a" by (simp add: packet_id_def)
  obtain qq where qq: "OutboundQueue_Push (AppPacket a) opts (ps_outbound C) = ((True, True), qq)" "queue_ok k (C\<lparr>ps_outbound := qq\<rparr>)"
      "queued (C\<lparr>ps_outbound := qq\<rparr>) = [\<lparr>oi_packet = AppPacket a, oi_options = opts\<rparr>]"
    by (rule queued_push [OF assms(6,7)])
  define C1 where "C1 = C\<lparr>ps_outbound := qq\<rparr>"
  have al: "IsAlive env C" "IsAlive env C1" using assms(3,5) by (simp_all add: IsAlive_def C1_def)
  have send: "SendPacket env (Some (AppPacket a)) opts C = (Success, C1)"
    using al(1) assms(4) qq(1) by (simp add: SendPacket_def C1_def)
  obtain w A' B where w: "Encode (env_ssl env) (env_build env) (packet_id (env_app_id env)) (ps_pipeline C) (AppPacket a)
      (GetOr_channel opts) (ps_encryption C) = (Some w, A')"
      "arrives env scodec w (ps_encryption S) (AppPacket a') B" "matched A' B"
    by (rule message_arrives [OF assms(1,2,14,13,8,9) assms(10,11) [folded id] assms(12)])
  obtain q2 where d: "snd (DrainOutbound env C1) = (fold (encode_item env) (queued C1) C1)\<lparr>ps_outbound := (ps_outbound C1)\<lparr>oq_queue := q2\<rparr>\<rparr>"
      "mpsc_contents q2 = []"
    using DrainOutbound_all [of k C1 env] qq(2) by (auto simp: C1_def)
  have e: "encode_item env \<lparr>oi_packet = AppPacket a, oi_options = opts\<rparr> C1
      = C1\<lparr>ps_encryption := A', ps_transport := Some ((wire [])\<lparr>ft_sent := [(w, GetOr_channel opts)]\<rparr>)\<rparr>"
    using al(2) w(1) assms(3,5) by (simp add: encode_item_def EncodeAndSend_def C1_def wire_def)
  define C2 where "C2 = snd (DrainOutbound env C1)"
  have C2: "queued C2 = []" "sent_buffers C2 = [w]" "ps_encryption C2 = A'"
    using d(2) qq(3) by (simp_all add: C2_def d(1) C1_def [symmetric] e queued_def sent_buffers_def)
  let ?S = "S\<lparr>ps_transport := Some (t\<lparr>ft_inbox := [w]\<rparr>)\<rparr>"
  have r: "receive_messages (Suc n) env worked ?S = receive_messages n env True
        (env_app env a' (S\<lparr>ps_transport := Some (t\<lparr>ft_inbox := []\<rparr>), ps_encryption := B\<rparr>))" for n worked
    using receive_arrived [of ?S AppHandler scodec "t\<lparr>ft_inbox := [w]\<rparr>" env w "t\<lparr>ft_inbox := []\<rparr>" "AppPacket a'" B n worked]
      assms(3,15,16) w(2) by (simp add: Handle_def)
  show ?thesis
    unfolding send Let_def prod.case C2_def [symmetric] using C2 w(3) r by blast
qed

definition sample_peer :: "(u8 + u8, u8) fake_session" where
  "sample_peer = (base_session sample_env True CommonOptions_default)\<lparr>ps_handler := Some AppHandler, ps_transport := Some (wire []),
     ps_pipeline := \<lparr>mp_codec = Some byte_codec, mp_out_compression = CompressionNone, mp_compression_threshold = 128\<rparr>,
     ps_encryption := sample_sender, ps_is_ready := True\<rparr>"

lemma sample_peer:
  "ps_is_ready sample_peer" "ps_transport sample_peer = Some (wire [])" "queue_ok (Suc 0) sample_peer" "queued sample_peer = []"
  "mp_codec (ps_pipeline sample_peer) = Some byte_codec" "mp_out_compression (ps_pipeline sample_peer) = CompressionNone"
  "matched (ps_encryption sample_peer) (ps_encryption sample_peer)" "ps_handler sample_peer = Some AppHandler"
  "next_counter c (ps_encryption sample_peer) \<noteq> kMaxCounter"
proof -
  show "matched (ps_encryption sample_peer) (ps_encryption sample_peer)"
    by (rule settled_matched) (simp_all add: sample_peer_def sample_sender)
  show "next_counter c (ps_encryption sample_peer) \<noteq> kMaxCounter"
    by (rule fresh_counter) (simp add: sample_peer_def sample_sender)
qed (use mpsc_ok_new [of "Suc 0"] in \<open>simp_all add: sample_peer_def base_session_def queue_ok_def queued_def OutboundQueue_new_def\<close>)

theorem packet_end_to_end_witness:
  "let (result, C1) = SendPacket sample_env (Some (AppPacket 65)) SendOptions_default sample_peer; C2 = snd (DrainOutbound sample_env C1)
    in result = Success \<and> queued C2 = [] \<and> length (sent_buffers C2) = 1"
proof -
  have laws: "build_ok (env_build sample_env)" "env_transport sample_env = fake_transport"
    by (simp_all add: sample_env_def build_ok_def)
  have carry: "carries byte_codec (env_app_id sample_env 65) (AppPacket 65 :: (u8 + u8, u8) Packet) (AppPacket 65) [65]"
    using byte_carries by (simp add: sample_env_def)
  note e = packet_end_to_end [OF sample_env_laws(3) laws sample_peer(1-5) disjI1 [OF sample_peer(6)] carry carry byte_reads
      sample_peer(9,7,8,5,2), of SendOptions_default]
  show ?thesis using e unfolding Let_def case_prod_beta by auto
qed

section \<open>A frame behind the ready frame\<close>

lemma decode_frame_dead:
  assumes "message_buffer b" and "contents b = frame pid payload @ rest" and "length payload < 2 ^ 32" and "\<not> alive s"
  shows "decode_frame codec H alive b st s = UseAfterFree s"
proof -
  note h = read_header [OF assms(1-3)]
  define b3 where "b3 = cursor_at (header_len pid) NoBufferError b"
  have b3: "message_buffer b3" "contents b3 = payload @ rest"
    using h(3,4) by (simp_all add: b3_def)
  have clr: "GetAndClearLastError b3 = (NoBufferError, b3)"
    using b3(1) by (simp add: GetAndClearLastError_def message_buffer_def set_error_def)
  have "unat (word_of_nat (length payload) :: u32) = length payload" using assms(3) by (simp add: unat_of_nat_small)
  moreover have "length payload \<le> readable_bytes b3" using b3 length_contents [of b3] by (simp add: message_buffer_def)
  ultimately show ?thesis using h(1,2) clr assms(4) by (simp add: decode_frame_def decode_payload_def b3_def [symmetric])
qed

lemma ready_releases_codec:
  assumes "el_negotiated (ps_encryption s)"
  shows "\<not> codec_alive HandshakeHandler (Handle env HandshakeHandler (ConnectionReady kReadyMagic) s)"
  using assms by (simp add: codec_alive_def Handle_def OnAcknowledgePacket_def Ready_def SetCodec_def SetOutCompression_def Let_def)

text \<open>
  C38. A frame behind the ready frame. When the message that carries the peer's ready frame
  carries another frame behind it, whatever that frame is, the handler of the ready frame has
  released the codec and the loop that is still inside it goes on to look up the next
  serializer in the released object: the session does not survive the message. Either side
  can be made to do so by its peer, once the mode is negotiated.
\<close>

theorem ready_frame_use_after_free:
  fixes env :: "('pk, 'a, 't) session_env"
  assumes "ps_handler s = Some HandshakeHandler" and "mp_codec (ps_pipeline s) = Some (handshake_codec (env_ssl env))"
    and "ps_transport s = Some t" and "tl_Receive (env_transport env) t = (Some w, t1)"
    and "Decode (env_ssl env) (env_build env) w (ps_encryption s) = (Some b, el)" and "el_negotiated el" and "message_buffer b"
    and "contents b = frame ConnectionReadyPacketId (enc_string LittleEndian kReadyMagic) @ frame pid payload"
    and "length payload < 2 ^ 32"
  shows "\<exists>s'. receive_messages (Suc n) env worked s = ProcessCrashed s'"
proof -
  let ?codec = "handshake_codec (env_ssl env) :: ('pk, 'a) Packet Codec" and ?H = "Handle env HandshakeHandler" and ?al = "codec_alive HandshakeHandler"
  define s2 where "s2 = s\<lparr>ps_transport := Some t1, ps_encryption := el\<rparr>"
  have al: "?al s2" using assms(2) by (simp add: s2_def codec_alive_def)
  obtain g where g: "reads_as ?codec g" using handshake_reads by blast
  have g1: "g ConnectionReadyPacketId (enc_string LittleEndian kReadyMagic) NoBufferError
      = (Some (ConnectionReady kReadyMagic), length (enc_string LittleEndian kReadyMagic), NoBufferError)"
    using ready_wire g handshake_codec_entries(2) [of "env_ssl env"]
    by (intro parses_clean [of "ser_Deserialize ConnectionReadyPacketSerializerV1"]) (auto simp: reads_as_def)
  have len: "length (enc_string LittleEndian kReadyMagic) < 2 ^ 32" using ready_wire(2) by simp
  have en: "?codec ConnectionReadyPacketId = Some ConnectionReadyPacketSerializerV1" by (rule handshake_codec_entries(2))
  have disp: "dispatch_frame ?codec g ?H ConnectionReadyPacketId (enc_string LittleEndian kReadyMagic) s2 = ?H (ConnectionReady kReadyMagic) s2"
    "\<not> frame_refused ?codec g ConnectionReadyPacketId (enc_string LittleEndian kReadyMagic)"
    "clean (g ConnectionReadyPacketId (enc_string LittleEndian kReadyMagic) NoBufferError)"
    by (simp_all add: dispatch_frame_def frame_refused_def clean_def g1 en)
  obtain b' where b': "decode_frame ?codec ?H ?al b DecodeStats_init s2 = Continue b' DecodeStats_init (?H (ConnectionReady kReadyMagic) s2)"
      "message_buffer b'" "contents b' = frame pid payload"
    by (rule decode_frame_at [OF assms(7,8) len, where alive = ?al and codec = ?codec and g = g and s = s2 and Handle = ?H and st = DecodeStats_init,
          OF al g disp(3), unfolded disp(1)]) (simp add: disp(2))
  have dead: "\<not> ?al (?H (ConnectionReady kReadyMagic) s2)" by (rule ready_releases_codec) (simp add: s2_def assms(6))
  have d2: "decode_frame ?codec ?H ?al b' DecodeStats_init (?H (ConnectionReady kReadyMagic) s2) = UseAfterFree (?H (ConnectionReady kReadyMagic) s2)"
    by (rule decode_frame_dead [where alive = ?al and rest = "[]", OF b'(2) _ assms(9) dead]) (simp add: b'(3))
  have "0 < readable_bytes b'" "1 < readable_bytes b"
    using message_bytes [OF b'(2)] b'(3) message_bytes [OF assms(7)] assms(8) frame_nonempty(1,3) [of pid payload]
      frame_nonempty(1) [of ConnectionReadyPacketId "enc_string LittleEndian kReadyMagic"] by simp_all
  then obtain m where m: "readable_bytes b = Suc (Suc m)" by (metis less_imp_Suc_add plus_1_eq_Suc)
  have "Codec_Deserialize ?codec ?H ?al b s2 = Some (Crashed (?H (ConnectionReady kReadyMagic) s2))"
    unfolding Codec_Deserialize_def m using b'(1) d2 m \<open>0 < readable_bytes b'\<close> by simp
  then show ?thesis using assms(1-5) by (simp add: s2_def)
qed

text \<open>A plain message with a ready frame and an empty frame of an unknown packet behind it.\<close>

definition sample_attack :: Buffer where
  "sample_attack = Write default_new (kModePlaintext # 0
     # frame ConnectionReadyPacketId (enc_string LittleEndian kReadyMagic) @ frame 7 []) (Buffer_new LittleEndian)"

definition sample_victim :: "(u8 + u8, u8) fake_session" where
  "sample_victim = at_wire (base_session sample_env False CommonOptions_default) ((wire [])\<lparr>ft_inbox := [sample_attack]\<rparr>)
     ((EncryptionLayer_fields None)\<lparr>el_negotiated := True\<rparr>)"

lemma sample_attack:
  obtains b where "Decode sample_ssl None sample_attack (ps_encryption sample_victim) = (Some b, ps_encryption sample_victim)"
    and "message_buffer b" and "contents b = frame ConnectionReadyPacketId (enc_string LittleEndian kReadyMagic) @ frame 7 []"
proof -
  let ?m = "frame ConnectionReadyPacketId (enc_string LittleEndian kReadyMagic) @ frame 7 []"
  have "length ?m < 2 ^ 60"
    using ready_wire(2) length_enc_varint_le [of LittleEndian ConnectionReadyPacketId] length_enc_varint_le [of LittleEndian "7 :: u64"]
    by (simp add: frame_def)
  then have "length (kModePlaintext # 0 # ?m) < 2 ^ 61" by simp
  from message_of [OF this] have w: "message_buffer sample_attack" "contents sample_attack = kModePlaintext # 0 # ?m"
    by (simp_all add: sample_attack_def)
  have nk: "\<not> el_key_filled (ps_encryption sample_victim)" by (simp add: sample_victim_def EncryptionLayer_fields_def)
  obtain b1 where b1: "HandleIn sample_ssl sample_attack (ps_encryption sample_victim) = (Some b1, ps_encryption sample_victim)"
      "message_buffer b1" "contents b1 = 0 # ?m"
    by (rule HandleIn_plain [OF w nk])
  obtain b where b: "(ReadInt b1 :: u8 \<times> Buffer) = (0, b)" "message_buffer b" "contents b = ?m"
    by (rule ReadInt_byte [OF b1(2,3)])
  have "HandleInDynamic None b1 = Some b" using b(1) by (simp add: HandleInDynamic_def HandleInWithType_def compression_of_raw_def)
  then show thesis using that [OF _ b(2,3)] b1(1) by (simp add: Decode_def)
qed

theorem ready_frame_use_after_free_witness:
  "\<exists>s'. receive_messages 1 sample_env False sample_victim = ProcessCrashed s'"
proof -
  obtain b where b: "Decode sample_ssl None sample_attack (ps_encryption sample_victim) = (Some b, ps_encryption sample_victim)"
      "message_buffer b" "contents b = frame ConnectionReadyPacketId (enc_string LittleEndian kReadyMagic) @ frame 7 []"
    by (rule sample_attack)
  have v: "ps_handler sample_victim = Some HandshakeHandler" "mp_codec (ps_pipeline sample_victim) = Some (handshake_codec (env_ssl sample_env))"
    "ps_transport sample_victim = Some ((wire [])\<lparr>ft_inbox := [sample_attack]\<rparr>)" "el_negotiated (ps_encryption sample_victim)"
    by (simp_all add: sample_victim_def base_session_def)
  have r: "tl_Receive (env_transport sample_env) ((wire [])\<lparr>ft_inbox := [sample_attack]\<rparr>) = (Some sample_attack, wire [])"
    by (simp add: sample_env_def wire_def)
  have d: "Decode (env_ssl sample_env) (env_build sample_env) sample_attack (ps_encryption sample_victim) = (Some b, ps_encryption sample_victim)"
    using b(1) by (simp add: sample_env_def)
  have "length ([] :: bytes) < 2 ^ 32" by simp
  from ready_frame_use_after_free [OF v(1-3) r d v(4) b(2,3) this, of 0 False] show ?thesis by simp
qed

end
