(* ===== verification/Tcp_Transport.thy ===== *)
theory Tcp_Transport
  imports Message_Pipeline Zdt_Congestion
begin

text \<open>
  The TCP transport (\<open>backend/tcp.cc\<close>): frames with a two-byte length, control frames with a
  zero length, and the loops over short reads and short writes. The socket is the system's:
  \<open>sk_in\<close> lists what its next reads find, \<open>sk_sends\<close> how it answers the rounds of the write
  loop, \<open>sk_out\<close> the bytes it has taken. The write loop waits for as long as the socket stalls,
  so every operation that writes returns an option, whose \<open>None\<close> is a write that never ends.
\<close>

section \<open>The socket\<close>

datatype sock_in = Arrived bytes | PeerShutdown | ConnectionReset | RecvFailed

datatype send_step = Took nat | Stalled bool | SendBroken | ClosedMeanwhile

record tcp_socket =
  sk_in :: "sock_in list"
  sk_sends :: "nat \<Rightarrow> send_step"
  sk_turn :: nat
  sk_out :: bytes
  sk_shutdown :: bool

datatype received = Received bytes | WouldBlock | Reset | RecvError

text \<open>A read takes at most \<open>len\<close> bytes and leaves the rest for the next one.\<close>

definition SocketRecv :: "nat \<Rightarrow> tcp_socket \<Rightarrow> received \<times> tcp_socket" where
  "SocketRecv len sk =
     (case sk_in sk of
        [] \<Rightarrow> (WouldBlock, sk)
      | Arrived bs # rest \<Rightarrow>
          (Received (take len bs),
           sk\<lparr>sk_in := (if length bs \<le> len then rest else Arrived (drop len bs) # rest)\<rparr>)
      | PeerShutdown # rest \<Rightarrow> (Received [], sk)
      | ConnectionReset # rest \<Rightarrow> (Reset, sk\<lparr>sk_in := rest\<rparr>)
      | RecvFailed # rest \<Rightarrow> (RecvError, sk\<lparr>sk_in := rest\<rparr>))"

section \<open>The transport\<close>

record TCPTransportLayer =
  tcp_recv_buffer :: Buffer
  tcp_sock :: tcp_socket
  tcp_is_closed :: bool
  tcp_keepalive_interval :: int
  tcp_idle_timeout :: int
  tcp_last_recv :: TimePoint
  tcp_last_send :: TimePoint

definition TCPTransportLayer_new :: "tcp_socket \<Rightarrow> CommonOptions \<Rightarrow> TimePoint \<Rightarrow> TCPTransportLayer" where
  "TCPTransportLayer_new sk common now =
     \<lparr>tcp_recv_buffer = snd (ReserveExact default_new ZNET_MAX_BUFFER_SIZE (Buffer_new BigEndian)),
      tcp_sock = sk, tcp_is_closed = False, tcp_keepalive_interval = keepalive_interval common,
      tcp_idle_timeout = idle_timeout common, tcp_last_recv = now, tcp_last_send = now\<rparr>"

definition kControlPing :: u8 where "kControlPing = 1"
definition kControlPong :: u8 where "kControlPong = 2"

definition tcp_Close :: "TCPTransportLayer \<Rightarrow> Result \<times> TCPTransportLayer" where
  "tcp_Close tr =
     (if tcp_is_closed tr then (AlreadyDisconnected, tr)
      else (Success, tr\<lparr>tcp_is_closed := True, tcp_sock := (tcp_sock tr)\<lparr>sk_shutdown := True\<rparr>\<rparr>))"

datatype write_end = Wrote | WriteFailed | WriteClosed

partial_function (option) write_loop ::
  "(nat \<Rightarrow> send_step) \<Rightarrow> nat \<Rightarrow> bytes \<Rightarrow> bytes \<Rightarrow> (write_end \<times> nat \<times> bytes) option" where
  "write_loop sends i data out =
     (if data = [] then Some (Wrote, i, out)
      else case sends i of
        ClosedMeanwhile \<Rightarrow> Some (WriteClosed, Suc i, out)
      | Took n \<Rightarrow>
          if n > 0 then write_loop sends (Suc i) (drop n data) (out @ take n data)
          else Some (WriteFailed, Suc i, out)
      | Stalled ok \<Rightarrow>
          if ok then write_loop sends (Suc i) data out else Some (WriteFailed, Suc i, out)
      | SendBroken \<Rightarrow> Some (WriteFailed, Suc i, out))"

definition WriteAll :: "TimePoint \<Rightarrow> Buffer \<Rightarrow> TCPTransportLayer \<Rightarrow> (bool \<times> TCPTransportLayer) option" where
  "WriteAll now b tr =
     (let data = contents b; sk = tcp_sock tr
      in if data \<noteq> [] \<and> tcp_is_closed tr then Some (False, tr)
         else case write_loop (sk_sends sk) (sk_turn sk) data (sk_out sk) of
           None \<Rightarrow> None
         | Some (e, turn, out) \<Rightarrow>
             let tr1 = tr\<lparr>tcp_sock := sk\<lparr>sk_turn := turn, sk_out := out\<rparr>\<rparr>
             in Some (case e of
                  Wrote \<Rightarrow> (True, tr1\<lparr>tcp_last_send := now\<rparr>)
                | WriteFailed \<Rightarrow> (False, tr1)
                | WriteClosed \<Rightarrow> (False, snd (tcp_Close tr1))))"

definition tcp_SendControl :: "TimePoint \<Rightarrow> u8 \<Rightarrow> TCPTransportLayer \<Rightarrow> TCPTransportLayer option" where
  "tcp_SendControl now type tr =
     (if tcp_is_closed tr then Some tr
      else let frame = snd (ReserveExact default_new 3 (Buffer_new LittleEndian));
               frame = WriteInt default_new (0 :: u8) frame;
               frame = WriteInt default_new (0 :: u8) frame;
               frame = WriteInt default_new type frame
           in map_option snd (WriteAll now frame tr))"

definition HandleControl :: "TimePoint \<Rightarrow> u8 \<Rightarrow> TCPTransportLayer \<Rightarrow> TCPTransportLayer option" where
  "HandleControl now type tr =
     (if type = kControlPing then tcp_SendControl now kControlPong tr else Some tr)"

text \<open>
  A round of the loop of \<open>ReadBuffer\<close> that goes on has taken a control frame of three bytes, so
  the readable bytes bound the rounds (\<open>ReadBuffer_enough\<close>).
\<close>

primrec read_frames :: "nat \<Rightarrow> TimePoint \<Rightarrow> TCPTransportLayer \<Rightarrow> (Buffer option \<times> TCPTransportLayer) option" where
  "read_frames 0 now tr = None"
| "read_frames (Suc fuel) now tr =
     (let rb = tcp_recv_buffer tr
      in if readable_bytes rb < 2 then Some (None, tr\<lparr>tcp_recv_buffer := Compact rb\<rparr>)
         else
           let frame_start = buf_read_cursor rb;
               (size16, rb1) = (ReadInt rb :: u16 \<times> Buffer);
               sz = unat size16
           in if sz + 2 > buf_allocated_size rb1
              then let tr1 = snd (tcp_Close (tr\<lparr>tcp_recv_buffer := rb1\<rparr>))
                   in Some (None, tr1\<lparr>tcp_recv_buffer := Buffer_Reset False (tcp_recv_buffer tr1)\<rparr>)
              else
                let need = (if sz = 0 then 1 else sz)
                in if readable_bytes rb1 < need
                   then Some (None, tr\<lparr>tcp_recv_buffer := Compact (set_read_cursor frame_start rb1)\<rparr>)
                   else if sz = 0
                   then let (type, rb2) = (ReadInt rb1 :: u8 \<times> Buffer)
                        in (case HandleControl now type (tr\<lparr>tcp_recv_buffer := rb2\<rparr>) of
                              None \<Rightarrow> None
                            | Some tr1 \<Rightarrow> read_frames fuel now tr1)
                   else Some (Some (Buffer_of default_new (take sz (read_cursor_data rb1)) LittleEndian),
                              tr\<lparr>tcp_recv_buffer := SkipRead sz rb1\<rparr>))"

definition ReadBuffer :: "TimePoint \<Rightarrow> TCPTransportLayer \<Rightarrow> (Buffer option \<times> TCPTransportLayer) option" where
  "ReadBuffer now tr = read_frames (Suc (readable_bytes (tcp_recv_buffer tr))) now tr"

definition tcp_Receive :: "TimePoint \<Rightarrow> TCPTransportLayer \<Rightarrow> (Buffer option \<times> TCPTransportLayer) option" where
  "tcp_Receive now tr =
     (case ReadBuffer now tr of
        None \<Rightarrow> None
      | Some (Some b, tr1) \<Rightarrow> Some (Some b, tr1)
      | Some (None, tr1) \<Rightarrow>
          let rb = tcp_recv_buffer tr1;
              (received, sk) = SocketRecv (writable_bytes rb) (tcp_sock tr1);
              tr2 = tr1\<lparr>tcp_sock := sk\<rparr>
          in (case received of
                Received bs \<Rightarrow>
                  if bs = [] then Some (None, snd (tcp_Close tr2))
                  else ReadBuffer now (tr2\<lparr>tcp_last_recv := now,
                         tcp_recv_buffer := CommitWrite (length bs) (poke (buf_write_cursor rb) bs rb)\<rparr>)
              | WouldBlock \<Rightarrow> Some (None, tr2)
              | Reset \<Rightarrow> Some (None, snd (tcp_Close tr2))
              | RecvError \<Rightarrow> Some (None, snd (tcp_Close tr2))))"

definition tcp_header :: nat where "tcp_header = 48"
definition tcp_limit :: nat where "tcp_limit = ZNET_MAX_BUFFER_SIZE - tcp_header"

definition tcp_Send :: "TimePoint \<Rightarrow> Buffer \<Rightarrow> SendOptions \<Rightarrow> TCPTransportLayer \<Rightarrow> (bool \<times> TCPTransportLayer) option" where
  "tcp_Send now b options tr =
     (if tcp_is_closed tr then Some (False, tr)
      else let payload_size = readable_bytes b
      in if payload_size = 0 then Some (False, tr)
         else let new_size = payload_size + 2
         in if new_size \<ge> tcp_limit \<or> payload_size > 0xFFFF then Some (False, tr)
            else let high = word_of_nat (payload_size div 256); low = word_of_nat (payload_size mod 256)
            in if buf_read_cursor b \<ge> 2
               then WriteAll now (snd (PrependInt8 high (snd (PrependInt8 low b)))) tr
               else let framed = snd (ReserveExact default_new new_size (Buffer_new LittleEndian));
                        framed = WriteInt default_new (high :: u8) framed;
                        framed = WriteInt default_new (low :: u8) framed;
                        framed = Write default_new (take payload_size (read_cursor_data b)) framed
                    in WriteAll now framed tr)"

definition tcp_Update :: "TimePoint \<Rightarrow> TCPTransportLayer \<Rightarrow> TCPTransportLayer option" where
  "tcp_Update now tr =
     (if tcp_is_closed tr then Some tr
      else if tcp_idle_timeout tr > 0 \<and> now - tcp_last_recv tr > tcp_idle_timeout tr * ns_per_ms
      then Some (snd (tcp_Close tr))
      else if tcp_keepalive_interval tr > 0 \<and> now - tcp_last_send tr > tcp_keepalive_interval tr * ns_per_ms
      then tcp_SendControl now kControlPing tr else Some tr)"

end
