(* ===== verification/Tcp_Stream.thy ===== *)
theory Tcp_Stream
  imports Tcp_Transport
begin

text \<open>
  What the TCP transport promises. The bytes a transport puts out are the frames of the messages
  it accepted, in order, between control frames; and a transport reading such bytes, in pieces
  of any size, hands up exactly those messages. \<open>scan\<close> is the reference parser of a byte
  stream; the loop of \<open>ReadBuffer\<close> computes it on the receive buffer, whatever the bytes are.
\<close>

section \<open>The receive buffer\<close>

definition rb_ok :: "Buffer \<Rightarrow> bool" where
  "rb_ok b \<longleftrightarrow> stream_ok b \<and> buf_read_limit b = size_max \<and> buf_endianness b = BigEndian
     \<and> buf_data b \<noteq> None \<and> buf_allocated_size b = ZNET_MAX_BUFFER_SIZE"

lemma rb_okD:
  assumes "rb_ok b"
  shows "stream_ok b" "buf_read_limit b = size_max" "buf_endianness b = BigEndian"
    "buf_allocated_size b = ZNET_MAX_BUFFER_SIZE" "length (contents b) = readable_bytes b"
    "buf_read_cursor b + length (contents b) = buf_write_cursor b" "buf_write_cursor b \<le> ZNET_MAX_BUFFER_SIZE"
proof -
  show b: "stream_ok b" "buf_read_limit b = size_max" "buf_endianness b = BigEndian"
    "buf_allocated_size b = ZNET_MAX_BUFFER_SIZE"
    using assms by (simp_all add: rb_ok_def)
  show l: "length (contents b) = readable_bytes b" by (rule length_contents [OF b(1)])
  show "buf_read_cursor b + length (contents b) = buf_write_cursor b"
    using b(1,2) l by (simp add: readable_bytes_eq stream_ok_def size_max_def)
  show "buf_write_cursor b \<le> ZNET_MAX_BUFFER_SIZE"
    using assms by (auto simp: rb_ok_def stream_ok_def buf_wf_def)
qed

lemma rb_new: "rb_ok (tcp_recv_buffer (TCPTransportLayer_new sk common now))"
  "contents (tcp_recv_buffer (TCPTransportLayer_new sk common now)) = []"
  by (simp_all add: TCPTransportLayer_new_def rb_ok_def ReserveExact_def Reserve_def Buffer_new_def
      default_new_def stream_ok_def buf_wf_def contents_def readable_bytes_def ZNET_MAX_BUFFER_SIZE_def)

lemma rb_SkipRead:
  assumes "rb_ok b" and "n \<le> length (contents b)"
  shows "rb_ok (SkipRead n b)" and "contents (SkipRead n b) = drop n (contents b)"
proof -
  show "contents (SkipRead n b) = drop n (contents b)"
    by (rule contents_SkipRead [OF rb_okD(1) [OF assms(1)] assms(2)])
  show "rb_ok (SkipRead n b)"
    using assms stream_ok_SkipRead [OF rb_okD(1) [OF assms(1)] assms(2)]
    by (simp add: rb_ok_def) (simp add: SkipRead_def)
qed

lemma rb_rewind: "set_read_cursor (buf_read_cursor b) (SkipRead n b) = b"
  by (simp add: set_read_cursor_def SkipRead_def)

lemma rb_ReadByte:
  assumes "rb_ok b" and "contents b = t # rest"
  shows "ReadInt b = (t :: u8, SkipRead 1 b)"
proof -
  have "CheckReadableBytes 1 b" and "take 1 (read_cursor_data b) = [t]"
    using assms rb_okD(1) [OF assms(1)] take_contents [of b 1] by (simp_all add: CheckReadableBytes_iff)
  then show ?thesis
    by (simp add: ReadInt_def ReadNumber_def to_wire_order_eq of_mem_image_def GetSystemEndianness_def)
qed

lemma rb_ReadSize:
  assumes "rb_ok b" and "contents b = h # l # rest"
  obtains w :: u16 where "ReadInt b = (w, SkipRead 2 b)" and "unat w = unat h * 256 + unat l"
proof -
  have ok: "stream_ok b" by (rule rb_okD(1) [OF assms(1)])
  have "CheckReadableBytes 2 b" and "take 2 (read_cursor_data b) = [h, l]"
    using assms(2) ok take_contents [of b 2] by (simp_all add: CheckReadableBytes_iff)
  then have 1: "ReadInt b = (word_of_nat (unat l + 256 * unat h) :: u16, SkipRead 2 b)"
    using rb_okD(3) [OF assms(1)]
    by (simp add: ReadInt_def ReadNumber_def to_wire_order_eq wire_order_def of_mem_image_def
        GetSystemEndianness_def)
  have "unat l + 256 * unat h < 2 ^ LENGTH(16)" using unat_byte_less [of l] unat_byte_less [of h] by simp
  from unat_of_nat_small [OF this]
  have "unat (word_of_nat (unat l + 256 * unat h) :: u16) = unat h * 256 + unat l" by simp
  with 1 show thesis by (rule that)
qed

lemma rb_Compact:
  assumes "rb_ok b"
  shows "rb_ok (Compact b)" and "contents (Compact b) = contents b"
    and "buf_write_cursor (Compact b) = length (contents b)"
proof -
  obtain d where d: "buf_data b = Some d" "length d = ZNET_MAX_BUFFER_SIZE"
    using assms by (auto simp: rb_ok_def stream_ok_def buf_wf_def)
  note b = rb_okD [OF assms]
  have c: "contents b = drop (buf_read_cursor b) (take (buf_write_cursor b) d)"
    by (rule contents_full [OF b(1,2) d(1)])
  let ?c = "contents b"
  have len: "length ?c \<le> ZNET_MAX_BUFFER_SIZE" using b(6,7) by linarith
  have unread: "(if buf_write_cursor b > buf_read_cursor b then buf_write_cursor b - buf_read_cursor b else 0) = length ?c"
    using b(6) by (auto simp flip: length_0_conv)
  have "take (length ?c) (read_cursor_data b) = ?c" using take_contents [OF b(1), of "length ?c"] by simp
  then have eq: "Compact b = (if buf_read_cursor b = 0 then b
      else b\<lparr>buf_data := Some (overlay d 0 ?c), buf_read_cursor := 0, buf_write_cursor := length ?c\<rparr>)"
    using d(1) unfolding Compact_def unread Let_def by (cases "?c = []") (auto simp: poke_def overlay_def)
  show w: "buf_write_cursor (Compact b) = length ?c" using b(6) by (simp add: eq)
  show ok: "rb_ok (Compact b)"
  proof (cases "buf_read_cursor b = 0")
    case False
    then show ?thesis using assms d len
      by (simp add: eq rb_ok_def stream_ok_def buf_wf_def ZNET_MAX_BUFFER_SIZE_def size_max_def)
  qed (use assms eq in simp)
  show "contents (Compact b) = ?c"
  proof (cases "buf_read_cursor b = 0")
    case False
    then have "buf_data (Compact b) = Some (overlay d 0 ?c)" "buf_read_cursor (Compact b) = 0" by (simp_all add: eq)
    from contents_full [OF rb_okD(1,2) [OF ok] this(1)] this w show ?thesis by (simp add: overlay_def)
  qed (use eq in simp)
qed

lemma rb_append:
  assumes "rb_ok b" and "buf_write_cursor b + length bs \<le> ZNET_MAX_BUFFER_SIZE"
  shows "rb_ok (CommitWrite (length bs) (poke (buf_write_cursor b) bs b))"
    and "contents (CommitWrite (length bs) (poke (buf_write_cursor b) bs b)) = contents b @ bs"
proof -
  obtain d where d: "buf_data b = Some d" "length d = ZNET_MAX_BUFFER_SIZE"
    using assms(1) by (auto simp: rb_ok_def stream_ok_def buf_wf_def)
  note b = rb_okD [OF assms(1)]
  have a: "appended b (CommitWrite (length bs) (poke (buf_write_cursor b) bs b)) bs"
    using assms(2) d b(1,2) by (intro appended_poke [where d = d]) (simp_all add: ZNET_MAX_BUFFER_SIZE_def)
  then show "contents (CommitWrite (length bs) (poke (buf_write_cursor b) bs b)) = contents b @ bs"
    by (simp add: appended_def)
  show "rb_ok (CommitWrite (length bs) (poke (buf_write_cursor b) bs b))"
    using a assms(1) d by (simp add: appended_def rb_ok_def) (simp add: CommitWrite_def poke_def)
qed

lemma rb_Reset:
  assumes "rb_ok b" shows "rb_ok (Buffer_Reset False b)" and "contents (Buffer_Reset False b) = []"
  using assms by (auto simp: rb_ok_def Buffer_Reset_def stream_ok_def buf_wf_def contents_def readable_bytes_eq)

lemma frame_copy:
  assumes "bs \<noteq> []" and "length bs < 2 ^ 61"
  shows "contents (Buffer_of default_new bs e) = bs" and "stream_ok (Buffer_of default_new bs e)"
    and "buf_read_limit (Buffer_of default_new bs e) = size_max"
  using assms
  by (simp_all add: Buffer_of_def default_new_def contents_def readable_bytes_eq read_cursor_data_def
      stream_ok_def buf_wf_def overlay_def size_max_def)

section \<open>Writing\<close>

text \<open>A socket that stalls but never breaks: it always takes some bytes again.\<close>

definition steady :: "(nat \<Rightarrow> send_step) \<Rightarrow> bool" where
  "steady sends \<longleftrightarrow> (\<forall>i. sends i = Stalled True \<or> (\<exists>n>0. sends i = Took n))
     \<and> (\<forall>i. \<exists>j\<ge>i. sends j \<noteq> Stalled True)"

lemma steady_took:
  assumes "steady sends"
  obtains j n where "i \<le> j" and "n > 0" and "sends j = Took n" and "\<And>k. i \<le> k \<Longrightarrow> k < j \<Longrightarrow> sends k = Stalled True"
proof -
  define P where "P j \<longleftrightarrow> i \<le> j \<and> sends j \<noteq> Stalled True" for j
  have ex: "\<exists>j. P j" using assms by (auto simp: steady_def P_def)
  define j where "j = (LEAST j. P j)"
  have j: "P j" unfolding j_def by (rule LeastI_ex [OF ex])
  moreover have "sends k = Stalled True" if "i \<le> k" "k < j" for k
    using not_less_Least [of k P] that by (auto simp: j_def P_def)
  moreover obtain n where "n > 0" "sends j = Took n" using j assms by (auto simp: steady_def P_def)
  ultimately show thesis using that [of j n] by (simp add: P_def)
qed

lemma write_loop_stalls:
  assumes "i \<le> j" and "\<And>k. i \<le> k \<Longrightarrow> k < j \<Longrightarrow> sends k = Stalled True" and "data \<noteq> []"
  shows "write_loop sends i data out = write_loop sends j data out"
  using assms
proof (induction "j - i" arbitrary: i)
  case (Suc m)
  have "write_loop sends i data out = write_loop sends (Suc i) data out"
    using Suc.prems Suc.hyps(2) by (subst write_loop.simps) simp
  also have "\<dots> = write_loop sends j data out"
    using Suc.hyps Suc.prems by (intro Suc.hyps(1)) auto
  finally show ?case .
qed simp

text \<open>A steady socket takes everything, whatever the stalls and the short writes.\<close>

lemma write_loop_steady:
  assumes "steady sends"
  shows "\<exists>j. write_loop sends i data out = Some (Wrote, j, out @ data)"
proof (induction "length data" arbitrary: i data out rule: less_induct)
  case less
  show ?case
  proof (cases "data = []")
    case True
    then show ?thesis by (subst write_loop.simps) simp
  next
    case False
    obtain j n where j: "i \<le> j" "n > 0" "sends j = Took n" "\<And>k. i \<le> k \<Longrightarrow> k < j \<Longrightarrow> sends k = Stalled True"
      using steady_took [OF assms, of i] by metis
    have "write_loop sends i data out = write_loop sends j data out"
      by (rule write_loop_stalls [OF j(1) j(4) False])
    also have "\<dots> = write_loop sends (Suc j) (drop n data) (out @ take n data)"
      using False j by (subst write_loop.simps) simp
    finally show ?thesis
      using less [of "drop n data" "Suc j" "out @ take n data"] False j(2) by auto
  qed
qed

text \<open>Frames on the wire.\<close>

datatype tcp_item = Data bytes | Control u8

definition frame_bytes :: "tcp_item \<Rightarrow> bytes" where
  "frame_bytes i = (case i of
       Data p \<Rightarrow> word_of_nat (length p div 256) # word_of_nat (length p mod 256) # p
     | Control t \<Rightarrow> [0, 0, t])"

definition stream_of :: "tcp_item list \<Rightarrow> bytes" where
  "stream_of items = concat (map frame_bytes items)"

lemma stream_of_simps [simp]:
  "stream_of [] = []" "stream_of (i # items) = frame_bytes i @ stream_of items"
  "stream_of (xs @ ys) = stream_of xs @ stream_of ys"
  by (simp_all add: stream_of_def)

definition item_ok :: "tcp_item \<Rightarrow> bool" where
  "item_ok i = (case i of Data p \<Rightarrow> p \<noteq> [] \<and> length p + 2 \<le> ZNET_MAX_BUFFER_SIZE | Control t \<Rightarrow> True)"

fun datas :: "tcp_item list \<Rightarrow> bytes list" where
  "datas [] = []"
| "datas (Data p # items) = p # datas items"
| "datas (Control t # items) = datas items"

lemma datas_append [simp]: "datas (xs @ ys) = datas xs @ datas ys"
  by (induction xs rule: datas.induct) auto

definition sends_of :: "TCPTransportLayer \<Rightarrow> nat \<Rightarrow> send_step" where
  "sends_of tr = sk_sends (tcp_sock tr)"

definition out_of :: "TCPTransportLayer \<Rightarrow> bytes" where
  "out_of tr = sk_out (tcp_sock tr)"

text \<open>What writing leaves alone: everything but the socket's answers and the time of the last write.\<close>

definition wrote :: "TCPTransportLayer \<Rightarrow> TCPTransportLayer \<Rightarrow> bytes \<Rightarrow> bool" where
  "wrote tr tr' bs \<longleftrightarrow> out_of tr' = out_of tr @ bs \<and> sends_of tr' = sends_of tr
     \<and> sk_in (tcp_sock tr') = sk_in (tcp_sock tr) \<and> tcp_recv_buffer tr' = tcp_recv_buffer tr
     \<and> tcp_is_closed tr' = tcp_is_closed tr"

lemma wrote_refl: "wrote tr tr []"
  by (simp add: wrote_def)

lemma wrote_trans: "wrote tr tr1 xs \<Longrightarrow> wrote tr1 tr2 ys \<Longrightarrow> wrote tr tr2 (xs @ ys)"
  by (simp add: wrote_def)

lemma WriteAll_steady:
  assumes "steady (sends_of tr)" and "\<not> tcp_is_closed tr"
  obtains tr' where "WriteAll now b tr = Some (True, tr')" and "wrote tr tr' (contents b)"
proof -
  let ?sk = "tcp_sock tr"
  obtain j where "write_loop (sk_sends ?sk) (sk_turn ?sk) (contents b) (sk_out ?sk)
      = Some (Wrote, j, sk_out ?sk @ contents b)"
    using write_loop_steady assms(1) by (metis sends_of_def)
  then have "WriteAll now b tr = Some (True, tr\<lparr>tcp_sock := ?sk\<lparr>sk_turn := j, sk_out := sk_out ?sk @ contents b\<rparr>,
      tcp_last_send := now\<rparr>)"
    using assms(2) by (simp add: WriteAll_def Let_def)
  then show thesis by (rule that) (simp add: wrote_def out_of_def sends_of_def)
qed

lemma control_frame:
  "contents (WriteInt default_new t (WriteInt default_new (0 :: u8) (WriteInt default_new (0 :: u8)
     (snd (ReserveExact default_new 3 (Buffer_new LittleEndian)))))) = frame_bytes (Control (t :: u8))"
proof -
  let ?b = "snd (ReserveExact default_new 3 (Buffer_new LittleEndian))"
  have r: "room (Buffer_new LittleEndian) 3" by (rule room_new) simp
  have b: "appended (Buffer_new LittleEndian) ?b []" "spare ?b 3"
    using heap.ReserveExact_spare [OF r, of 3] by (simp_all add: Buffer_new_def)
  have 1: "spare ?b (1 + (1 + (1 + 0)))" using b(2) by (simp add: numeral_eq_Suc)
  note w1 = spare_WriteByte [OF 1, where nw = default_new and x = 0]
  note w2 = spare_WriteByte [OF w1(2), where nw = default_new and x = 0]
  note w3 = spare_WriteByte [OF w2(2), where nw = default_new and x = t]
  from appended_trans [OF b(1) appended_trans [OF w1(1) appended_trans [OF w2(1) w3(1)]]]
  show ?thesis by (simp add: appended_def frame_bytes_def)
qed

lemma SendControl_steady:
  assumes "steady (sends_of tr)"
  obtains tr' cs where "tcp_SendControl now t tr = Some tr'" and "wrote tr tr' (stream_of (map Control cs))"
proof (cases "tcp_is_closed tr")
  case True
  then have "tcp_SendControl now t tr = Some tr" by (simp add: tcp_SendControl_def)
  then show thesis by (rule that [of _ "[]"]) (simp add: wrote_refl)
next
  case False
  let ?b = "WriteInt default_new t (WriteInt default_new (0 :: u8) (WriteInt default_new (0 :: u8)
     (snd (ReserveExact default_new 3 (Buffer_new LittleEndian)))))"
  obtain tr' where "WriteAll now ?b tr = Some (True, tr')" "wrote tr tr' (contents ?b)"
    by (rule WriteAll_steady [OF assms False])
  then show thesis using False that [of tr' "[t]"]
    by (simp add: tcp_SendControl_def control_frame Let_def)
qed

lemma HandleControl_steady:
  assumes "steady (sends_of tr)"
  obtains tr' cs where "HandleControl now t tr = Some tr'" and "wrote tr tr' (stream_of (map Control cs))"
proof (cases "t = kControlPing")
  case True
  obtain tr' cs where "tcp_SendControl now kControlPong tr = Some tr'" "wrote tr tr' (stream_of (map Control cs))"
    by (rule SendControl_steady [OF assms])
  then show thesis using True that by (simp add: HandleControl_def)
next
  case False
  then show thesis using that [of tr "[]"] by (simp add: HandleControl_def wrote_refl)
qed

section \<open>The reference parser\<close>

datatype scanned = Missing bytes | Oversized | Got bytes bytes

text \<open>
  The first data frame of a byte stream behind any control frames, what is left behind it, or
  the incomplete frame the stream ends in.
\<close>

fun scan :: "bytes \<Rightarrow> scanned" where
  "scan (h # l # rest) =
     (let sz = unat h * 256 + unat l
      in if sz + 2 > ZNET_MAX_BUFFER_SIZE then Oversized
         else if sz = 0 then (case rest of [] \<Rightarrow> Missing [h, l] | t # rest' \<Rightarrow> scan rest')
         else if length rest < sz then Missing (h # l # rest)
         else Got (take sz rest) (drop sz rest))"
| "scan bs = Missing bs"

lemma scan_control [simp]: "scan (frame_bytes (Control t) @ rest) = scan rest"
  by (simp add: frame_bytes_def ZNET_MAX_BUFFER_SIZE_def)

lemma size_bytes:
  assumes "n < 65536"
  shows "unat (word_of_nat (n div 256) :: u8) * 256 + unat (word_of_nat (n mod 256) :: u8) = n"
proof -
  have "n div 256 < 2 ^ LENGTH(8)" using assms by (simp add: less_mult_imp_div_less)
  then show ?thesis by (simp only: unat_of_nat_small unat_byte_mod) simp
qed

lemma scan_data:
  assumes "item_ok (Data p)"
  shows "scan (frame_bytes (Data p) @ rest) = Got p rest"
proof -
  have "length p < 65536" "p \<noteq> []" "length p + 2 \<le> ZNET_MAX_BUFFER_SIZE"
    using assms by (simp_all add: item_ok_def ZNET_MAX_BUFFER_SIZE_def)
  then show ?thesis using size_bytes [of "length p"] by (simp add: frame_bytes_def)
qed

text \<open>A proper prefix of a frame is an incomplete frame.\<close>

lemma scan_part:
  assumes "item_ok i" and "frame_bytes i = c @ left" and "left \<noteq> []"
  shows "scan c = Missing c"
proof (cases c)
  case (Cons h c1)
  show ?thesis
  proof (cases c1)
    case (Cons l c2)
    have c: "c = h # l # c2" using \<open>c = h # c1\<close> Cons by simp
    show ?thesis
    proof (cases i)
      case (Data p)
      have p: "length p < 65536" "p \<noteq> []" "length p + 2 \<le> ZNET_MAX_BUFFER_SIZE"
        using assms(1) Data by (simp_all add: item_ok_def ZNET_MAX_BUFFER_SIZE_def)
      have "unat h * 256 + unat l = length p" "p = c2 @ left"
        using assms(2) size_bytes [OF p(1)] by (auto simp: frame_bytes_def Data c)
      then show ?thesis using p assms(3) by (simp add: c)
    next
      case (Control t)
      then show ?thesis using assms(2,3)
        by (cases c2) (auto simp: frame_bytes_def c ZNET_MAX_BUFFER_SIZE_def)
    qed
  qed (use \<open>c = h # c1\<close> in simp)
qed simp


lemma scan_items:
  assumes "\<forall>i\<in>set items. item_ok i" and "c @ rest = stream_of items"
  shows "(\<exists>cs p items' c'. scan c = Got p c' \<and> items = map Control cs @ Data p # items' \<and> c' @ rest = stream_of items')
    \<or> (\<exists>cs items' c'. scan c = Missing c' \<and> items = map Control cs @ items' \<and> c' @ rest = stream_of items'
          \<and> (case items' of [] \<Rightarrow> c' = [] | i # _ \<Rightarrow> length c' < length (frame_bytes i)))"
  using assms
proof (induction items arbitrary: c)
  case Nil
  then show ?case by (intro disjI2 exI [of _ "[]"]) simp
next
  case (Cons i items)
  from Cons.prems(2) have eq: "c @ rest = frame_bytes i @ stream_of items" by simp
  show ?case
  proof (cases "length c < length (frame_bytes i)")
    case True
    from eq True obtain left where l: "c @ left = frame_bytes i"
      by (auto simp: append_eq_append_conv2)
    have "left \<noteq> []" using True l by auto
    then have "scan c = Missing c" using Cons.prems(1) by (intro scan_part [OF _ l [symmetric]]) auto
    then show ?thesis using True Cons.prems(2)
      by (intro disjI2 exI [of _ "[]"] exI [of _ "i # items"] exI [of _ c]) simp
  next
    case False
    with eq have c: "c = frame_bytes i @ drop (length (frame_bytes i)) c"
      by (metis append_eq_conv_conj append_take_drop_id not_less take_all_iff take_append)
    define c1 where "c1 = drop (length (frame_bytes i)) c"
    have c: "c = frame_bytes i @ c1" "c1 @ rest = stream_of items"
      using c eq by (simp_all add: c1_def [symmetric])
    show ?thesis
    proof (cases i)
      case (Data p)
      then have "scan c = Got p c1" using scan_data Cons.prems(1) c(1) by simp
      then have "scan c = Got p c1 \<and> i # items = map Control [] @ Data p # items \<and> c1 @ rest = stream_of items"
        using c(2) Data by simp
      then show ?thesis by blast
    next
      case (Control t)
      then have sc: "scan c = scan c1" using c(1) by simp
      have "\<forall>i\<in>set items. item_ok i" using Cons.prems(1) by simp
      from Cons.IH [OF this c(2)] show ?thesis
      proof (elim disjE exE conjE)
        fix cs p items' c'
        assume "scan c1 = Got p c'" "items = map Control cs @ Data p # items'" "c' @ rest = stream_of items'"
        then show ?thesis using sc Control by (intro disjI1 exI [of _ "t # cs"] exI [of _ p]) auto
      next
        fix cs items' c'
        assume "scan c1 = Missing c'" "items = map Control cs @ items'" "c' @ rest = stream_of items'"
          "case items' of [] \<Rightarrow> c' = [] | i # _ \<Rightarrow> length c' < length (frame_bytes i)"
        then show ?thesis using sc Control by (intro disjI2 exI [of _ "t # cs"] exI [of _ items'] exI [of _ c']) auto
      qed
    qed
  qed
qed

section \<open>Reading\<close>

text \<open>How \<open>ReadBuffer\<close> leaves the transport after bytes that scan as \<open>sc\<close>.\<close>

definition left_by :: "scanned \<Rightarrow> TCPTransportLayer \<Rightarrow> TCPTransportLayer \<Rightarrow> bool" where
  "left_by sc tr tr' \<longleftrightarrow> rb_ok (tcp_recv_buffer tr') \<and> sends_of tr' = sends_of tr
     \<and> sk_in (tcp_sock tr') = sk_in (tcp_sock tr)
     \<and> (\<exists>cs. out_of tr' = out_of tr @ stream_of (map Control cs))
     \<and> (case sc of
          Got p rest \<Rightarrow> contents (tcp_recv_buffer tr') = rest \<and> tcp_is_closed tr' = tcp_is_closed tr
        | Missing m \<Rightarrow> contents (tcp_recv_buffer tr') = m \<and> tcp_is_closed tr' = tcp_is_closed tr
            \<and> buf_write_cursor (tcp_recv_buffer tr') = length m
        | Oversized \<Rightarrow> tcp_is_closed tr' \<and> buf_write_cursor (tcp_recv_buffer tr') = 0)"

definition handed_up :: "scanned \<Rightarrow> Buffer option" where
  "handed_up sc = (case sc of Got p rest \<Rightarrow> Some (Buffer_of default_new p LittleEndian) | _ \<Rightarrow> None)"

lemma left_by_wrote:
  assumes "wrote tr tr1 (stream_of (map Control cs))" and "left_by sc tr1 tr'"
  shows "left_by sc tr tr'"
proof -
  from assms(2) obtain ds where "out_of tr' = out_of tr1 @ stream_of (map Control ds)" by (auto simp: left_by_def)
  with assms(1) have "out_of tr' = out_of tr @ stream_of (map Control (cs @ ds))" by (simp add: wrote_def)
  then have "\<exists>cs. out_of tr' = out_of tr @ stream_of (map Control cs)" by blast
  then show ?thesis using assms unfolding left_by_def wrote_def by (cases sc) simp_all
qed

lemma left_by_buffer: "left_by sc (tr\<lparr>tcp_recv_buffer := b\<rparr>) tr' \<longleftrightarrow> left_by sc tr tr'"
  by (cases sc) (simp_all add: left_by_def sends_of_def out_of_def)

lemma left_byI:
  assumes "rb_ok b" and "case sc of Got p rest \<Rightarrow> contents b = rest
      | Missing m \<Rightarrow> contents b = m \<and> buf_write_cursor b = length m | Oversized \<Rightarrow> False"
  shows "left_by sc tr (tr\<lparr>tcp_recv_buffer := b\<rparr>)"
  using assms by (auto simp: left_by_def sends_of_def out_of_def intro: exI [of _ "[]"] split: scanned.splits)

lemma left_by_oversized:
  assumes "rb_ok b"
  shows "left_by Oversized tr ((snd (tcp_Close (tr\<lparr>tcp_recv_buffer := b\<rparr>)))\<lparr>tcp_recv_buffer := Buffer_Reset False b\<rparr>)"
proof -
  have "buf_write_cursor (Buffer_Reset False b) = 0" by (simp add: Buffer_Reset_def)
  then show ?thesis using rb_Reset(1) [OF assms]
    by (auto simp: left_by_def tcp_Close_def sends_of_def out_of_def intro: exI [of _ "[]"])
qed


lemma short_scan: "length c < 2 \<Longrightarrow> scan c = Missing c"
  by (cases c; cases "tl c") auto

text \<open>The loop computes \<open>scan\<close>, with fuel to spare, and answers the pings it meets.\<close>

lemma read_frames_scan:
  assumes "rb_ok (tcp_recv_buffer tr)" and "steady (sends_of tr)" and "length (contents (tcp_recv_buffer tr)) < fuel"
  shows "\<exists>tr'. read_frames fuel now tr = Some (handed_up (scan (contents (tcp_recv_buffer tr))), tr')
    \<and> left_by (scan (contents (tcp_recv_buffer tr))) tr tr'"
  using assms
proof (induction fuel arbitrary: tr)
  case (Suc fuel)
  let ?rb = "tcp_recv_buffer tr" let ?c = "contents ?rb"
  note rb = Suc.prems(1)
  show ?case
  proof (cases "length ?c < 2")
    case True
    then have "read_frames (Suc fuel) now tr = Some (None, tr\<lparr>tcp_recv_buffer := Compact ?rb\<rparr>)"
      using rb_okD(5) [OF rb] by simp
    then show ?thesis
      using True rb_Compact [OF rb] by (auto simp: short_scan handed_up_def intro: left_byI)
  next
    case False
    then obtain h l rest where c: "?c = h # l # rest" by (cases ?c; cases "tl ?c") auto
    obtain w :: u16 where w: "ReadInt ?rb = (w, SkipRead 2 ?rb)" "unat w = unat h * 256 + unat l"
      by (rule rb_ReadSize [OF rb c])
    let ?rb1 = "SkipRead 2 ?rb"
    have rb1: "rb_ok ?rb1" "contents ?rb1 = rest" using rb_SkipRead [OF rb, of 2] c by simp_all
    have step: "read_frames (Suc fuel) now tr =
      (if unat w + 2 > ZNET_MAX_BUFFER_SIZE
       then Some (None, (snd (tcp_Close (tr\<lparr>tcp_recv_buffer := ?rb1\<rparr>)))\<lparr>tcp_recv_buffer := Buffer_Reset False ?rb1\<rparr>)
       else if length rest < (if unat w = 0 then 1 else unat w) then Some (None, tr\<lparr>tcp_recv_buffer := Compact ?rb\<rparr>)
       else if unat w = 0
       then (case HandleControl now (fst (ReadInt ?rb1)) (tr\<lparr>tcp_recv_buffer := snd (ReadInt ?rb1 :: u8 \<times> Buffer)\<rparr>) of
               None \<Rightarrow> None | Some tr1 \<Rightarrow> read_frames fuel now tr1)
       else Some (Some (Buffer_of default_new (take (unat w) (read_cursor_data ?rb1)) LittleEndian),
                  tr\<lparr>tcp_recv_buffer := SkipRead (unat w) ?rb1\<rparr>))"
      using False w(1) rb_okD(4,5) [OF rb1(1)] rb_okD(5) [OF rb] rb1(2)
      by (simp add: Let_def tcp_Close_def case_prod_beta rb_rewind)
    consider (over) "unat w + 2 > ZNET_MAX_BUFFER_SIZE"
      | (part) "unat w + 2 \<le> ZNET_MAX_BUFFER_SIZE" "length rest < (if unat w = 0 then 1 else unat w)"
      | (ctl) t rest' where "unat w = 0" "rest = t # rest'" "unat w + 2 \<le> ZNET_MAX_BUFFER_SIZE"
      | (data) "unat w + 2 \<le> ZNET_MAX_BUFFER_SIZE" "unat w > 0" "unat w \<le> length rest"
      by (cases "unat w + 2 > ZNET_MAX_BUFFER_SIZE"; cases "length rest < (if unat w = 0 then 1 else unat w)";
          cases "unat w = 0"; cases rest) (auto simp: not_less)
    then show ?thesis
    proof cases
      case over
      then show ?thesis unfolding step using c w(2) left_by_oversized [OF rb1(1), of tr] by (simp add: handed_up_def)
    next
      case part
      have "scan ?c = Missing ?c" using part w(2) by (cases rest) (auto simp: c split: if_splits)
      then show ?thesis unfolding step using part rb_Compact [OF rb]
        by (auto simp: handed_up_def intro: left_byI)
    next
      case ctl
      have sc: "scan ?c = scan rest'" using ctl w(2) by (simp add: c)
      have rd: "ReadInt ?rb1 = (t, SkipRead 1 ?rb1)" by (rule rb_ReadByte [OF rb1(1)]) (simp add: rb1(2) ctl(2))
      have rb2: "rb_ok (SkipRead 1 ?rb1)" "contents (SkipRead 1 ?rb1) = rest'"
        using rb_SkipRead [OF rb1(1), of 1] ctl(2) rb1(2) by simp_all
      let ?tr = "tr\<lparr>tcp_recv_buffer := SkipRead 1 ?rb1\<rparr>"
      have "steady (sends_of ?tr)" using Suc.prems(2) by (simp add: sends_of_def)
      from HandleControl_steady [OF this] obtain tr1 cs
        where 1: "HandleControl now t ?tr = Some tr1" "wrote ?tr tr1 (stream_of (map Control cs))" by metis
      have 2: "rb_ok (tcp_recv_buffer tr1)" "steady (sends_of tr1)" "contents (tcp_recv_buffer tr1) = rest'"
        using 1(2) rb2 Suc.prems(2) by (simp_all add: wrote_def sends_of_def)
      have "length (contents (tcp_recv_buffer tr1)) < fuel" using 2(3) Suc.prems(3) c ctl(2) by simp
      from Suc.IH [OF 2(1,2) this] obtain tr' where 3: "read_frames fuel now tr1 = Some (handed_up (scan rest'), tr')"
        "left_by (scan rest') tr1 tr'" unfolding 2(3) by blast
      have "read_frames (Suc fuel) now tr = Some (handed_up (scan ?c), tr')"
        unfolding step using ctl 1(1) 3(1) by (simp add: rd sc)
      moreover have "left_by (scan ?c) tr tr'"
        using left_by_wrote [OF 1(2) 3(2)] by (simp add: left_by_buffer sc)
      ultimately show ?thesis by blast
    next
      case data
      have sc: "scan ?c = Got (take (unat w) rest) (drop (unat w) rest)" using data w(2) by (auto simp: c Let_def)
      have "take (unat w) (read_cursor_data ?rb1) = take (unat w) rest"
        using take_contents [OF rb_okD(1) [OF rb1(1)], of "unat w"] data(3) rb1(2) by simp
      then have "read_frames (Suc fuel) now tr = Some (handed_up (scan ?c), tr\<lparr>tcp_recv_buffer := SkipRead (unat w) ?rb1\<rparr>)"
        unfolding step using data by (simp add: sc handed_up_def)
      then show ?thesis
        using rb_SkipRead [OF rb1(1), of "unat w"] data(3) rb1(2) by (auto simp: sc intro: left_byI)
    qed
  qed
qed simp

lemma ReadBuffer_scan:
  assumes "rb_ok (tcp_recv_buffer tr)" and "steady (sends_of tr)"
  obtains tr' where "ReadBuffer now tr = Some (handed_up (scan (contents (tcp_recv_buffer tr))), tr')"
    and "left_by (scan (contents (tcp_recv_buffer tr))) tr tr'"
  using read_frames_scan [OF assms, of "Suc (readable_bytes (tcp_recv_buffer tr))" now] rb_okD(5) [OF assms(1)]
  unfolding ReadBuffer_def by auto


text \<open>Both steps of \<open>Receive\<close> keep a transport in this shape, whatever the socket delivers.\<close>

definition tcp_good :: "TCPTransportLayer \<Rightarrow> bool" where
  "tcp_good tr \<longleftrightarrow> rb_ok (tcp_recv_buffer tr) \<and> steady (sends_of tr)"

lemma left_by_good: "left_by sc tr tr' \<Longrightarrow> tcp_good tr \<Longrightarrow> tcp_good tr'"
  by (simp add: left_by_def tcp_good_def)

lemma left_by_out: "left_by sc tr tr' \<Longrightarrow> \<exists>cs. out_of tr' = out_of tr @ stream_of (map Control cs)"
  by (simp add: left_by_def)

text \<open>
  An incomplete frame never fills the receive buffer, so the next read always has room and its
  zero is always the end of the stream.
\<close>

lemma scan_missing_room: "scan c = Missing m \<Longrightarrow> length m < ZNET_MAX_BUFFER_SIZE"
  by (induction c rule: scan.induct) (auto simp: Let_def ZNET_MAX_BUFFER_SIZE_def split: if_splits list.splits)

lemma left_by_room:
  assumes "left_by sc tr tr'" and "handed_up sc = None" and that: "sc = scan c"
  shows "writable_bytes (tcp_recv_buffer tr') > 0
    \<and> buf_write_cursor (tcp_recv_buffer tr') + writable_bytes (tcp_recv_buffer tr') = ZNET_MAX_BUFFER_SIZE"
proof -
  have rb: "rb_ok (tcp_recv_buffer tr')" using assms(1) by (simp add: left_by_def)
  have "buf_write_cursor (tcp_recv_buffer tr') < ZNET_MAX_BUFFER_SIZE"
  proof (cases sc)
    case (Missing m)
    then show ?thesis using scan_missing_room [of c m] assms(1) that by (simp add: left_by_def)
  next
    case Oversized
    then show ?thesis using assms(1) by (simp add: left_by_def ZNET_MAX_BUFFER_SIZE_def)
  qed (use assms(2) in \<open>simp add: handed_up_def\<close>)
  then show ?thesis using rb_okD(4) [OF rb] by (simp add: writable_bytes_def)
qed

definition arrival :: "nat \<Rightarrow> bytes \<Rightarrow> sock_in list \<Rightarrow> sock_in list" where
  "arrival len bs rest = (if length bs \<le> len then rest else Arrived (drop len bs) # rest)"

text \<open>\<open>Receive\<close> when a frame was already complete, when the socket has bytes, and otherwise.\<close>

lemma Receive_cases:
  assumes "tcp_good tr"
  obtains (frame) p rest tr' where "scan (contents (tcp_recv_buffer tr)) = Got p rest"
      and "tcp_Receive now tr = Some (handed_up (Got p rest), tr')" and "left_by (Got p rest) tr tr'"
  | (bytes) tr1 tr' bs rest len sc where "handed_up (scan (contents (tcp_recv_buffer tr))) = None"
      and "left_by (scan (contents (tcp_recv_buffer tr))) tr tr1"
      and "sk_in (tcp_sock tr) = Arrived bs # rest" and "bs \<noteq> []" and "0 < len"
      and "length (contents (tcp_recv_buffer tr1)) + len = ZNET_MAX_BUFFER_SIZE"
      and "sc = scan (contents (tcp_recv_buffer tr1) @ take len bs)"
      and "tcp_Receive now tr = Some (handed_up sc, tr')" and "tcp_good tr'"
      and "sk_in (tcp_sock tr') = arrival len bs rest"
      and "left_by sc (tr1\<lparr>tcp_sock := (tcp_sock tr1)\<lparr>sk_in := arrival len bs rest\<rparr>\<rparr>) tr'"
  | (quiet) tr1 tr' where "handed_up (scan (contents (tcp_recv_buffer tr))) = None"
      and "left_by (scan (contents (tcp_recv_buffer tr))) tr tr1"
      and "tcp_Receive now tr = Some (None, tr')" and "tcp_good tr'" and "out_of tr' = out_of tr1"
      and "sk_in (tcp_sock tr) = [] \<longrightarrow> tr' = tr1" and "tcp_is_closed tr1 \<longrightarrow> tcp_is_closed tr'"
      and "\<forall>bs rest. sk_in (tcp_sock tr) = Arrived bs # rest \<longrightarrow> bs = []"
proof -
  have g: "rb_ok (tcp_recv_buffer tr)" "steady (sends_of tr)" using assms by (simp_all add: tcp_good_def)
  let ?sc = "scan (contents (tcp_recv_buffer tr))"
  obtain tr1 where 1: "ReadBuffer now tr = Some (handed_up ?sc, tr1)" "left_by ?sc tr tr1"
    by (rule ReadBuffer_scan [OF g])
  show thesis
  proof (cases "handed_up ?sc")
    case (Some b)
    then obtain p rest where "?sc = Got p rest" by (auto simp: handed_up_def split: scanned.splits)
    then show thesis using 1 Some by (intro frame [of p rest tr1]) (simp_all add: tcp_Receive_def handed_up_def)
  next
    case None
    have sk: "sk_in (tcp_sock tr1) = sk_in (tcp_sock tr)" and rb: "rb_ok (tcp_recv_buffer tr1)"
      using 1(2) by (simp_all add: left_by_def)
    have g1: "tcp_good tr1" by (rule left_by_good [OF 1(2) assms])
    let ?rb = "tcp_recv_buffer tr1" let ?len = "writable_bytes ?rb"
    have len: "0 < ?len" "buf_write_cursor ?rb + ?len = ZNET_MAX_BUFFER_SIZE"
      using left_by_room [OF 1(2) None refl] by simp_all
    have free: "length (contents ?rb) + ?len = ZNET_MAX_BUFFER_SIZE"
      using 1(2) None len(2) rb_okD(6) [OF rb] by (auto simp: left_by_def handed_up_def split: scanned.splits)
    show thesis
    proof (cases "\<exists>bs rest. sk_in (tcp_sock tr) = Arrived bs # rest \<and> bs \<noteq> []")
      case True
      then obtain bs rest where bs: "sk_in (tcp_sock tr) = Arrived bs # rest" "bs \<noteq> []" by blast
      let ?bs = "take ?len bs" let ?in = "arrival ?len bs rest"
      let ?rb2 = "CommitWrite (length ?bs) (poke (buf_write_cursor ?rb) ?bs ?rb)"
      let ?tr2 = "tr1\<lparr>tcp_sock := (tcp_sock tr1)\<lparr>sk_in := ?in\<rparr>, tcp_last_recv := now, tcp_recv_buffer := ?rb2\<rparr>"
      have rb2: "rb_ok ?rb2" "contents ?rb2 = contents ?rb @ ?bs"
        using rb_append [OF rb, of ?bs] len(2) by simp_all
      have s2: "rb_ok (tcp_recv_buffer ?tr2)" "steady (sends_of ?tr2)"
        using rb2 g1 by (simp_all add: tcp_good_def sends_of_def)
      obtain tr' where 2: "ReadBuffer now ?tr2 = Some (handed_up (scan (contents ?rb2)), tr')"
        "left_by (scan (contents ?rb2)) ?tr2 tr'"
        using ReadBuffer_scan [OF s2, of now] by auto
      have "tcp_Receive now tr = Some (handed_up (scan (contents ?rb2)), tr')"
        using 1(1) None 2(1) bs len(1) sk by (simp add: tcp_Receive_def SocketRecv_def arrival_def Let_def)
      moreover have "tcp_good tr'" using left_by_good [OF 2(2)] s2 by (simp add: tcp_good_def)
      moreover have "left_by (scan (contents ?rb2)) (tr1\<lparr>tcp_sock := (tcp_sock tr1)\<lparr>sk_in := ?in\<rparr>\<rparr>) tr'"
        using 2(2) by (cases "scan (contents ?rb2)") (simp_all add: left_by_def sends_of_def out_of_def)
      moreover have "sk_in (tcp_sock tr') = ?in" using 2(2) by (simp add: left_by_def)
      ultimately show thesis using bytes [of tr1 bs rest ?len "scan (contents ?rb2)" tr'] None 1(2) bs len(1) rb2(2) free by simp
    next
      case False
      then have "\<exists>tr'. tcp_Receive now tr = Some (None, tr') \<and> tcp_good tr' \<and> out_of tr' = out_of tr1
          \<and> (sk_in (tcp_sock tr) = [] \<longrightarrow> tr' = tr1) \<and> (tcp_is_closed tr1 \<longrightarrow> tcp_is_closed tr')"
        using 1(1) None sk g1
        by (cases "sk_in (tcp_sock tr)"; cases "hd (sk_in (tcp_sock tr))")
          (simp_all add: tcp_Receive_def SocketRecv_def tcp_Close_def tcp_good_def sends_of_def out_of_def Let_def)
      then show thesis using quiet None 1(2) False by blast
    qed
  qed
qed


section \<open>Receiving a stream of frames\<close>

definition arrivals :: "TCPTransportLayer \<Rightarrow> bytes list \<Rightarrow> bool" where
  "arrivals tr chunks \<longleftrightarrow> sk_in (tcp_sock tr) = map Arrived chunks \<and> [] \<notin> set chunks"

text \<open>A transport that is still to read the frames \<open>items\<close>, some of them in its buffer already.\<close>

definition awaits :: "TCPTransportLayer \<Rightarrow> bytes list \<Rightarrow> tcp_item list \<Rightarrow> bool" where
  "awaits tr chunks items \<longleftrightarrow> tcp_good tr \<and> \<not> tcp_is_closed tr \<and> arrivals tr chunks
     \<and> (\<forall>i\<in>set items. item_ok i) \<and> contents (tcp_recv_buffer tr) @ concat chunks = stream_of items"

definition backlog :: "bytes list \<Rightarrow> tcp_item list \<Rightarrow> nat" where
  "backlog chunks items = length (concat chunks) + length (datas items)"

lemma datas_controls [simp]: "datas (map Control cs) = []"
  by (induction cs) auto

lemma frame_len: "item_ok i \<Longrightarrow> length (frame_bytes i) \<le> ZNET_MAX_BUFFER_SIZE"
  by (auto simp: item_ok_def frame_bytes_def ZNET_MAX_BUFFER_SIZE_def split: tcp_item.splits)

lemma split_arrival:
  assumes "bs \<noteq> []" and "0 < len" and "[] \<notin> set rest"
  obtains chunks where "arrival len bs (map Arrived rest) = map Arrived chunks" and "[] \<notin> set chunks"
    and "take len bs @ concat chunks = bs @ concat rest" and "length (concat chunks) < length (bs @ concat rest)"
proof (cases "length bs \<le> len")
  case True
  then show thesis using assms by (intro that [of rest]) (simp_all add: arrival_def)
next
  case False
  then show thesis using assms by (intro that [of "drop len bs # rest"]) (simp_all add: arrival_def flip: append.assoc)
qed

text \<open>One call takes a message off the backlog, or bytes off the socket, or there is nothing left.\<close>

lemma Receive_awaits:
  assumes "awaits tr chunks items"
  obtains r tr' chunks' items' where "tcp_Receive now tr = Some (r, tr')" and "awaits tr' chunks' items'"
    and "(case r of None \<Rightarrow> datas items = datas items'
         | Some b \<Rightarrow> datas items = contents b # datas items' \<and> stream_ok b \<and> buf_read_limit b = size_max)"
    and "backlog chunks' items' < backlog chunks items \<or> backlog chunks' items' = 0"
proof -
  have good: "tcp_good tr" "\<not> tcp_is_closed tr" "sk_in (tcp_sock tr) = map Arrived chunks" "[] \<notin> set chunks"
    "\<forall>i\<in>set items. item_ok i" "contents (tcp_recv_buffer tr) @ concat chunks = stream_of items"
    using assms by (simp_all add: awaits_def arrivals_def)
  have up: "\<exists>b. handed_up (Got p c) = Some b \<and> contents b = p \<and> stream_ok b \<and> buf_read_limit b = size_max"
    if "item_ok (Data p)" for p c
    using frame_copy [of p LittleEndian] that by (simp add: handed_up_def item_ok_def ZNET_MAX_BUFFER_SIZE_def)
  from good(1) show thesis
  proof (cases rule: Receive_cases [where now = now])
    case (frame p c tr')
    from scan_items [OF good(5,6)] frame(1) obtain cs items' where i: "items = map Control cs @ Data p # items'"
      "c @ concat chunks = stream_of items'" by auto
    have "awaits tr' chunks items'"
      using frame(3) good i left_by_good [OF frame(3) good(1)] by (auto simp: awaits_def arrivals_def left_by_def)
    then show thesis using frame(2) up [of p c] good(5) i(1)
      by (intro that [of _ tr' chunks items']) (auto simp: backlog_def)
  next
    case (quiet tr1 tr')
    have ch: "chunks = []" using quiet(8) good(3,4) by (cases chunks) auto
    then have tr': "tr' = tr1" using quiet(6) good(3) by simp
    from scan_items [OF good(5,6)] quiet(1) obtain cs items' c where i: "scan (contents (tcp_recv_buffer tr)) = Missing c"
      "items = map Control cs @ items'" "c = stream_of items'"
      "case items' of [] \<Rightarrow> c = [] | i # _ \<Rightarrow> length c < length (frame_bytes i)"
      using ch by (auto simp: handed_up_def)
    have "items' = []" using i(3,4) by (cases items') auto
    then show thesis using quiet(2,3,4) tr' i ch good(2,3)
      by (intro that [of None tr' "[]" "[]"]) (auto simp: awaits_def arrivals_def left_by_def backlog_def)
  next
    case (bytes tr1 tr' bs rest len sc)
    obtain rest' where ch: "chunks = bs # rest'" "rest = map Arrived rest'" using bytes(3) good(3) by auto
    from scan_items [OF good(5,6)] bytes(1) obtain cs items1 c where i: "scan (contents (tcp_recv_buffer tr)) = Missing c"
      "items = map Control cs @ items1" "c @ concat chunks = stream_of items1" by (auto simp: handed_up_def)
    have c: "contents (tcp_recv_buffer tr1) = c" "\<not> tcp_is_closed tr1" using bytes(2) i(1) good(2) by (simp_all add: left_by_def)
    obtain chunks' where ch': "arrival len bs (map Arrived rest') = map Arrived chunks'" "[] \<notin> set chunks'"
      "take len bs @ concat chunks' = bs @ concat rest'" "length (concat chunks') < length (bs @ concat rest')"
      using split_arrival [OF bytes(4,5), of rest'] good(4) ch(1) by auto
    have ok: "\<forall>i\<in>set items1. item_ok i" using good(5) i(2) by simp
    have "(c @ take len bs) @ concat chunks' = stream_of items1" using i(3) ch(1) ch'(3) by simp
    moreover have sc: "sc = scan (c @ take len bs)" using bytes(7) c(1) by simp
    ultimately have "(\<exists>ds p items' c'. sc = Got p c' \<and> items1 = map Control ds @ Data p # items'
        \<and> c' @ concat chunks' = stream_of items') \<or> (\<exists>ds items' c'. sc = Missing c' \<and> items1 = map Control ds @ items'
        \<and> c' @ concat chunks' = stream_of items')"
      unfolding sc using scan_items [OF ok, of "c @ take len bs" "concat chunks'"] by blast
    then show thesis
    proof (elim disjE exE conjE)
      fix ds p items' c'
      assume 1: "sc = Got p c'" "items1 = map Control ds @ Data p # items'" "c' @ concat chunks' = stream_of items'"
      have "awaits tr' chunks' items'"
        using bytes(9-11) 1 c(2) ok ch(2) ch' by (auto simp: awaits_def arrivals_def left_by_def)
      then show thesis using bytes(8) 1 up [of p c'] ok i(2) ch ch'(4)
        by (intro that [of _ tr' chunks' items']) (auto simp: backlog_def)
    next
      fix ds items' c'
      assume 1: "sc = Missing c'" "items1 = map Control ds @ items'" "c' @ concat chunks' = stream_of items'"
      have "awaits tr' chunks' items'"
        using bytes(9-11) 1 c(2) ok ch(2) ch' by (auto simp: awaits_def arrivals_def left_by_def)
      then show thesis using bytes(8) 1 i(2) ch ch'(4)
        by (intro that [of None tr' chunks' items']) (auto simp: backlog_def handed_up_def)
    qed
  qed
qed


primrec receive_calls :: "TimePoint list \<Rightarrow> TCPTransportLayer \<Rightarrow> (Buffer list \<times> TCPTransportLayer) option" where
  "receive_calls [] tr = Some ([], tr)"
| "receive_calls (now # nows) tr =
     (case tcp_Receive now tr of
        None \<Rightarrow> None
      | Some (r, tr1) \<Rightarrow> map_option (apfst (\<lambda>bs. case r of None \<Rightarrow> bs | Some b \<Rightarrow> b # bs)) (receive_calls nows tr1))"

lemma receive_calls_awaits:
  assumes "awaits tr chunks items" and "backlog chunks items \<le> length nows"
  shows "\<exists>bs tr'. receive_calls nows tr = Some (bs, tr') \<and> map contents bs = datas items \<and> \<not> tcp_is_closed tr'"
  using assms
proof (induction nows arbitrary: tr chunks items)
  case Nil
  then show ?case by (simp add: backlog_def awaits_def)
next
  case (Cons now nows)
  obtain r tr1 chunks' items' where 1: "tcp_Receive now tr = Some (r, tr1)" "awaits tr1 chunks' items'"
    "(case r of None \<Rightarrow> datas items = datas items'
       | Some b \<Rightarrow> datas items = contents b # datas items' \<and> stream_ok b \<and> buf_read_limit b = size_max)"
    "backlog chunks' items' < backlog chunks items \<or> backlog chunks' items' = 0"
    by (rule Receive_awaits [OF Cons.prems(1), where now = now])
  have "backlog chunks' items' \<le> length nows" using 1(4) Cons.prems(2) by auto
  from Cons.IH [OF 1(2) this] 1(1,3) show ?case by (cases r) auto
qed

section \<open>Sending\<close>

definition sendable :: "Buffer \<Rightarrow> bool" where
  "sendable b \<longleftrightarrow> contents b \<noteq> [] \<and> length (contents b) + 2 < tcp_limit"

definition message_ok :: "Buffer \<Rightarrow> bool" where
  "message_ok b \<longleftrightarrow> stream_ok b \<and> buf_read_limit b = size_max"

lemma sendable_item: "sendable b \<Longrightarrow> item_ok (Data (contents b))"
  by (simp add: sendable_def item_ok_def tcp_limit_def tcp_header_def ZNET_MAX_BUFFER_SIZE_def)

lemma framed_in_place:
  assumes "message_ok b" and "contents b \<noteq> []" and "2 \<le> buf_read_cursor b"
  shows "contents (snd (PrependInt8 x (snd (PrependInt8 y b)))) = x # y # contents b"
proof -
  have ok: "stream_ok b" "buf_read_limit b = size_max" using assms(1) by (simp_all add: message_ok_def)
  have "length (contents b) > 0" using assms(2) by simp
  then have "buf_data b \<noteq> None" using ok(1) length_contents [OF ok(1)] by (auto simp: stream_ok_def)
  then have "headroom (Suc (Suc 0)) b" using ok assms(3) by (simp add: headroom_def)
  then obtain b1 where 1: "PrependInt8 y b = (True, b1)" "headroom (Suc 0) b1" "contents b1 = y # contents b"
    by (rule PrependInt8_headroom)
  obtain b2 where "PrependInt8 x b1 = (True, b2)" "contents b2 = x # contents b1"
    by (rule PrependInt8_headroom [OF 1(2)])
  then show ?thesis using 1 by simp
qed

lemma framed_copy:
  assumes "length p < 2 ^ 60"
  shows "contents (Write default_new p (WriteInt default_new (y :: u8) (WriteInt default_new (x :: u8)
     (snd (ReserveExact default_new (length p + 2) (Buffer_new LittleEndian)))))) = x # y # p"
proof -
  let ?b = "snd (ReserveExact default_new (length p + 2) (Buffer_new LittleEndian))"
  have r: "room (Buffer_new LittleEndian) (length p + 2)" by (rule room_new) (use assms in simp)
  have b: "appended (Buffer_new LittleEndian) ?b []" "spare ?b (length p + 2)"
    using heap.ReserveExact_spare [OF r, of "length p + 2"] assms by (simp_all add: Buffer_new_def)
  have 1: "spare ?b (1 + (1 + (length p + 0)))" using b(2) by (simp add: algebra_simps)
  note w1 = spare_WriteByte [OF 1, where nw = default_new and x = x]
  note w2 = spare_WriteByte [OF w1(2), where nw = default_new and x = y]
  note w3 = spare_Write [OF w2(2), where nw = default_new]
  from appended_trans [OF b(1) appended_trans [OF w1(1) appended_trans [OF w2(1) w3(1)]]]
  show ?thesis by (simp add: appended_def)
qed

lemma Send_frame:
  assumes "\<not> tcp_is_closed tr" and "message_ok b" and "sendable b"
  obtains f where "tcp_Send now b options tr = WriteAll now f tr" and "contents f = frame_bytes (Data (contents b))"
proof -
  let ?p = "contents b" let ?h = "word_of_nat (length ?p div 256) :: u8" let ?l = "word_of_nat (length ?p mod 256) :: u8"
  have ok: "length ?p = readable_bytes b" using assms(2) length_contents by (simp add: message_ok_def)
  have n: "?p \<noteq> []" "length ?p + 2 < tcp_limit" using assms(3) by (simp_all add: sendable_def)
  have len: "length ?p < 4096" using n(2) by (simp add: tcp_limit_def ZNET_MAX_BUFFER_SIZE_def)
  define f where "f = (if buf_read_cursor b \<ge> 2 then snd (PrependInt8 ?h (snd (PrependInt8 ?l b)))
    else Write default_new ?p (WriteInt default_new ?l (WriteInt default_new ?h
      (snd (ReserveExact default_new (length ?p + 2) (Buffer_new LittleEndian))))))"
  have "contents f = frame_bytes (Data ?p)"
    using framed_in_place [OF assms(2) n(1)] framed_copy [of ?p] len by (simp add: f_def frame_bytes_def)
  moreover have "readable_bytes b \<noteq> 0" "readable_bytes b + 2 < tcp_limit" "readable_bytes b \<le> 65535"
    "take (readable_bytes b) (read_cursor_data b) = ?p"
    using n len ok by (simp_all add: contents_def)
  then have "tcp_Send now b options tr = WriteAll now f tr"
    using assms(1) by (simp add: tcp_Send_def Let_def f_def ok)
  ultimately show thesis using that by blast
qed

lemma Send_steady:
  assumes "steady (sends_of tr)" and "message_ok b"
  obtains tr' where "tcp_Send now b options tr = Some (\<not> tcp_is_closed tr \<and> sendable b, tr')"
    and "wrote tr tr' (if \<not> tcp_is_closed tr \<and> sendable b then frame_bytes (Data (contents b)) else [])"
proof (cases "\<not> tcp_is_closed tr \<and> sendable b")
  case False
  have "length (contents b) = readable_bytes b" using assms(2) length_contents by (simp add: message_ok_def)
  then have "tcp_Send now b options tr = Some (False, tr)"
    using False by (auto simp: tcp_Send_def sendable_def Let_def simp flip: length_0_conv)
  moreover have "wrote tr tr (if \<not> tcp_is_closed tr \<and> sendable b then frame_bytes (Data (contents b)) else [])"
    using False by (auto simp: wrote_refl)
  ultimately show thesis using False by (intro that [of tr]) auto
next
  case True
  then have up: "\<not> tcp_is_closed tr" "sendable b" by simp_all
  obtain f where f: "tcp_Send now b options tr = WriteAll now f tr" "contents f = frame_bytes (Data (contents b))"
    by (rule Send_frame [OF up(1) assms(2) up(2)])
  obtain tr' where "WriteAll now f tr = Some (True, tr')" "wrote tr tr' (contents f)"
    by (rule WriteAll_steady [OF assms(1) up(1)])
  then show thesis using that [of tr'] up f by simp
qed


text \<open>The use of a transport by its session: messages out, calls of \<open>Receive\<close>, ticks.\<close>

datatype tcp_call = CallSend Buffer SendOptions | CallReceive | CallUpdate

text \<open>\<open>tcp_run\<close> collects the messages the transport accepted.\<close>

definition tcp_step :: "TimePoint \<Rightarrow> tcp_call \<Rightarrow> TCPTransportLayer \<Rightarrow> (bytes list \<times> TCPTransportLayer) option" where
  "tcp_step now c tr =
     (case c of
        CallSend b options \<Rightarrow> map_option (apfst (\<lambda>ok. if ok then [contents b] else [])) (tcp_Send now b options tr)
      | CallReceive \<Rightarrow> map_option (apfst (\<lambda>r. [])) (tcp_Receive now tr)
      | CallUpdate \<Rightarrow> map_option (Pair []) (tcp_Update now tr))"

fun tcp_run :: "(TimePoint \<times> tcp_call) list \<Rightarrow> TCPTransportLayer \<Rightarrow> (bytes list \<times> TCPTransportLayer) option" where
  "tcp_run [] tr = Some ([], tr)"
| "tcp_run ((now, c) # cs) tr =
     (case tcp_step now c tr of
        None \<Rightarrow> None
      | Some (ms, tr1) \<Rightarrow> map_option (apfst ((@) ms)) (tcp_run cs tr1))"

fun sends_in :: "(TimePoint \<times> tcp_call) list \<Rightarrow> Buffer list" where
  "sends_in [] = []"
| "sends_in ((now, CallSend b options) # cs) = b # sends_in cs"
| "sends_in ((now, CallReceive) # cs) = sends_in cs"
| "sends_in ((now, CallUpdate) # cs) = sends_in cs"

text \<open>What one call does to the bytes on the wire.\<close>

definition puts_out :: "TCPTransportLayer \<Rightarrow> TCPTransportLayer \<Rightarrow> tcp_item list \<Rightarrow> bool" where
  "puts_out tr tr' items \<longleftrightarrow> tcp_good tr' \<and> out_of tr' = out_of tr @ stream_of items \<and> (\<forall>i\<in>set items. item_ok i)
     \<and> (tcp_is_closed tr \<longrightarrow> tcp_is_closed tr')"

lemma item_ok_Control [simp]: "item_ok (Control t)"
  by (simp add: item_ok_def)

lemma item_ok_controls: "\<forall>i\<in>set (map Control cs). item_ok i"
  by simp

lemma wrote_puts_out:
  "tcp_good tr \<Longrightarrow> wrote tr tr' (stream_of items) \<Longrightarrow> \<forall>i\<in>set items. item_ok i \<Longrightarrow> puts_out tr tr' items"
  by (simp add: puts_out_def wrote_def tcp_good_def)

lemma Close_puts_out: "tcp_good tr \<Longrightarrow> puts_out tr (snd (tcp_Close tr)) []"
  by (simp add: puts_out_def tcp_good_def tcp_Close_def out_of_def sends_of_def)

lemma left_by_closed: "left_by sc tr tr' \<Longrightarrow> tcp_is_closed tr \<Longrightarrow> tcp_is_closed tr'"
  by (cases sc) (simp_all add: left_by_def)

lemma left_by_puts_out:
  assumes "left_by sc tr tr'" and "tcp_good tr"
  obtains cs where "puts_out tr tr' (map Control cs)"
  using left_by_out [OF assms(1)] left_by_good [OF assms] left_by_closed [OF assms(1)] item_ok_controls
  by (auto simp: puts_out_def)

lemma Receive_puts_out:
  assumes "tcp_good tr"
  obtains r tr' cs where "tcp_Receive now tr = Some (r, tr')" and "puts_out tr tr' (map Control cs)"
  using assms
proof (cases rule: Receive_cases [where now = now])
  case (frame p rest tr')
  from left_by_puts_out [OF frame(3) assms] show thesis using that frame(2) by blast
next
  case (bytes tr1 tr' bs rest len sc)
  let ?tr = "tr1\<lparr>tcp_sock := (tcp_sock tr1)\<lparr>sk_in := arrival len bs rest\<rparr>\<rparr>"
  obtain cs where cs: "puts_out tr tr1 (map Control cs)" by (rule left_by_puts_out [OF bytes(2) assms])
  have "tcp_good ?tr" using cs by (simp add: puts_out_def tcp_good_def sends_of_def)
  from left_by_puts_out [OF bytes(11) this] obtain ds where "puts_out ?tr tr' (map Control ds)" .
  then have "puts_out tr tr' (map Control (cs @ ds))"
    using cs by (auto simp: puts_out_def out_of_def)
  then show thesis by (rule that [OF bytes(8)])
next
  case (quiet tr1 tr')
  obtain cs where "puts_out tr tr1 (map Control cs)" by (rule left_by_puts_out [OF quiet(2) assms])
  then have "puts_out tr tr' (map Control cs)" using quiet(4,5,7) by (simp add: puts_out_def)
  then show thesis by (rule that [OF quiet(3)])
qed

lemma Update_puts_out:
  assumes "tcp_good tr"
  obtains tr' cs where "tcp_Update now tr = Some tr'" and "puts_out tr tr' (map Control cs)"
proof -
  have st: "steady (sends_of tr)" using assms by (simp add: tcp_good_def)
  obtain tr1 cs where 1: "tcp_SendControl now kControlPing tr = Some tr1" "wrote tr tr1 (stream_of (map Control cs))"
    by (rule SendControl_steady [OF st])
  have "tcp_Update now tr \<in> {Some tr, Some (snd (tcp_Close tr)), Some tr1}" using 1(1) by (simp add: tcp_Update_def)
  moreover have "puts_out tr tr (map Control [])" by (rule wrote_puts_out [OF assms]) (simp_all add: wrote_refl)
  moreover have "puts_out tr (snd (tcp_Close tr)) (map Control [])" using Close_puts_out [OF assms] by simp
  moreover have "puts_out tr tr1 (map Control cs)" by (rule wrote_puts_out [OF assms 1(2) item_ok_controls])
  ultimately show thesis using that by blast
qed

lemma step_puts_out:
  assumes "tcp_good tr" and "\<forall>b\<in>set (sends_in [(now, c)]). message_ok b"
  obtains ms tr' items where "tcp_step now c tr = Some (ms, tr')" and "puts_out tr tr' items" and "datas items = ms"
    and "\<not> tcp_is_closed tr \<longrightarrow> ms = map contents (filter sendable (sends_in [(now, c)]))"
proof (cases c)
  case (CallSend b options)
  have st: "steady (sends_of tr)" and b: "message_ok b" using assms CallSend by (simp_all add: tcp_good_def)
  obtain tr' where 1: "tcp_Send now b options tr = Some (\<not> tcp_is_closed tr \<and> sendable b, tr')"
    "wrote tr tr' (if \<not> tcp_is_closed tr \<and> sendable b then frame_bytes (Data (contents b)) else [])"
    by (rule Send_steady [OF st b])
  let ?items = "if \<not> tcp_is_closed tr \<and> sendable b then [Data (contents b)] else []"
  have "puts_out tr tr' ?items"
    by (rule wrote_puts_out [OF assms(1)]) (use 1(2) sendable_item in \<open>auto split: if_splits\<close>)
  then show thesis using 1(1) CallSend by (intro that [of "datas ?items" tr' ?items]) (auto simp: tcp_step_def)
next
  case CallReceive
  obtain r tr' cs where "tcp_Receive now tr = Some (r, tr')" "puts_out tr tr' (map Control cs)"
    by (rule Receive_puts_out [OF assms(1)])
  then show thesis using CallReceive by (intro that [of "[]" tr' "map Control cs"]) (simp_all add: tcp_step_def)
next
  case CallUpdate
  obtain tr' cs where "tcp_Update now tr = Some tr'" "puts_out tr tr' (map Control cs)"
    by (rule Update_puts_out [OF assms(1)])
  then show thesis using CallUpdate by (intro that [of "[]" tr' "map Control cs"]) (simp_all add: tcp_step_def)
qed

lemma sends_in_Cons: "sends_in (c # cs) = sends_in [c] @ sends_in cs"
  by (cases c; cases "snd c") auto

lemma run_puts_out:
  assumes "tcp_good tr" and "\<forall>b\<in>set (sends_in cs). message_ok b"
  shows "\<exists>ms tr' items. tcp_run cs tr = Some (ms, tr') \<and> puts_out tr tr' items \<and> datas items = ms
    \<and> (\<not> tcp_is_closed tr' \<longrightarrow> ms = map contents (filter sendable (sends_in cs)))"
  using assms
proof (induction cs arbitrary: tr)
  case Nil
  have "puts_out tr tr []" by (rule wrote_puts_out [OF Nil.prems(1)]) (simp_all add: wrote_refl)
  then have "tcp_run [] tr = Some ([], tr) \<and> puts_out tr tr [] \<and> datas [] = []" by simp
  then show ?case by fastforce
next
  case (Cons c cs)
  obtain now a where c: "c = (now, a)" by (cases c)
  have ok: "\<forall>b\<in>set (sends_in [(now, a)]). message_ok b" "\<forall>b\<in>set (sends_in cs). message_ok b"
    using Cons.prems(2) sends_in_Cons [of c cs] c by auto
  obtain ms tr1 items where 1: "tcp_step now a tr = Some (ms, tr1)" "puts_out tr tr1 items" "datas items = ms"
    "\<not> tcp_is_closed tr \<longrightarrow> ms = map contents (filter sendable (sends_in [(now, a)]))"
    by (rule step_puts_out [OF Cons.prems(1) ok(1)])
  have "tcp_good tr1" using 1(2) by (simp add: puts_out_def)
  from Cons.IH [OF this ok(2)] obtain ns tr2 items2 where 2: "tcp_run cs tr1 = Some (ns, tr2)" "puts_out tr1 tr2 items2"
    "datas items2 = ns" "\<not> tcp_is_closed tr2 \<longrightarrow> ns = map contents (filter sendable (sends_in cs))" by blast
  have "tcp_run (c # cs) tr = Some (ms @ ns, tr2)" using 1(1) 2(1) c by simp
  moreover have "puts_out tr tr2 (items @ items2)" using 1(2) 2(2) by (auto simp: puts_out_def)
  moreover have "\<not> tcp_is_closed tr2 \<longrightarrow> ms @ ns = map contents (filter sendable (sends_in (c # cs)))"
    using 1(2,4) 2(2,4) sends_in_Cons [of c cs] c by (auto simp: puts_out_def)
  ultimately show ?case using 1(3) 2(3) by (intro exI [of _ "ms @ ns"] exI [of _ tr2] exI [of _ "items @ items2"]) simp
qed


section \<open>The stream between two transports\<close>

lemma tcp_good_new: "steady (sk_sends sk) \<Longrightarrow> tcp_good (TCPTransportLayer_new sk common now)"
  using rb_new(1) [of sk common now] by (simp add: tcp_good_def sends_of_def) (simp add: TCPTransportLayer_new_def)

lemma tcp_new_fields [simp]:
  "tcp_sock (TCPTransportLayer_new sk common now) = sk" "\<not> tcp_is_closed (TCPTransportLayer_new sk common now)"
  by (simp_all add: TCPTransportLayer_new_def)

text \<open>
  C39. The TCP transport carries messages whole and in order. Let both sockets stall and write
  short as they like, without breaking. Whatever a session does with its transport (sending
  messages of any size, receiving any bytes at all, ticking), every call returns; if the
  transport is still open, the messages it accepted are exactly those that are not empty and
  not above the size limit; and a peer that reads the bytes it put out, cut into pieces of any
  sizes, hands up exactly the accepted messages, in order and byte for byte, and stays open.
\<close>

theorem tcp_stream_exact:
  assumes "steady (sk_sends ska)" and "steady (sk_sends skb)" and "sk_out ska = []"
    and "\<forall>b\<in>set (sends_in calls). message_ok b"
  shows "\<exists>ms A. tcp_run calls (TCPTransportLayer_new ska common_a t0) = Some (ms, A)
    \<and> (\<not> tcp_is_closed A \<longrightarrow> ms = map contents (filter sendable (sends_in calls)))
    \<and> (\<forall>chunks nows. concat chunks = sk_out (tcp_sock A) \<longrightarrow> [] \<notin> set chunks
        \<longrightarrow> length (concat chunks) + length ms \<le> length nows
        \<longrightarrow> (\<exists>bs B. receive_calls nows (TCPTransportLayer_new (skb\<lparr>sk_in := map Arrived chunks\<rparr>) common_b t1) = Some (bs, B)
              \<and> map contents bs = ms \<and> \<not> tcp_is_closed B))"
proof -
  obtain ms A items where A: "tcp_run calls (TCPTransportLayer_new ska common_a t0) = Some (ms, A)"
    "puts_out (TCPTransportLayer_new ska common_a t0) A items" "datas items = ms"
    "\<not> tcp_is_closed A \<longrightarrow> ms = map contents (filter sendable (sends_in calls))"
    using run_puts_out [OF tcp_good_new [OF assms(1)] assms(4)] by blast
  have items: "sk_out (tcp_sock A) = stream_of items" "\<forall>i\<in>set items. item_ok i"
    using A(2) assms(3) by (simp_all add: puts_out_def out_of_def)
  have "\<exists>bs B. receive_calls nows (TCPTransportLayer_new (skb\<lparr>sk_in := map Arrived chunks\<rparr>) common_b t1) = Some (bs, B)
      \<and> map contents bs = ms \<and> \<not> tcp_is_closed B"
    if "concat chunks = sk_out (tcp_sock A)" "[] \<notin> set chunks" "length (concat chunks) + length ms \<le> length nows"
    for chunks nows
  proof -
    have "awaits (TCPTransportLayer_new (skb\<lparr>sk_in := map Arrived chunks\<rparr>) common_b t1) chunks items"
      using that(1,2) items assms(2) rb_new(2) tcp_good_new by (simp add: awaits_def arrivals_def)
    from receive_calls_awaits [OF this, of nows] that(3) A(3) show ?thesis by (simp add: backlog_def)
  qed
  with A(1,4) show ?thesis by blast
qed

definition sample_socket :: tcp_socket where
  "sample_socket = \<lparr>sk_in = [Arrived [0, 0, 1]], sk_sends = (\<lambda>i. if even i then Stalled True else Took 2),
     sk_turn = 0, sk_out = [], sk_shutdown = False\<rparr>"

lemma sample_steady: "steady (sk_sends sample_socket)" "sk_out sample_socket = []"
proof -
  have "\<exists>j\<ge>i. odd j" for i :: nat by (rule exI [of _ "Suc (2 * i)"]) simp
  then show "steady (sk_sends sample_socket)" by (auto simp: steady_def sample_socket_def)
qed (simp add: sample_socket_def)

theorem tcp_stream_exact_witness:
  "\<exists>ms A. tcp_run [(0, CallSend (Buffer_of default_new [7, 8, 9] LittleEndian) SendOptions_default), (5, CallReceive), (9, CallUpdate)]
        (TCPTransportLayer_new sample_socket CommonOptions_default 0) = Some (ms, A)
     \<and> (\<not> tcp_is_closed A \<longrightarrow> ms = [[7, 8, 9]])
     \<and> (\<forall>chunks nows. concat chunks = sk_out (tcp_sock A) \<longrightarrow> [] \<notin> set chunks
        \<longrightarrow> length (concat chunks) + length ms \<le> length nows
        \<longrightarrow> (\<exists>bs B. receive_calls nows (TCPTransportLayer_new (sample_socket\<lparr>sk_in := map Arrived chunks\<rparr>) CommonOptions_default 0) = Some (bs, B)
              \<and> map contents bs = ms \<and> \<not> tcp_is_closed B))"
proof -
  let ?b = "Buffer_of default_new [7, 8, 9] LittleEndian"
  let ?calls = "[(0, CallSend ?b SendOptions_default), (5, CallReceive), (9, CallUpdate)]"
  have b: "contents ?b = [7, 8, 9]" "message_ok ?b" using frame_copy [of "[7, 8, 9]" LittleEndian]
    by (simp_all add: message_ok_def)
  have "map contents (filter sendable (sends_in ?calls)) = [[7, 8, 9]]"
    using b(1) by (simp add: sendable_def tcp_limit_def tcp_header_def ZNET_MAX_BUFFER_SIZE_def)
  with tcp_stream_exact [OF sample_steady(1) sample_steady(1,2), of ?calls CommonOptions_default 0 CommonOptions_default 0] b(2)
  show ?thesis by simp
qed

text \<open>A write that the socket takes in part and then refuses.\<close>

lemma write_broken:
  assumes "sends i = Took k" and "sends (Suc i) = SendBroken" and "0 < k" and "k < length data"
  shows "write_loop sends i data out = Some (WriteFailed, Suc (Suc i), out @ take k data)"
proof -
  have "data \<noteq> []" "drop k data \<noteq> []" using assms(4) by auto
  then have "write_loop sends i data out = write_loop sends (Suc i) (drop k data) (out @ take k data)"
    using assms by (subst write_loop.simps) simp
  also have "\<dots> = Some (WriteFailed, Suc (Suc i), out @ take k data)"
    using assms(2) \<open>drop k data \<noteq> []\<close> by (subst write_loop.simps) simp
  finally show ?thesis .
qed

lemma write_whole:
  assumes "sends i = Took k" and "length data \<le> k" and "data \<noteq> []"
  shows "write_loop sends i data out = Some (Wrote, Suc i, out @ data)"
proof -
  have "0 < k" using assms(2,3) by (cases data) auto
  then have "write_loop sends i data out = write_loop sends (Suc i) [] (out @ data)"
    using assms by (subst write_loop.simps) simp
  then show ?thesis by (simp add: write_loop.simps)
qed

lemma item_ok_length: "length q = length p \<Longrightarrow> item_ok (Data q) = item_ok (Data p)"
  by (cases q; cases p) (auto simp: item_ok_def)

lemma length_frame [simp]: "length (frame_bytes (Data p)) = length p + 2"
  by (simp add: frame_bytes_def)

lemma Send_broken:
  assumes "\<not> tcp_is_closed tr" and "message_ok b" and "sendable b" and "sends_of tr (sk_turn (tcp_sock tr)) = Took k"
    and "sends_of tr (Suc (sk_turn (tcp_sock tr))) = SendBroken" and "0 < k" and "k < length (contents b) + 2"
  shows "tcp_Send now b options tr = Some (False, tr\<lparr>tcp_sock := (tcp_sock tr)\<lparr>
     sk_turn := Suc (Suc (sk_turn (tcp_sock tr))), sk_out := out_of tr @ take k (frame_bytes (Data (contents b)))\<rparr>\<rparr>)"
proof -
  obtain f where f: "tcp_Send now b options tr = WriteAll now f tr" "contents f = frame_bytes (Data (contents b))"
    by (rule Send_frame [OF assms(1-3)])
  show ?thesis
    using write_broken [of "sends_of tr" "sk_turn (tcp_sock tr)" k "contents f" "out_of tr"] assms f
    by (simp add: WriteAll_def Let_def sends_of_def out_of_def)
qed

lemma Send_whole:
  assumes "\<not> tcp_is_closed tr" and "message_ok b" and "sendable b" and "sends_of tr (sk_turn (tcp_sock tr)) = Took k"
    and "length (contents b) + 2 \<le> k"
  shows "tcp_Send now b options tr = Some (True, tr\<lparr>tcp_sock := (tcp_sock tr)\<lparr>
     sk_turn := Suc (sk_turn (tcp_sock tr)), sk_out := out_of tr @ frame_bytes (Data (contents b))\<rparr>, tcp_last_send := now\<rparr>)"
proof -
  obtain f where f: "tcp_Send now b options tr = WriteAll now f tr" "contents f = frame_bytes (Data (contents b))"
    by (rule Send_frame [OF assms(1-3)])
  have "contents f \<noteq> []" using f(2) by (simp add: frame_bytes_def)
  then show ?thesis
    using write_whole [of "sends_of tr" "sk_turn (tcp_sock tr)" k "contents f" "out_of tr"] assms f
    by (simp add: WriteAll_def Let_def sends_of_def out_of_def)
qed

text \<open>A fresh transport hands up the first frame of a stream that fits its buffer.\<close>

lemma Receive_first:
  assumes "steady (sk_sends sk)" and "sk_in sk = [Arrived (frame_bytes (Data p) @ rest)]" and "item_ok (Data p)"
    and "length (frame_bytes (Data p) @ rest) \<le> ZNET_MAX_BUFFER_SIZE"
  shows "\<exists>b B. tcp_Receive now (TCPTransportLayer_new sk common t0) = Some (Some b, B) \<and> contents b = p"
  using tcp_good_new [OF assms(1), of common t0]
proof (cases rule: Receive_cases [where now = now])
  case (bytes tr1 tr' bs rest' len sc)
  have "contents (tcp_recv_buffer tr1) = []" using bytes(2) rb_new(2) [of sk common t0] by (simp add: left_by_def)
  moreover have "bs = frame_bytes (Data p) @ rest" using bytes(3) assms(2) by simp
  ultimately have "sc = Got p rest" using bytes(6,7) assms(4) scan_data [OF assms(3)] by simp
  then show ?thesis using bytes(8) frame_copy [of p LittleEndian] assms(3)
    by (simp add: handed_up_def item_ok_def ZNET_MAX_BUFFER_SIZE_def)
qed (use assms(2) rb_new(2) [of sk common t0] in \<open>simp_all add: frame_bytes_def\<close>)

text \<open>
  C40. A write that fails half way corrupts the stream without anybody noticing. When the socket
  takes the first \<open>k\<close> bytes of a frame, at least its length prefix, and then reports an error,
  \<open>Send\<close> returns false but leaves the connection open; the next message is accepted and
  written behind the torn frame, and the peer hands up a message that was never sent: the head
  of the first one completed with the length prefix and the head of the second.
\<close>

theorem torn_frame_splices:
  assumes "sk_turn ska = 0" and "sk_out ska = []" and "sk_sends ska 0 = Took k" and "sk_sends ska 1 = SendBroken"
    and "sk_sends ska 2 = Took 65536" and "steady (sk_sends skb)"
    and "message_ok b1" and "sendable b1" and "message_ok b2" and "sendable b2"
    and "2 \<le> k" and "k < length (contents b1) + 2" and "length (contents b1) \<le> k + length (contents b2)"
    and "length (contents b1) + length (contents b2) + 4 \<le> ZNET_MAX_BUFFER_SIZE"
  shows "\<exists>A b B. tcp_run [(t1, CallSend b1 o1), (t2, CallSend b2 o2)] (TCPTransportLayer_new ska common_a t0) = Some ([contents b2], A)
    \<and> \<not> tcp_is_closed A
    \<and> tcp_Receive t3 (TCPTransportLayer_new (skb\<lparr>sk_in := [Arrived (sk_out (tcp_sock A))]\<rparr>) common_b t0) = Some (Some b, B)
    \<and> contents b = take (k - 2) (contents b1) @ take (length (contents b1) + 2 - k) (frame_bytes (Data (contents b2)))"
proof -
  let ?A = "TCPTransportLayer_new ska common_a t0" let ?p = "contents b1" let ?f = "frame_bytes (Data (contents b2))"
  let ?A1 = "?A\<lparr>tcp_sock := ska\<lparr>sk_turn := 2, sk_out := take k (frame_bytes (Data ?p))\<rparr>\<rparr>"
  have 1: "tcp_Send t1 b1 o1 ?A = Some (False, ?A1)"
    using Send_broken [of ?A b1 k t1 o1] assms by (simp add: sends_of_def out_of_def numeral_2_eq_2)
  have "length (contents b2) + 2 \<le> 65536" using assms(10)
    by (simp add: sendable_def tcp_limit_def tcp_header_def ZNET_MAX_BUFFER_SIZE_def)
  then obtain A where 2: "tcp_Send t2 b2 o2 ?A1 = Some (True, A)" "\<not> tcp_is_closed A"
    "sk_out (tcp_sock A) = take k (frame_bytes (Data ?p)) @ ?f"
    using Send_whole [of ?A1 b2 65536 t2 o2] assms by (simp add: sends_of_def out_of_def)
  let ?n = "length ?p + 2 - k" let ?q = "take (k - 2) ?p @ take ?n ?f"
  have q: "length ?q = length ?p" "take k (frame_bytes (Data ?p)) @ ?f = frame_bytes (Data ?q) @ drop ?n ?f"
  proof -
    show l: "length ?q = length ?p" using assms(11-13) by simp
    have "take k (frame_bytes (Data ?p)) = word_of_nat (length ?p div 256) # word_of_nat (length ?p mod 256) # take (k - 2) ?p"
      using assms(11) by (simp add: frame_bytes_def take_Cons' numeral_2_eq_2)
    then show "take k (frame_bytes (Data ?p)) @ ?f = frame_bytes (Data ?q) @ drop ?n ?f"
      unfolding frame_bytes_def [of "Data ?q"] by (simp only: tcp_item.case l) simp
  qed
  have "item_ok (Data ?q)" using item_ok_length [OF q(1)] sendable_item [OF assms(8)] by simp
  moreover have "length (frame_bytes (Data ?q) @ drop ?n ?f) \<le> ZNET_MAX_BUFFER_SIZE"
    using assms(12,14) by (simp flip: q(2))
  ultimately obtain b B where 3: "tcp_Receive t3 (TCPTransportLayer_new (skb\<lparr>sk_in := [Arrived (sk_out (tcp_sock A))]\<rparr>) common_b t0) = Some (Some b, B)"
    "contents b = ?q"
    using Receive_first [of "skb\<lparr>sk_in := [Arrived (sk_out (tcp_sock A))]\<rparr>" ?q "drop ?n ?f" t3 common_b t0] assms(6) 2(3) q(2) by auto
  have "tcp_run [(t1, CallSend b1 o1), (t2, CallSend b2 o2)] ?A = Some ([contents b2], A)"
    using 1 2(1) by (simp add: tcp_step_def)
  with 2(2) 3 show ?thesis by blast
qed


definition torn_socket :: tcp_socket where
  "torn_socket = \<lparr>sk_in = [], sk_sends = (\<lambda>i. if i = 0 then Took 3 else if i = 1 then SendBroken else Took 65536),
     sk_turn = 0, sk_out = [], sk_shutdown = False\<rparr>"

theorem torn_frame_splices_witness:
  "\<exists>A b B. tcp_run [(0, CallSend (Buffer_of default_new [1, 2, 3, 4] LittleEndian) SendOptions_default),
        (1, CallSend (Buffer_of default_new [9, 9, 9, 9, 9] LittleEndian) SendOptions_default)]
        (TCPTransportLayer_new torn_socket CommonOptions_default 0) = Some ([[9, 9, 9, 9, 9]], A)
    \<and> \<not> tcp_is_closed A
    \<and> tcp_Receive 2 (TCPTransportLayer_new (sample_socket\<lparr>sk_in := [Arrived (sk_out (tcp_sock A))]\<rparr>) CommonOptions_default 0) = Some (Some b, B)
    \<and> contents b = [1, 0, 5, 9]"
proof -
  let ?b1 = "Buffer_of default_new [1, 2, 3, 4] LittleEndian" let ?b2 = "Buffer_of default_new [9, 9, 9, 9, 9] LittleEndian"
  have b: "contents ?b1 = [1, 2, 3, 4]" "message_ok ?b1" "contents ?b2 = [9, 9, 9, 9, 9]" "message_ok ?b2"
    using frame_copy [of "[1, 2, 3, 4]" LittleEndian] frame_copy [of "[9, 9, 9, 9, 9]" LittleEndian]
    by (simp_all add: message_ok_def)
  have s: "sendable ?b1" "sendable ?b2"
    using b by (simp_all add: sendable_def tcp_limit_def tcp_header_def ZNET_MAX_BUFFER_SIZE_def)
  show ?thesis
    using torn_frame_splices [of torn_socket 3 sample_socket ?b1 ?b2 0 SendOptions_default 1 SendOptions_default
        CommonOptions_default 0 2 CommonOptions_default] b s sample_steady(1)
    by (simp add: torn_socket_def frame_bytes_def ZNET_MAX_BUFFER_SIZE_def)
qed

end
