(* ===== verification/Spec2Isabelle.thy ===== *)
theory Spec2Isabelle
  imports Buffer_Stream Zdt_Wire Ack_History Zdt_Congestion Mpsc_Queue Zdt_Delivery Zdt_Reliability Session_Delivery Tcp_Stream
begin

text \<open>
  A verification development of the znet networking library (C++, under \<open>src/znet\<close>).

  \<^bold>\<open>Parts.\<close> \<open>Prelude\<close> holds the machine integers and byte strings;
  \<open>Znet_Buffer\<close> is \<open>Buffer\<close> of \<open>include/znet/buffer.h\<close>, operation by operation;
  \<open>Buffer_Stream\<close> proves that the buffer is a byte stream and gives the contract
  \<open>field_codec\<close> that every wire structure is an instance of.
\<close>

end
